(* ===== verification/Prelude.thy ===== *)
theory Prelude
  imports Main "HOL-Library.Word" "HOL-Library.AList"
begin

text \<open>
  Shared by all theories of the development: the machine integers of the Rust code, the ways
  in which it can panic, the result type of an operation that may panic with its sequencing
  operators, integer ranges, and lemmas on words, association lists (the model of
  \<^verbatim>\<open>HashMap\<close>) and folds that the component theories use.
\<close>

section \<open>Machine integers\<close>

text \<open>
  The deployed artefact is a release build for \<^verbatim>\<open>wasm32\<close> (\<^verbatim>\<open>wasm-pack build --release\<close>):
  \<^verbatim>\<open>usize\<close> has 32 bits, and \<open>+\<close> and \<open>-\<close> wrap around, which is what they do on words.
\<close>

type_synonym u64 = "64 word"
type_synonym u128 = "128 word"
type_synonym usize = "32 word"

lemma unat_plus_one: "n \<noteq> - 1 \<Longrightarrow> unat (n + 1) = Suc (unat n)" for n :: "'a::len word"
  by (metis add.commute add.right_inverse add_left_cancel unatSuc)

lemma word_less_plus_one: "n \<noteq> - 1 \<Longrightarrow> n < n + 1" for n :: "'a::len word"
  by (simp add: word_less_nat_alt unat_plus_one)

lemma word_le_nonzero_iff: "(1 \<le> n) = (n \<noteq> 0)" for n :: "'a::len word"
  by (metis linorder_not_le word_less_1)

lemma unat_minus_one_nz: "n \<noteq> 0 \<Longrightarrow> unat (n - 1) = unat n - 1" for n :: "'a::len word"
  by (simp add: unat_minus_one)

lemma unat_minus_1: "unat (- 1 :: 'a::len word) = 2 ^ LENGTH('a) - 1"
  by (simp add: unsigned_minus_1_eq_mask mask_eq_exp_minus_1)

section \<open>Panics and results\<close>

text \<open>
  One constructor per way in which the source panics: \<^verbatim>\<open>unwrap\<close> of \<^verbatim>\<open>None\<close> and of
  \<^verbatim>\<open>Err\<close>, \<^verbatim>\<open>assert!\<close>/\<^verbatim>\<open>assert_eq!\<close>, an index out of bounds, a remainder by zero,
  \<^verbatim>\<open>unreachable!\<close> and an explicit \<^verbatim>\<open>panic!\<close>.
\<close>

datatype panic =
    UnwrapNone
  | UnwrapErr
  | AssertFailed
  | IndexOutOfBounds
  | RemByZero
  | Unreachable
  | ExplicitPanic

type_synonym 'a result = "panic + 'a"

definition rbind :: "'e + 'a \<Rightarrow> ('a \<Rightarrow> 'e + 'b) \<Rightarrow> 'e + 'b" where
  "rbind r f = (case r of Inl e \<Rightarrow> Inl e | Inr x \<Rightarrow> f x)"

lemma rbind_Inl [simp]: "rbind (Inl e) f = Inl e"
  and rbind_Inr [simp]: "rbind (Inr x) f = f x"
  by (simp_all add: rbind_def)

lemma rbind_eq_Inr: "rbind r f = Inr y \<longleftrightarrow> (\<exists>x. r = Inr x \<and> f x = Inr y)"
  by (cases r) simp_all

lemma rbind_eq_Inl: "rbind r f = Inl e \<longleftrightarrow> r = Inl e \<or> (\<exists>x. r = Inr x \<and> f x = Inl e)"
  by (cases r) auto

lemma rbind_cong [fundef_cong, cong]:
  "r = r' \<Longrightarrow> (\<And>x. r' = Inr x \<Longrightarrow> f x = f' x) \<Longrightarrow> rbind r f = rbind r' f'"
  by (cases r') auto

text \<open>A check that panics, and a \<^verbatim>\<open>for\<close> loop whose body may panic.\<close>

definition rassert :: "bool \<Rightarrow> 'e \<Rightarrow> 'e + unit" where
  "rassert b e = (if b then Inr () else Inl e)"

lemma rassert_True [simp]: "rassert True e = Inr ()"
  and rassert_False [simp]: "rassert False e = Inl e"
  and rassert_eq_Inr: "rassert b e = Inr u \<longleftrightarrow> b"
  by (simp_all add: rassert_def)

fun rfold :: "('s \<Rightarrow> 'a \<Rightarrow> 'e + 's) \<Rightarrow> 's \<Rightarrow> 'a list \<Rightarrow> 'e + 's" where
  "rfold f s [] = Inr s"
| "rfold f s (x # xs) = rbind (f s x) (\<lambda>s'. rfold f s' xs)"

lemma rfold_append: "rfold f s (xs @ ys) = rbind (rfold f s xs) (\<lambda>s'. rfold f s' ys)"
  by (induction xs arbitrary: s) (auto simp: rbind_def split: sum.splits)

text \<open>The rule for loops: what every iteration keeps holds after the loop.\<close>

lemma rfold_invariant:
  assumes "rfold f s xs = Inr t" and "P s"
    and "\<And>s x s'. x \<in> set xs \<Longrightarrow> P s \<Longrightarrow> f s x = Inr s' \<Longrightarrow> P s'"
  shows "P t"
  using assms
proof (induction xs arbitrary: s)
  case Nil
  then show ?case by simp
next
  case (Cons x xs)
  from Cons.prems(1) obtain s' where s': "f s x = Inr s'" "rfold f s' xs = Inr t"
    by (auto simp: rbind_eq_Inr)
  have "P s'" by (rule Cons.prems(3) [OF _ Cons.prems(2) s'(1)]) simp
  with s'(2) show ?case by (rule Cons.IH) (auto intro: Cons.prems(3))
qed

text \<open>\<^verbatim>\<open>indices.map(get).filter(Option::is_some).flatten().collect()\<close>\<close>

fun collect_some :: "('i \<Rightarrow> 'e + 'a option) \<Rightarrow> 'i list \<Rightarrow> 'e + 'a list" where
  "collect_some g [] = Inr []"
| "collect_some g (i # is) =
     rbind (g i) (\<lambda>x. rbind (collect_some g is) (\<lambda>xs.
       Inr (case x of None \<Rightarrow> xs | Some y \<Rightarrow> y # xs)))"

lemma collect_some_total:
  "(\<And>i. i \<in> set is \<Longrightarrow> g i = Inr (h i)) \<Longrightarrow> collect_some g is = Inr (List.map_filter h is)"
  by (induction "is") (auto simp: List.map_filter_simps split: option.splits)

section \<open>Ranges\<close>

text \<open>\<^verbatim>\<open>a..b\<close> and \<^verbatim>\<open>a..=b\<close>, as the list of the values the iterator yields.\<close>

definition range_excl :: "'a::len word \<Rightarrow> 'a word \<Rightarrow> 'a word list" where
  "range_excl a b = map word_of_nat [unat a ..< unat b]"

definition range_incl :: "'a::len word \<Rightarrow> 'a word \<Rightarrow> 'a word list" where
  "range_incl a b = map word_of_nat [unat a ..< Suc (unat b)]"

lemma unat_of_nat_le: "n \<le> unat (b :: 'a::len word) \<Longrightarrow> unat (word_of_nat n :: 'a word) = n"
  by (metis le_unat_uoi)

lemma set_range_incl: "set (range_incl a b) = {n. a \<le> n \<and> n \<le> b}"
proof -
  have "n \<in> set (range_incl a b) \<longleftrightarrow> a \<le> n \<and> n \<le> b" for n
  proof
    assume "n \<in> set (range_incl a b)"
    then obtain k where "n = word_of_nat k" "unat a \<le> k" "k \<le> unat b"
      by (auto simp: range_incl_def)
    then show "a \<le> n \<and> n \<le> b" by (simp add: word_le_nat_alt unat_of_nat_le)
  next
    assume "a \<le> n \<and> n \<le> b"
    then have "n = word_of_nat (unat n)" "unat a \<le> unat n" "unat n < Suc (unat b)"
      by (simp_all add: word_le_nat_alt)
    then show "n \<in> set (range_incl a b)" unfolding range_incl_def
      by (metis atLeastLessThan_iff image_eqI list.set_map set_upt)
  qed
  then show ?thesis by blast
qed

lemma range_incl_empty: "b < a \<Longrightarrow> range_incl a b = []"
  by (simp add: range_incl_def word_less_nat_alt)

lemma range_incl_Cons: "a \<le> b \<Longrightarrow> range_incl a b = a # (if a = b then [] else range_incl (a + 1) b)"
proof -
  assume "a \<le> b"
  then have le: "unat a \<le> unat b" by (simp add: word_le_nat_alt)
  show ?thesis
  proof (cases "a = b")
    case True
    then show ?thesis by (simp add: range_incl_def)
  next
    case False
    with \<open>a \<le> b\<close> have "a < b" by simp
    then have "a \<noteq> - 1" by (metis word_n1_ge linorder_not_le)
    then have "unat (a + 1) = Suc (unat a)" by (rule unat_plus_one)
    with le False show ?thesis
      by (simp add: range_incl_def upt_conv_Cons del: upt_Suc)
  qed
qed

section \<open>Hash maps\<close>

text \<open>
  A \<^verbatim>\<open>HashMap\<close> is an association list: \<^const>\<open>map_of\<close> is its lookup, \<^const>\<open>AList.update\<close>
  its \<^verbatim>\<open>insert\<close> and \<^const>\<open>AList.delete\<close> its \<^verbatim>\<open>remove\<close>. The list's order stands for the
  unspecified iteration order; no property depends on it.
\<close>

lemma map_of_alist_update [simp]: "map_of (AList.update k v al) = (map_of al)(k \<mapsto> v)"
  by (rule update_conv')

lemma map_of_alist_delete [simp]: "map_of (AList.delete k al) = (map_of al)(k := None)"
  by (rule delete_conv')

lemma map_of_const_list: "map_of (map (\<lambda>p. (p, c)) ps) k = (if k \<in> set ps then Some c else None)"
  by (induction ps) auto

lemma map_fst_const_list [simp]: "map fst (map (\<lambda>p. (p, c)) ps) = ps"
  by (induction ps) auto

end
