(* ===== verification/Radix.thy ===== *)
theory Radix
  imports Prelude
begin

text \<open>
  The conversions between unsigned integers and text that the program takes from the standard
  library: \<^verbatim>\<open>to_string\<close> and \<^verbatim>\<open>format!("{}")\<close>, \<^verbatim>\<open>format!("{:032x}")\<close>, \<^verbatim>\<open>parse\<close> and
  \<^verbatim>\<open>from_str_radix\<close>. The persisted state (raft/storage.rs) and the session key in the URL
  (raft\_init.rs, lib.rs) go through them, so their round trips are what recovery and joining a
  cluster rest on.
\<close>

section \<open>Printing\<close>

fun radix_digits :: "nat \<Rightarrow> nat \<Rightarrow> nat list" where
  "radix_digits r n =
     (if r \<le> 1 \<or> n < r then [n] else radix_digits r (n div r) @ [n mod r])"

declare radix_digits.simps [simp del]

definition digit_char :: "nat \<Rightarrow> char" where
  "digit_char d = (if d < 10 then char_of (48 + d) else char_of (87 + d))"

definition show_radix :: "nat \<Rightarrow> nat \<Rightarrow> string" where
  "show_radix r n = map digit_char (radix_digits r n)"

definition to_string :: "'a::len word \<Rightarrow> string" where
  "to_string w = show_radix 10 (unat w)"

definition format_032x :: "'a::len word \<Rightarrow> string" where
  "format_032x w =
     (let s = show_radix 16 (unat w) in replicate (32 - length s) CHR ''0'' @ s)"

section \<open>Parsing\<close>

text \<open>
  \<^verbatim>\<open>from_str_radix\<close> on an unsigned type: empty input and a lone sign are errors, a leading
  \<open>+\<close> is skipped, a digit outside the radix is an error (a \<open>-\<close> too), and so is overflow.
\<close>

definition to_digit :: "nat \<Rightarrow> char \<Rightarrow> nat option" where
  "to_digit r c =
     (let n = (of_char c :: nat);
          d = (if 48 \<le> n \<and> n \<le> 57 then Some (n - 48)
               else if 97 \<le> n \<and> n \<le> 122 then Some (n - 87)
               else if 65 \<le> n \<and> n \<le> 90 then Some (n - 55)
               else None)
      in case d of None \<Rightarrow> None | Some k \<Rightarrow> if k < r then Some k else None)"

fun parse_digits :: "nat \<Rightarrow> nat \<Rightarrow> nat \<Rightarrow> string \<Rightarrow> nat option" where
  "parse_digits r bound acc [] = Some acc"
| "parse_digits r bound acc (c # cs) =
     (case to_digit r c of
        None \<Rightarrow> None
      | Some d \<Rightarrow> if acc * r + d < bound then parse_digits r bound (acc * r + d) cs else None)"

definition from_str_radix :: "string \<Rightarrow> nat \<Rightarrow> 'a::len word option" where
  "from_str_radix s r =
     map_option word_of_nat
       (case s of
          [] \<Rightarrow> None
        | c # cs \<Rightarrow>
            if (c = CHR ''+'' \<or> c = CHR ''-'') \<and> cs = [] then None
            else if c = CHR ''+'' then parse_digits r (2 ^ LENGTH('a)) 0 cs
            else parse_digits r (2 ^ LENGTH('a)) 0 s)"

definition parse :: "string \<Rightarrow> 'a::len word option" where
  "parse s = from_str_radix s 10"

section \<open>Round trips\<close>

lemma to_digit_digit_char: "d < r \<Longrightarrow> r \<le> 36 \<Longrightarrow> to_digit r (digit_char d) = Some d"
  by (auto simp: to_digit_def digit_char_def)

lemma digit_char_alnum:
  "d < 36 \<Longrightarrow> of_char (digit_char d) \<in> {48 .. 57 :: nat} \<union> {97 .. 122}"
  by (auto simp: digit_char_def)

lemma digit_char_no_sign: "d < 36 \<Longrightarrow> digit_char d \<notin> {CHR ''+'', CHR ''-''}"
  using digit_char_alnum [of d] by auto

lemma radix_digits_less: "2 \<le> r \<Longrightarrow> d \<in> set (radix_digits r n) \<Longrightarrow> d < r"
proof (induction r n rule: radix_digits.induct)
  case (1 r n)
  show ?case
  proof (cases "n < r")
    case True
    with 1 show ?thesis by (simp add: radix_digits.simps [of r n])
  next
    case False
    with 1 show ?thesis by (auto simp: radix_digits.simps [of r n])
  qed
qed

lemma radix_digits_nonempty: "radix_digits r n \<noteq> []"
  by (subst radix_digits.simps) simp

text \<open>Parsing the digits of a number reads it back, after any accumulated prefix.\<close>

lemma parse_digits_append:
  "parse_digits r b acc (xs @ ys) =
     (case parse_digits r b acc xs of None \<Rightarrow> None | Some a \<Rightarrow> parse_digits r b a ys)"
  by (induction xs arbitrary: acc) (auto split: option.splits)

lemma parse_show_radix:
  "2 \<le> r \<Longrightarrow> r \<le> 36 \<Longrightarrow> n < b \<Longrightarrow> parse_digits r b 0 (show_radix r n) = Some n"
proof (induction r n rule: radix_digits.induct)
  case (1 r n)
  show ?case
  proof (cases "n < r")
    case True
    with 1 show ?thesis
      by (simp add: show_radix_def radix_digits.simps [of r n] to_digit_digit_char)
  next
    case False
    have "n div r < b" using "1.prems"(3) by (meson div_le_dividend le_less_trans)
    with False "1.IH" "1.prems" have
      "parse_digits r b 0 (map digit_char (radix_digits r (n div r))) = Some (n div r)"
      by (simp add: show_radix_def)
    moreover have "n div r * r + n mod r = n" by simp
    ultimately show ?thesis using False "1.prems"
      by (simp add: show_radix_def radix_digits.simps [of r n] parse_digits_append
          to_digit_digit_char)
  qed
qed

lemma parse_zeros: "0 < r \<Longrightarrow> 0 < b \<Longrightarrow> parse_digits r b 0 (replicate k CHR ''0'' @ s) = parse_digits r b 0 s"
  by (induction k) (auto simp: to_digit_def)

lemma show_radix_chars:
  "2 \<le> r \<Longrightarrow> r \<le> 36 \<Longrightarrow> c \<in> set (show_radix r n) \<Longrightarrow> c \<notin> {CHR ''+'', CHR ''-''}"
proof -
  assume r: "2 \<le> r" "r \<le> 36" and "c \<in> set (show_radix r n)"
  then obtain d where d: "d \<in> set (radix_digits r n)" "c = digit_char d"
    by (auto simp: show_radix_def)
  with r have "d < 36" using radix_digits_less [of r d n] by simp
  then show ?thesis unfolding d(2) by (rule digit_char_no_sign)
qed

lemma show_radix_nonempty [simp]: "show_radix r n \<noteq> []"
  by (simp add: show_radix_def radix_digits_nonempty)

lemma from_str_radix_unsigned:
  assumes "s \<noteq> []" and "hd s \<notin> {CHR ''+'', CHR ''-''}"
    and "parse_digits r (2 ^ LENGTH('a)) 0 s = Some n"
  shows "(from_str_radix s r :: 'a::len word option) = Some (word_of_nat n)"
  using assms by (cases s) (auto simp: from_str_radix_def)

lemma from_str_radix_show:
  assumes "2 \<le> r" "r \<le> 36"
  shows "from_str_radix (show_radix r (unat w)) r = Some (w :: 'a::len word)"
proof -
  have "parse_digits r (2 ^ LENGTH('a)) 0 (show_radix r (unat w)) = Some (unat w)"
    by (rule parse_show_radix [OF assms]) simp
  moreover have "hd (show_radix r (unat w)) \<notin> {CHR ''+'', CHR ''-''}"
    by (rule show_radix_chars [OF assms]) (rule hd_in_set, simp)
  ultimately show ?thesis
    using from_str_radix_unsigned [of "show_radix r (unat w)" r "unat w", where 'a = 'a] by simp
qed

lemma parse_to_string [simp]: "parse (to_string w) = Some w"
  by (simp add: parse_def to_string_def from_str_radix_show)

lemma to_string_inj [simp]: "to_string v = to_string w \<longleftrightarrow> v = w"
  by (metis option.inject parse_to_string)

lemma to_string_chars: "c \<in> set (to_string w) \<Longrightarrow> c \<noteq> CHR ''-''"
  using show_radix_chars [of 10 c "unat w"] by (auto simp: to_string_def)

lemma from_str_radix_format_032x: "from_str_radix (format_032x w) 16 = Some (w :: 'a::len word)"
proof -
  let ?s = "show_radix 16 (unat w)"
  have "parse_digits 16 (2 ^ LENGTH('a)) 0 (format_032x w) = Some (unat w)"
    by (simp add: format_032x_def Let_def parse_zeros parse_show_radix)
  moreover have "hd (format_032x w) \<notin> {CHR ''+'', CHR ''-''}"
  proof (cases "32 - length ?s")
    case 0
    have "hd ?s \<notin> {CHR ''+'', CHR ''-''}"
      by (rule show_radix_chars [of 16 _ "unat w"]) (simp_all add: hd_in_set)
    with 0 show ?thesis by (simp add: format_032x_def)
  next
    case (Suc k)
    then show ?thesis by (simp add: format_032x_def Let_def)
  qed
  moreover have "format_032x w \<noteq> []" by (simp add: format_032x_def Let_def)
  ultimately show ?thesis
    using from_str_radix_unsigned [of "format_032x w" 16 "unat w", where 'a = 'a] by simp
qed

text \<open>A 128-bit key always takes exactly the 32 characters of its field.\<close>

lemma length_radix_digits: "2 \<le> r \<Longrightarrow> n < r ^ k \<Longrightarrow> 0 < k \<Longrightarrow> length (radix_digits r n) \<le> k"
proof (induction r n arbitrary: k rule: radix_digits.induct)
  case (1 r n)
  show ?case
  proof (cases "n < r")
    case True
    with 1 show ?thesis by (simp add: radix_digits.simps [of r n])
  next
    case False
    with "1.prems" obtain j where k: "k = Suc j" "0 < j"
      by (cases k; cases "k = 1") auto
    with "1.prems" have "n div r < r ^ j" by (simp add: less_mult_imp_div_less mult.commute)
    with "1.IH" [of j] False "1.prems" k have "length (radix_digits r (n div r)) \<le> j" by simp
    with False "1.prems" k show ?thesis by (simp add: radix_digits.simps [of r n])
  qed
qed

lemma length_format_032x: "length (format_032x (w :: u128)) = 32"
proof -
  have "unat w < 16 ^ 32" using unsigned_less [of w] by simp
  then have "length (show_radix 16 (unat w)) \<le> 32"
    unfolding show_radix_def by (simp add: length_radix_digits)
  then show ?thesis by (simp add: format_032x_def Let_def)
qed

lemma format_032x_digits: "c \<in> set (format_032x w) \<Longrightarrow> to_digit 16 c \<noteq> None"
proof -
  assume "c \<in> set (format_032x w)"
  then obtain d where "d < 16" "c = digit_char d \<or> c = CHR ''0''"
    using radix_digits_less [of 16 _ "unat w"] by (fastforce simp: format_032x_def Let_def show_radix_def split: if_splits)
  then show ?thesis using to_digit_digit_char [of d 16] by (auto simp: to_digit_def)
qed

end
