(* ===== verification/RaftTypes.thy ===== *)
theory RaftTypes
  imports Radix
begin

text \<open>
  The data of the Raft library: the type definitions of raft/mod.rs and raft/errors.rs, in the
  source's order and with its fields. Field names that several structs share carry a short
  prefix (\<open>le_\<close> for log entries, \<open>ae_\<close>/\<open>aer_\<close> for append-entries requests and responses,
  \<open>rv_\<close>/\<open>rvr_\<close> for vote requests and responses). \<open>'cmd\<close> is the command type of the
  replicated state machine.
\<close>

type_synonym LogIndex = u64
type_synonym TermIndex = u64
type_synonym NodeId = u64

section \<open>Log entries and RPC messages\<close>

record 'cmd LogEntry =
  le_cmd :: 'cmd
  le_term :: TermIndex
  le_idx :: LogIndex

record 'cmd AppendEntriesRequest =
  ae_term :: TermIndex
  ae_leader_id :: NodeId
  ae_prev_log_index :: LogIndex
  ae_prev_log_term :: TermIndex
  ae_entries :: "'cmd LogEntry list"
  ae_leader_commit :: LogIndex

record RequestVoteRequest =
  rv_term :: TermIndex
  rv_candidate :: NodeId
  rv_last_log_index :: LogIndex
  rv_last_log_term :: TermIndex

record RequestVoteResponse =
  rvr_term :: TermIndex
  rvr_vote_granted :: bool

record AppendEntriesResponse =
  aer_term :: TermIndex
  aer_success :: bool

record RaftStateDump =
  rsd_state :: string
  rsd_leader_id :: "NodeId option"
  rsd_node_id :: NodeId
  rsd_session_key :: u128
  rsd_cluster_size :: nat
  rsd_peers :: "NodeId list"
  rsd_online_peers :: "NodeId list"
  rsd_voted_for :: "NodeId option"
  rsd_current_term :: TermIndex
  rsd_last_log_index :: LogIndex
  rsd_commit_index :: LogIndex
  rsd_last_applied :: LogIndex

section \<open>Client messages and errors\<close>

datatype ClientError = Unavailable | Timeout

datatype 'cmd ClientRequest = Apply 'cmd | Debug

datatype 'cmd ClientResponse =
    Ack
  | Get "'cmd option"
  | GetCurrentState "(string \<times> 'cmd) list"
  | DebugDump RaftStateDump

datatype 'cmd RpcRequest =
    AppendEntries "'cmd AppendEntriesRequest"
  | RequestVote RequestVoteRequest
  | ForwardClientRequest "'cmd ClientRequest"

type_synonym 'cmd ClientResult = "ClientError + 'cmd ClientResponse"

datatype 'cmd RpcResponse =
    AppendEntriesR AppendEntriesResponse
  | RequestVoteR RequestVoteResponse
  | ForwardClientRequestR "'cmd ClientResult"

end
