(* ===== verification/LogInterface.thy ===== *)
theory LogInterface
  imports Prelude
begin

text \<open>
  The interface between the Raft worker and its storage. The worker sees a log as a list whose
  first entry has index 1; it reads it by index and by ranges of indices, and writes it in the
  loop with which a follower takes over a leader's entries. The two locales state what the
  storage promises; the lemmas proved in them are what the worker relies on.
\<close>

section \<open>Reading by index\<close>

definition log_nth :: "'e list \<Rightarrow> 'i::len word \<Rightarrow> 'e option" where
  "log_nth l i = (if i = 0 \<or> length l < unat i then None else Some (l ! (unat i - 1)))"

lemma log_nth_0 [simp]: "log_nth l 0 = None"
  by (simp add: log_nth_def)

lemma log_nth_Nil [simp]: "log_nth [] i = None"
  by (auto simp: log_nth_def unat_eq_0 [symmetric])

lemma log_nth_eq_Some:
  "log_nth l i = Some e \<longleftrightarrow> i \<noteq> 0 \<and> unat i \<le> length l \<and> e = l ! (unat i - 1)"
  by (auto simp: log_nth_def)

lemma log_nth_eq_None: "log_nth l i = None \<longleftrightarrow> i = 0 \<or> length l < unat i"
  by (auto simp: log_nth_def)

lemma map_filter_log_nth:
  assumes "length l < 2 ^ LENGTH('i::len)" and "0 < a" and "b \<le> 2 ^ LENGTH('i)"
  shows "List.map_filter (log_nth l) (map (word_of_nat :: nat \<Rightarrow> 'i word) [a ..< b])
    = drop (a - 1) (take (b - 1) l)"
  using assms(3)
proof (induction b)
  case 0
  then show ?case by (simp add: List.map_filter_simps)
next
  case (Suc b)
  have append: "List.map_filter f (xs @ ys) = List.map_filter f xs @ List.map_filter f ys"
    for f :: "'i word \<Rightarrow> 'a option" and xs ys by (simp add: List.map_filter_def)
  show ?case
  proof (cases "a \<le> b")
    case False
    then show ?thesis by (simp add: List.map_filter_simps)
  next
    case True
    with Suc.prems have u: "unat (word_of_nat b :: 'i word) = b"
      by (simp add: unsigned_of_nat take_bit_nat_eq_self)
    with True assms(2) have nz: "(word_of_nat b :: 'i word) \<noteq> 0"
      by (metis le_zero_eq not_gr_zero unat_0)
    have "List.map_filter (log_nth l) [word_of_nat b :: 'i word]
        = (if length l < b then [] else [l ! (b - 1)])"
      using u nz by (simp add: List.map_filter_simps log_nth_def)
    moreover have "drop (a - 1) (take b l) = drop (a - 1) (take (b - 1) l) @
        (if length l < b then [] else [l ! (b - 1)])"
      using True assms(2) by (cases b) (auto simp: take_Suc_conv_app_nth)
    ultimately show ?thesis
      using True Suc by (simp add: append)
  qed
qed

locale indexed_log =
  fixes inv :: "'s \<Rightarrow> bool"
    and log :: "'s \<Rightarrow> 'e list"
    and get :: "'s \<Rightarrow> 'i::len word \<Rightarrow> 'x + 'e option"
  assumes get_spec: "inv s \<Longrightarrow> get s i = Inr (log_nth (log s) i)"
    and log_bound: "inv s \<Longrightarrow> length (log s) < 2 ^ LENGTH('i)"
begin

text \<open>Reading a range of indices is taking a slice of the log; it never panics.\<close>

lemma collect_range:
  assumes "inv s" and "0 < a" and "b \<le> 2 ^ LENGTH('i)"
  shows "collect_some (get s) (map word_of_nat [a ..< b]) = Inr (drop (a - 1) (take (b - 1) (log s)))"
  using collect_some_total [of "map word_of_nat [a ..< b]" "get s" "log_nth (log s)"]
    get_spec [OF assms(1)] map_filter_log_nth [OF log_bound [OF assms(1)] assms(2,3)]
  by simp

lemma collect_range_excl:
  assumes "inv s" and "a \<noteq> 0"
  shows "collect_some (get s) (range_excl a b)
    = Inr (drop (unat a - 1) (take (unat b - 1) (log s)))"
  unfolding range_excl_def
  by (rule collect_range [OF assms(1)])
    (use assms(2) less_imp_le [OF unsigned_less [of b]] in \<open>auto simp: unat_gt_0\<close>)

lemma collect_range_incl:
  assumes "inv s" and "a \<noteq> 0"
  shows "collect_some (get s) (range_incl a b)
    = Inr (drop (unat a - 1) (take (unat b) (log s)))"
  using collect_range [OF assms(1), of "unat a" "Suc (unat b)"] assms(2) unsigned_less [of b]
  by (simp add: range_incl_def unat_gt_0 Suc_le_eq del: upt_Suc)

end

section \<open>Taking over a leader's entries\<close>

text \<open>
  The rule of the Raft paper for the entries that follow position \<open>p\<close>: entries that are
  already there (same term) are kept, the first conflicting one and everything after it are
  replaced, and what is new is appended.
\<close>

fun raft_merge :: "('e \<Rightarrow> 't) \<Rightarrow> 'e list \<Rightarrow> nat \<Rightarrow> 'e list \<Rightarrow> 'e list" where
  "raft_merge tm l p [] = l"
| "raft_merge tm l p (e # es) =
     (if p < length l \<and> tm (l ! p) = tm e then raft_merge tm l (Suc p) es
      else take p l @ e # es)"

text \<open>The entries carry the indices \<open>p + 1, p + 2, \<dots>\<close>.\<close>

fun indexed_from :: "('e \<Rightarrow> 'i::len word) \<Rightarrow> nat \<Rightarrow> 'e list \<Rightarrow> bool" where
  "indexed_from idx p [] = True"
| "indexed_from idx p (e # es) = (unat (idx e) = Suc p \<and> indexed_from idx (Suc p) es)"

locale writable_log = indexed_log inv log get
  for inv :: "'s \<Rightarrow> bool" and log :: "'s \<Rightarrow> 'e list"
    and get :: "'s \<Rightarrow> 'i::len word \<Rightarrow> panic + 'e option" +
  fixes append overwrite :: "'s \<Rightarrow> 'e \<Rightarrow> panic + 's"
    and idx :: "'e \<Rightarrow> 'i word"
    and same :: "'s \<Rightarrow> 's \<Rightarrow> bool"
  assumes append_spec: "inv s \<Longrightarrow> append s e = Inr s' \<Longrightarrow> unat (idx e) = Suc (length (log s)) \<Longrightarrow>
      inv s' \<and> log s' = log s @ [e] \<and> same s s'"
    and overwrite_spec: "inv s \<Longrightarrow> overwrite s e = Inr s' \<Longrightarrow> unat (idx e) = length (log s) \<Longrightarrow>
      idx e \<noteq> 0 \<Longrightarrow> inv s' \<and> log s' = butlast (log s) @ [e] \<and> same s s'"
    and overwrite_panic: "inv s \<Longrightarrow> unat (idx e) < length (log s) \<Longrightarrow> overwrite s e = Inl AssertFailed"
    and same_refl: "same s s"
    and same_trans: "same s s' \<Longrightarrow> same s' s'' \<Longrightarrow> same s s''"
begin

lemma put_all_new:
  assumes "inv s" and "indexed_from idx (length (log s)) es"
    and "rfold (\<lambda>s e. rbind (get s (idx e)) (\<lambda>x. case x of
           Some ex \<Rightarrow> if tm ex \<noteq> tm e then overwrite s e else Inr s
         | None \<Rightarrow> append s e)) s es = Inr s'"
  shows "inv s' \<and> log s' = log s @ es \<and> same s s'"
  using assms
proof (induction es arbitrary: s)
  case Nil
  then show ?case by (simp add: same_refl)
next
  case (Cons e es)
  then have ix: "unat (idx e) = Suc (length (log s))" by simp
  then have "log_nth (log s) (idx e) = None" by (simp add: log_nth_eq_None)
  with Cons.prems(3) get_spec [OF Cons.prems(1)] obtain s1 where s1: "append s e = Inr s1"
    and rest: "rfold (\<lambda>s e. rbind (get s (idx e)) (\<lambda>x. case x of
           Some ex \<Rightarrow> if tm ex \<noteq> tm e then overwrite s e else Inr s
         | None \<Rightarrow> append s e)) s1 es = Inr s'"
    by (auto simp: rbind_eq_Inr)
  from append_spec [OF Cons.prems(1) s1 ix] have a: "inv s1" "log s1 = log s @ [e]" "same s s1"
    by simp_all
  with Cons.IH [OF a(1) _ rest] Cons.prems(2) show ?case by (auto intro: same_trans)
qed

text \<open>
  The follower's loop computes \<^const>\<open>raft_merge\<close> whenever it returns: reading back the log
  after the loop gives the paper's merge of the log before it.
\<close>

lemma put_all_merge:
  assumes "inv s" and "indexed_from idx p es" and "p \<le> length (log s)"
    and "rfold (\<lambda>s e. rbind (get s (idx e)) (\<lambda>x. case x of
           Some ex \<Rightarrow> if tm ex \<noteq> tm e then overwrite s e else Inr s
         | None \<Rightarrow> append s e)) s es = Inr s'"
  shows "inv s' \<and> log s' = raft_merge tm (log s) p es \<and> same s s'"
  using assms
proof (induction es arbitrary: s p)
  case Nil
  then show ?case by (simp add: same_refl)
next
  case (Cons e es)
  note inv = Cons.prems(1)
  let ?body = "\<lambda>s e. rbind (get s (idx e)) (\<lambda>x. case x of
           Some ex \<Rightarrow> if tm ex \<noteq> tm e then overwrite s e else Inr s
         | None \<Rightarrow> append s e)"
  from Cons.prems(2) have ix: "unat (idx e) = Suc p" "indexed_from idx (Suc p) es" by simp_all
  then have nz: "idx e \<noteq> 0" by (metis nat.distinct(1) unat_0)
  from Cons.prems(4) obtain s1 where b: "?body s e = Inr s1" and r: "rfold ?body s1 es = Inr s'"
    by (auto simp: rbind_eq_Inr)
  show ?case
  proof (cases "p < length (log s)")
    case False
    with Cons.prems(3) have "p = length (log s)" by simp
    with put_all_new [OF inv _ Cons.prems(4)] Cons.prems(2) show ?thesis by simp
  next
    case True
    then have "get s (idx e) = Inr (Some (log s ! p))"
      using get_spec [OF inv] ix(1) nz by (simp add: log_nth_def)
    note g = this
    show ?thesis
    proof (cases "tm (log s ! p) = tm e")
      case True
      with b g have "s1 = s" by simp
      with Cons.IH [OF inv ix(2) _ ] r True \<open>p < length (log s)\<close> show ?thesis by simp
    next
      case False
      with b g have ov: "overwrite s e = Inr s1" by simp
      then have last: "unat (idx e) = length (log s)"
        using overwrite_panic [OF inv, of e] True ix(1) by (cases "Suc p < length (log s)") auto
      from overwrite_spec [OF inv ov last nz]
      have s1: "inv s1" "log s1 = butlast (log s) @ [e]" "same s s1" by simp_all
      have len: "length (log s1) = Suc p" using s1(2) last ix(1) by simp
      have "inv s' \<and> log s' = log s1 @ es \<and> same s1 s'"
        by (rule put_all_new [OF s1(1) _ r]) (simp add: len ix(2))
      moreover have "log s1 = take p (log s) @ [e]"
      proof -
        have "length (log s) - 1 = p" using last ix(1) by simp
        then show ?thesis by (simp add: s1(2) butlast_conv_take)
      qed
      ultimately show ?thesis using False same_trans [OF s1(3)] by simp
    qed
  qed
qed

text \<open>
  It returns only if every conflict it meets is at the end of the log: a conflicting entry
  further down makes it panic.
\<close>

lemma put_all_conflict_panics:
  assumes "inv s" and "indexed_from idx p (es @ [e])" and "Suc (p + length es) < length (log s)"
    and "\<forall>i < length es. tm (log s ! (p + i)) = tm (es ! i)" and "tm (log s ! (p + length es)) \<noteq> tm e"
  shows "rfold (\<lambda>s e. rbind (get s (idx e)) (\<lambda>x. case x of
           Some ex \<Rightarrow> if tm ex \<noteq> tm e then overwrite s e else Inr s
         | None \<Rightarrow> append s e)) s (es @ e # es') = Inl AssertFailed"
  using assms(2-)
proof (induction es arbitrary: p)
  case Nil
  then have ix: "unat (idx e) = Suc p" "idx e \<noteq> 0" by auto
  with assms(1) Nil.prems have "get s (idx e) = Inr (Some (log s ! p))" by (simp add: get_spec log_nth_def)
  with ix Nil.prems overwrite_panic [OF assms(1), of e] show ?case by simp
next
  case (Cons x es)
  then have ix: "unat (idx x) = Suc p" "idx x \<noteq> 0" by auto
  with assms(1) Cons.prems have "get s (idx x) = Inr (Some (log s ! p))" by (simp add: get_spec log_nth_def)
  moreover have "tm (log s ! p) = tm x" using Cons.prems(3) by force
  moreover have "\<forall>i < length es. tm (log s ! (Suc p + i)) = tm (es ! i)" using Cons.prems(3) by fastforce
  ultimately show ?case using Cons.IH [of "Suc p"] Cons.prems by simp
qed

end

end
