(* ===== verification/Storage.thy ===== *)
theory Storage
  imports RaftTypes LogInterface
begin

text \<open>
  The persistent state of a node, raft/storage.rs: a struct that caches the term, the vote and
  the last log index, over the browser's local storage, a map from strings to strings. Every
  operation of the source is a definition with its panics. The section on the abstraction reads
  a storage as a term, a vote and a list of log entries, and states each operation on it.
\<close>

section \<open>The environment\<close>

text \<open>
  What the storage takes from code outside the repository: how a log entry is written as a
  string (\<^verbatim>\<open>bincode\<close> under \<^verbatim>\<open>base64\<close>), how a string is read back, and whether the browser
  accepts a \<^verbatim>\<open>set_item\<close> (it refuses when its quota is exceeded, and the source unwraps).
\<close>

record 'cmd env =
  encode :: "'cmd LogEntry \<Rightarrow> string"
  decode :: "string \<Rightarrow> 'cmd LogEntry option"
  fits :: "(string \<rightharpoonup> string) \<Rightarrow> string \<Rightarrow> string \<Rightarrow> bool"

text \<open>Documented behaviour of the codec: what was written is read back.\<close>

definition codec_ok :: "'cmd env \<Rightarrow> bool" where
  "codec_ok env \<longleftrightarrow> (\<forall>e. decode env (encode env e) = Some e)"

section \<open>State and operations\<close>

record Storage =
  session_key :: u128
  last_log_index :: LogIndex
  last_log_index_key :: string
  current_term :: TermIndex
  current_term_key :: string
  voted_for :: "NodeId option"
  voted_for_key :: string
  storage :: "string \<rightharpoonup> string"

definition get_persistent :: "Storage \<Rightarrow> string \<Rightarrow> string option" where
  "get_persistent s key = storage s key"

definition set_persistent :: "'cmd env \<Rightarrow> Storage \<Rightarrow> string \<Rightarrow> string \<Rightarrow> Storage result" where
  "set_persistent env s key val =
     (if fits env (storage s) key val then Inr (s\<lparr>storage := (storage s)(key \<mapsto> val)\<rparr>)
      else Inl UnwrapErr)"

definition remove_persistent :: "Storage \<Rightarrow> string \<Rightarrow> Storage" where
  "remove_persistent s key = s\<lparr>storage := (storage s)(key := None)\<rparr>"

definition log_key :: "Storage \<Rightarrow> LogIndex \<Rightarrow> string" where
  "log_key s idx = ''log-'' @ to_string (session_key s) @ ''-'' @ to_string idx"

text \<open>\<^verbatim>\<open>Storage::new\<close>: reads whatever an earlier run of this session left.\<close>

definition load_number :: "Storage \<Rightarrow> string \<Rightarrow> (u64 \<Rightarrow> Storage \<Rightarrow> Storage) \<Rightarrow> Storage result" where
  "load_number s key upd =
     (case get_persistent s key of
        None \<Rightarrow> Inr s
      | Some str \<Rightarrow> (case parse str of None \<Rightarrow> Inl UnwrapErr | Some n \<Rightarrow> Inr (upd n s)))"

definition Storage_new :: "u128 \<Rightarrow> (string \<rightharpoonup> string) \<Rightarrow> Storage result" where
  "Storage_new sk local_storage =
     (let state = \<lparr> session_key = sk, last_log_index = 0,
            last_log_index_key = ''last-log-index-'' @ to_string sk,
            current_term = 0, current_term_key = ''current-term-'' @ to_string sk,
            voted_for = None, voted_for_key = ''voted-for-'' @ to_string sk,
            storage = local_storage \<rparr>
      in rbind (load_number state (current_term_key state) (\<lambda>n. current_term_update (\<lambda>_. n)))
           (\<lambda>state. rbind (load_number state (voted_for_key state) (\<lambda>n. voted_for_update (\<lambda>_. Some n)))
             (\<lambda>state. load_number state (last_log_index_key state) (\<lambda>n. last_log_index_update (\<lambda>_. n)))))"

definition set_last_log_index :: "'cmd env \<Rightarrow> Storage \<Rightarrow> LogIndex \<Rightarrow> Storage result" where
  "set_last_log_index env s idx =
     set_persistent env (s\<lparr>last_log_index := idx\<rparr>) (last_log_index_key s) (to_string idx)"

definition increment_last_log_index :: "'cmd env \<Rightarrow> Storage \<Rightarrow> (Storage \<times> LogIndex) result" where
  "increment_last_log_index env s =
     (let idx = last_log_index s + 1
      in rbind (set_last_log_index env s idx) (\<lambda>s. Inr (s, idx)))"

definition get_log :: "'cmd env \<Rightarrow> Storage \<Rightarrow> LogIndex \<Rightarrow> 'cmd LogEntry option result" where
  "get_log env s idx =
     (if idx = 0 \<or> last_log_index s < idx then Inr None
      else case storage s (log_key s idx) of
             None \<Rightarrow> Inl UnwrapNone
           | Some data \<Rightarrow> (case decode env data of None \<Rightarrow> Inl UnwrapErr | Some e \<Rightarrow> Inr (Some e)))"

definition last_log_term :: "'cmd env \<Rightarrow> Storage \<Rightarrow> TermIndex result" where
  "last_log_term env s =
     rbind (get_log env s (last_log_index s))
       (\<lambda>x. Inr (case x of Some entry \<Rightarrow> le_term entry | None \<Rightarrow> 0))"

definition set_current_term :: "'cmd env \<Rightarrow> Storage \<Rightarrow> TermIndex \<Rightarrow> Storage result" where
  "set_current_term env s term =
     set_persistent env (s\<lparr>current_term := term\<rparr>) (current_term_key s) (to_string term)"

definition set_voted_for :: "'cmd env \<Rightarrow> Storage \<Rightarrow> NodeId option \<Rightarrow> Storage result" where
  "set_voted_for env s val =
     (case val of
        Some v \<Rightarrow> set_persistent env (s\<lparr>voted_for := Some v\<rparr>) (voted_for_key s) (to_string v)
      | None \<Rightarrow> Inr ((remove_persistent s (voted_for_key s))\<lparr>voted_for := None\<rparr>))"

definition update_term :: "'cmd env \<Rightarrow> Storage \<Rightarrow> TermIndex \<Rightarrow> (Storage \<times> bool) result" where
  "update_term env s term =
     (if current_term s < term
      then rbind (set_voted_for env s None) (\<lambda>s.
           rbind (set_current_term env s term) (\<lambda>s. Inr (s, True)))
      else Inr (s, False))"

definition increment_term :: "'cmd env \<Rightarrow> Storage \<Rightarrow> Storage result" where
  "increment_term env s =
     rbind (set_voted_for env s None) (\<lambda>s. set_current_term env s (current_term s + 1))"

definition append_log :: "'cmd env \<Rightarrow> Storage \<Rightarrow> 'cmd LogEntry \<Rightarrow> Storage result" where
  "append_log env s entry =
     rbind (increment_last_log_index env s) (\<lambda>(s, idx).
       rbind (rassert (idx = le_idx entry) AssertFailed) (\<lambda>_.
         set_persistent env s (log_key s idx) (encode env entry)))"

definition overwrite_log :: "'cmd env \<Rightarrow> Storage \<Rightarrow> 'cmd LogEntry \<Rightarrow> Storage result" where
  "overwrite_log env s entry =
     rbind (rassert (last_log_index s \<le> le_idx entry) AssertFailed) (\<lambda>_.
       rbind (rassert (le_idx entry \<noteq> 0) AssertFailed) (\<lambda>_.
         rbind (set_last_log_index env s (le_idx entry - 1)) (\<lambda>s.
           append_log env s entry)))"

definition sublog :: "'cmd env \<Rightarrow> Storage \<Rightarrow> LogIndex list \<Rightarrow> 'cmd LogEntry list result" where
  "sublog env s indices = collect_some (get_log env s) indices"

section \<open>Keys\<close>

text \<open>
  The keys a session uses in the local storage. Every number in a key is printed without a
  hyphen, so no two keys of one session coincide, and two sessions never share a key.
\<close>

definition session_keys :: "u128 \<Rightarrow> string set" where
  "session_keys sk =
     {''last-log-index-'' @ to_string sk, ''current-term-'' @ to_string sk,
      ''voted-for-'' @ to_string sk} \<union>
     range (\<lambda>idx :: LogIndex. ''log-'' @ to_string sk @ ''-'' @ to_string idx)"

lemma hyphen_split:
  "CHR ''-'' \<notin> set a \<Longrightarrow> CHR ''-'' \<notin> set b \<Longrightarrow> a @ CHR ''-'' # x = b @ CHR ''-'' # y \<Longrightarrow> a = b \<and> x = y"
  by (induction a arbitrary: b) (case_tac b; auto)+

lemma no_hyphen: "CHR ''-'' \<notin> set (to_string w)"
  using to_string_chars by blast

lemma log_key_eq_iff:
  "''log-'' @ to_string sk @ ''-'' @ to_string i = ''log-'' @ to_string sk' @ ''-'' @ to_string j
     \<longleftrightarrow> sk = sk' \<and> i = j"
  using hyphen_split [OF no_hyphen no_hyphen, of sk "to_string i" sk' "to_string j"] by auto

lemma session_keys_disjoint: "sk \<noteq> sk' \<Longrightarrow> session_keys sk \<inter> session_keys sk' = {}"
  using log_key_eq_iff by (auto simp: session_keys_def)

section \<open>The invariant and the abstraction\<close>

text \<open>
  \<open>storage_ok\<close>: the key fields are those of the session, the cached fields agree with what the
  browser holds, and the browser holds the entry of every index from 1 to the last one.
\<close>

definition keys_ok :: "Storage \<Rightarrow> bool" where
  "keys_ok s \<longleftrightarrow>
     last_log_index_key s = ''last-log-index-'' @ to_string (session_key s) \<and>
     current_term_key s = ''current-term-'' @ to_string (session_key s) \<and>
     voted_for_key s = ''voted-for-'' @ to_string (session_key s)"

definition number_cell :: "(string \<rightharpoonup> string) \<Rightarrow> string \<Rightarrow> u64 \<Rightarrow> bool" where
  "number_cell m key n \<longleftrightarrow> m key = Some (to_string n) \<or> m key = None \<and> n = 0"

definition cache_ok :: "Storage \<Rightarrow> bool" where
  "cache_ok s \<longleftrightarrow>
     number_cell (storage s) (last_log_index_key s) (last_log_index s) \<and>
     number_cell (storage s) (current_term_key s) (current_term s) \<and>
     storage s (voted_for_key s) = map_option to_string (voted_for s)"

lemma number_cell_upd [simp]:
  "number_cell (m(key \<mapsto> v)) key' n \<longleftrightarrow>
     (if key = key' then v = to_string n else number_cell m key' n)"
  "number_cell (m(key := None)) key' n \<longleftrightarrow>
     (if key = key' then n = 0 else number_cell m key' n)"
  by (auto simp: number_cell_def)

definition entries_ok :: "'cmd env \<Rightarrow> Storage \<Rightarrow> bool" where
  "entries_ok env s \<longleftrightarrow>
     (\<forall>i. 1 \<le> i \<and> i \<le> last_log_index s \<longrightarrow>
        (\<exists>e. storage s (log_key s i) = Some (encode env e) \<and> le_idx e = i))"

definition storage_ok :: "'cmd env \<Rightarrow> Storage \<Rightarrow> bool" where
  "storage_ok env s \<longleftrightarrow> codec_ok env \<and> keys_ok s \<and> cache_ok s \<and> entries_ok env s"

definition entry_at :: "'cmd env \<Rightarrow> Storage \<Rightarrow> LogIndex \<Rightarrow> 'cmd LogEntry" where
  "entry_at env s i = the (decode env (the (storage s (log_key s i))))"

definition log_of :: "'cmd env \<Rightarrow> Storage \<Rightarrow> 'cmd LogEntry list" where
  "log_of env s = map (entry_at env s) (range_incl 1 (last_log_index s))"

lemma length_log_of [simp]: "length (log_of env s) = unat (last_log_index s)"
  by (simp add: log_of_def range_incl_def)

lemma nth_log_of: "n < unat (last_log_index s) \<Longrightarrow> log_of env s ! n = entry_at env s (word_of_nat (Suc n))"
  by (simp add: log_of_def range_incl_def del: upt_Suc)

lemma log_of_eqI:
  assumes "last_log_index s' = last_log_index s"
    and "\<And>i. 1 \<le> i \<Longrightarrow> i \<le> last_log_index s \<Longrightarrow> entry_at env s' i = entry_at env s i"
  shows "log_of env s' = log_of env s"
  using assms by (simp add: log_of_def set_range_incl)

text \<open>The distinctness of the keys, in the form in which the simplifier uses it.\<close>

lemma keys_distinct:
  assumes "keys_ok s"
  shows "log_key s i \<noteq> last_log_index_key s" "log_key s i \<noteq> current_term_key s"
    "log_key s i \<noteq> voted_for_key s" "last_log_index_key s \<noteq> current_term_key s"
    "last_log_index_key s \<noteq> voted_for_key s" "current_term_key s \<noteq> voted_for_key s"
  using assms by (simp_all add: keys_ok_def log_key_def)

lemma log_key_inj [simp]: "log_key s i = log_key s j \<longleftrightarrow> i = j"
  by (simp add: log_key_def)

lemma set_persistent_eq_Inr:
  "set_persistent env s k v = Inr s' \<longleftrightarrow>
     fits env (storage s) k v \<and> s' = s\<lparr>storage := (storage s)(k \<mapsto> v)\<rparr>"
  by (auto simp: set_persistent_def)

lemma log_key_updates [simp]:
  "log_key (s\<lparr>last_log_index := n\<rparr>) i = log_key s i"
  "log_key (s\<lparr>current_term := t\<rparr>) i = log_key s i"
  "log_key (s\<lparr>voted_for := v\<rparr>) i = log_key s i"
  "log_key (s\<lparr>storage := m\<rparr>) i = log_key s i"
  by (simp_all add: log_key_def)

lemma log_key_frame: "session_key s' = session_key s \<Longrightarrow> log_key s' = log_key s"
  by (simp add: log_key_def fun_eq_iff)

text \<open>Writing one of the three cells keeps the key fields and the other two cells.\<close>

lemma keys_ok_frame:
  "session_key s' = session_key s \<Longrightarrow> last_log_index_key s' = last_log_index_key s \<Longrightarrow>
   current_term_key s' = current_term_key s \<Longrightarrow> voted_for_key s' = voted_for_key s \<Longrightarrow>
   keys_ok s \<Longrightarrow> keys_ok s'"
  by (simp add: keys_ok_def)

section \<open>The operations on the abstraction\<close>

text \<open>
  What a storage means to the rest of the node: its term, its vote and its log. Each operation
  of the source is an operation on this record, and keeps the invariant; the lemmas are about
  the outcomes that return, and \<open>roomy\<close> (the browser's quota is not reached) makes them return.
\<close>

record 'cmd Persistent =
  p_term :: TermIndex
  p_vote :: "NodeId option"
  p_log :: "'cmd LogEntry list"

definition abs_storage :: "'cmd env \<Rightarrow> Storage \<Rightarrow> 'cmd Persistent" where
  "abs_storage env s = \<lparr>p_term = current_term s, p_vote = voted_for s, p_log = log_of env s\<rparr>"

definition roomy :: "'cmd env \<Rightarrow> bool" where
  "roomy env \<longleftrightarrow> (\<forall>m k v. fits env m k v)"

lemma abs_storage_simps [simp]:
  "p_term (abs_storage env s) = current_term s"
  "p_vote (abs_storage env s) = voted_for s"
  "p_log (abs_storage env s) = log_of env s"
  by (simp_all add: abs_storage_def)

lemma roomy_set_persistent [simp]:
  "roomy env \<Longrightarrow> set_persistent env s k v = Inr (s\<lparr>storage := (storage s)(k \<mapsto> v)\<rparr>)"
  by (simp add: roomy_def set_persistent_def)

lemma entry_at_frame:
  "session_key s' = session_key s \<Longrightarrow> storage s' (log_key s i) = storage s (log_key s i)
   \<Longrightarrow> entry_at env s' i = entry_at env s i"
  using log_key_frame [of s' s] by (simp add: entry_at_def)

lemma storage_ok_log_frame:
  assumes "storage_ok env s" and "keys_ok s'" and "cache_ok s'"
    and "session_key s' = session_key s" and "last_log_index s' = last_log_index s"
    and "\<And>i. storage s' (log_key s i) = storage s (log_key s i)"
  shows "storage_ok env s' \<and> log_of env s' = log_of env s"
proof
  have k: "log_key s' = log_key s" using assms(4) by (rule log_key_frame)
  from assms show "storage_ok env s'" by (simp add: storage_ok_def entries_ok_def k)
  show "log_of env s' = log_of env s"
    by (rule log_of_eqI [OF assms(5)]) (rule entry_at_frame [OF assms(4,6)])
qed

lemma set_voted_for_spec:
  assumes "storage_ok env s" and "set_voted_for env s v = Inr s'"
  shows "storage_ok env s'" and "abs_storage env s' = (abs_storage env s)\<lparr>p_vote := v\<rparr>"
    and "session_key s' = session_key s"
proof -
  from assms(1) have k: "keys_ok s" and c: "cache_ok s" by (simp_all add: storage_ok_def)
  have "keys_ok s' \<and> cache_ok s' \<and> session_key s' = session_key s
    \<and> last_log_index s' = last_log_index s \<and> current_term s' = current_term s \<and> voted_for s' = v
    \<and> (\<forall>i. storage s' (log_key s i) = storage s (log_key s i))"
    using assms(2) c keys_distinct [OF k] keys_ok_frame [OF _ _ _ _ k, of s']
    by (cases v) (auto simp: set_voted_for_def set_persistent_eq_Inr remove_persistent_def
        cache_ok_def)
  with storage_ok_log_frame [OF assms(1), of s']
  show "storage_ok env s'" "abs_storage env s' = (abs_storage env s)\<lparr>p_vote := v\<rparr>"
    "session_key s' = session_key s"
    by (auto simp: abs_storage_def)
qed

lemma set_current_term_spec:
  assumes "storage_ok env s" and "set_current_term env s t = Inr s'"
  shows "storage_ok env s'" and "abs_storage env s' = (abs_storage env s)\<lparr>p_term := t\<rparr>"
    and "session_key s' = session_key s"
proof -
  from assms(1) have k: "keys_ok s" and c: "cache_ok s" by (simp_all add: storage_ok_def)
  have "keys_ok s' \<and> cache_ok s' \<and> session_key s' = session_key s
    \<and> last_log_index s' = last_log_index s \<and> current_term s' = t \<and> voted_for s' = voted_for s
    \<and> (\<forall>i. storage s' (log_key s i) = storage s (log_key s i))"
    using assms(2) c keys_distinct [OF k] keys_ok_frame [OF _ _ _ _ k, of s']
    by (auto simp: set_current_term_def set_persistent_eq_Inr cache_ok_def)
  with storage_ok_log_frame [OF assms(1), of s']
  show "storage_ok env s'" "abs_storage env s' = (abs_storage env s)\<lparr>p_term := t\<rparr>"
    "session_key s' = session_key s"
    by (auto simp: abs_storage_def)
qed

lemma update_term_spec:
  assumes ok: "storage_ok env s" and up: "update_term env s t = Inr (s', b)"
  shows "storage_ok env s'" and "session_key s' = session_key s"
    and "b \<longleftrightarrow> current_term s < t"
    and "abs_storage env s' =
      (if current_term s < t then (abs_storage env s)\<lparr>p_term := t, p_vote := None\<rparr>
       else abs_storage env s)"
proof -
  have "storage_ok env s' \<and> session_key s' = session_key s \<and> (b \<longleftrightarrow> current_term s < t)
    \<and> abs_storage env s' =
      (if current_term s < t then (abs_storage env s)\<lparr>p_term := t, p_vote := None\<rparr>
       else abs_storage env s)"
  proof (cases "current_term s < t")
    case False
    with up ok show ?thesis by (simp add: update_term_def)
  next
    case True
    with up obtain s1 where s1: "set_voted_for env s None = Inr s1"
      and s2: "set_current_term env s1 t = Inr s'" and b
      by (auto simp: update_term_def rbind_eq_Inr)
    note v = set_voted_for_spec [OF ok s1]
    note w = set_current_term_spec [OF v(1) s2]
    show ?thesis using True \<open>b\<close> v(2,3) w by simp
  qed
  then show "storage_ok env s'" "session_key s' = session_key s" "b \<longleftrightarrow> current_term s < t"
    "abs_storage env s' =
      (if current_term s < t then (abs_storage env s)\<lparr>p_term := t, p_vote := None\<rparr>
       else abs_storage env s)" by simp_all
qed

lemma increment_term_spec:
  assumes "storage_ok env s" and "increment_term env s = Inr s'"
  shows "storage_ok env s'" and "session_key s' = session_key s"
    and "abs_storage env s' = (abs_storage env s)\<lparr>p_term := current_term s + 1, p_vote := None\<rparr>"
proof -
  from assms(2) obtain s1 where s1: "set_voted_for env s None = Inr s1"
    and s': "set_current_term env s1 (current_term s1 + 1) = Inr s'"
    by (auto simp: increment_term_def rbind_eq_Inr)
  note v = set_voted_for_spec [OF assms(1) s1]
  note t = set_current_term_spec [OF v(1) s']
  from v(2) have "current_term s1 = current_term s"
    by (simp add: abs_storage_def)
  with v t show "storage_ok env s'" "session_key s' = session_key s"
    "abs_storage env s' = (abs_storage env s)\<lparr>p_term := current_term s + 1, p_vote := None\<rparr>"
    by simp_all
qed

subsection \<open>The log\<close>

lemma storage_okD:
  assumes "storage_ok env s"
  shows "codec_ok env" "keys_ok s" "cache_ok s" "entries_ok env s"
  using assms by (simp_all add: storage_ok_def)

lemma stored_entry:
  assumes "storage_ok env s" and "1 \<le> i" and "i \<le> last_log_index s"
  shows "storage s (log_key s i) = Some (encode env (entry_at env s i))"
    and "le_idx (entry_at env s i) = i"
    and "decode env (encode env (entry_at env s i)) = Some (entry_at env s i)"
proof -
  from storage_okD [OF assms(1)] assms(2,3) obtain e where
    "storage s (log_key s i) = Some (encode env e)" "le_idx e = i" "decode env (encode env e) = Some e"
    by (auto simp: entries_ok_def codec_ok_def)
  then show "storage s (log_key s i) = Some (encode env (entry_at env s i))"
    "le_idx (entry_at env s i) = i"
    "decode env (encode env (entry_at env s i)) = Some (entry_at env s i)"
    by (simp_all add: entry_at_def)
qed

lemma log_of_nth_entry:
  "i \<noteq> 0 \<Longrightarrow> i \<le> last_log_index s \<Longrightarrow> log_of env s ! (unat i - 1) = entry_at env s i"
proof -
  assume i: "i \<noteq> 0" "i \<le> last_log_index s"
  then have "0 < unat i" "unat i \<le> unat (last_log_index s)"
    by (simp_all add: unat_gt_0 word_le_nat_alt)
  then show ?thesis by (simp add: nth_log_of)
qed

lemma log_of_le_idx:
  assumes "storage_ok env s" and "n < length (log_of env s)"
  shows "le_idx (log_of env s ! n) = word_of_nat (Suc n)"
    and "unat (le_idx (log_of env s ! n)) = Suc n"
proof -
  let ?i = "word_of_nat (Suc n) :: u64"
  from assms(2) have u: "unat ?i = Suc n" by (metis Suc_leI length_log_of unat_of_nat_le)
  then have "1 \<le> ?i" "?i \<le> last_log_index s"
    using assms(2) by (simp_all add: word_le_nat_alt)
  with stored_entry(2) [OF assms(1)] assms(2)
  show "le_idx (log_of env s ! n) = word_of_nat (Suc n)" by (simp add: nth_log_of)
  with u show "unat (le_idx (log_of env s ! n)) = Suc n" by simp
qed

lemma get_log_spec:
  assumes "storage_ok env s"
  shows "get_log env s i = Inr (log_nth (log_of env s) i)"
proof (cases "i = 0 \<or> last_log_index s < i")
  case True
  then show ?thesis by (auto simp: get_log_def log_nth_def word_less_nat_alt)
next
  case False
  then have i: "1 \<le> i" "i \<le> last_log_index s" by (auto simp: word_le_nonzero_iff)
  with False stored_entry [OF assms i] log_of_nth_entry [OF _ i(2), of env] show ?thesis
    by (auto simp: get_log_def log_nth_def word_le_nat_alt)
qed

lemma set_last_log_index_spec:
  assumes "storage_ok env s" and "set_last_log_index env s n = Inr s'" and "n \<le> last_log_index s"
  shows "storage_ok env s'" and "session_key s' = session_key s" and "last_log_index s' = n"
    and "abs_storage env s' = (abs_storage env s)\<lparr>p_log := take (unat n) (log_of env s)\<rparr>"
proof -
  note d = storage_okD [OF assms(1)]
  from assms(2) have s': "s' = s\<lparr>last_log_index := n,
      storage := (storage s)(last_log_index_key s \<mapsto> to_string n)\<rparr>"
    by (simp add: set_last_log_index_def set_persistent_eq_Inr)
  have lk: "storage s' (log_key s' i) = storage s (log_key s i)" for i
    using keys_distinct [OF d(2)] by (simp add: s')
  have "entries_ok env s'"
    unfolding entries_ok_def lk using d(4) assms(3) by (auto simp: entries_ok_def s')
  moreover have "keys_ok s'" by (rule keys_ok_frame [OF _ _ _ _ d(2)]) (simp_all add: s')
  moreover have "cache_ok s'" using d(3) keys_distinct [OF d(2)] by (auto simp: s' cache_ok_def)
  ultimately show "storage_ok env s'" using d(1) by (simp add: storage_ok_def)
  show last: "last_log_index s' = n" and "session_key s' = session_key s" by (simp_all add: s')
  have "log_of env s' = take (unat n) (log_of env s)"
  proof (rule nth_equalityI)
    show "length (log_of env s') = length (take (unat n) (log_of env s))"
      using assms(3) by (simp add: last word_le_nat_alt)
    fix k assume "k < length (log_of env s')"
    then show "log_of env s' ! k = take (unat n) (log_of env s) ! k"
      using assms(3) lk by (simp add: last nth_log_of word_le_nat_alt entry_at_def)
  qed
  then show "abs_storage env s' = (abs_storage env s)\<lparr>p_log := take (unat n) (log_of env s)\<rparr>"
    by (simp add: abs_storage_def s')
qed

lemma append_log_spec:
  assumes "storage_ok env s" and "append_log env s e = Inr s'"
    and "unat (le_idx e) = Suc (length (log_of env s))"
  shows "storage_ok env s'" and "session_key s' = session_key s"
    and "last_log_index s' = le_idx e"
    and "abs_storage env s' = (abs_storage env s)\<lparr>p_log := log_of env s @ [e]\<rparr>"
proof -
  note d = storage_okD [OF assms(1)]
  let ?idx = "last_log_index s + 1"
  have "?idx = le_idx e" and s': "s' = s\<lparr>last_log_index := ?idx, storage :=
      (storage s)(last_log_index_key s \<mapsto> to_string ?idx, log_key s ?idx \<mapsto> encode env e)\<rparr>"
    using assms(2) by (auto simp: append_log_def increment_last_log_index_def set_last_log_index_def
        rbind_eq_Inr rassert_eq_Inr set_persistent_eq_Inr Let_def)
  note idx = this(1)
  have lt: "i \<le> le_idx e \<longleftrightarrow> i \<le> last_log_index s \<or> i = le_idx e" for i
    using assms(3) by (auto simp: word_le_nat_alt le_Suc_eq word_unat_eq_iff)
  have new: "i = ?idx \<Longrightarrow> \<not> i \<le> last_log_index s" for i
    using assms(3) by (simp add: idx word_le_nat_alt)
  have lk: "log_key s' = log_key s" by (rule log_key_frame) (simp add: s')
  have st: "storage s' (log_key s i) =
      (if i = ?idx then Some (encode env e) else storage s (log_key s i))" for i
    using keys_distinct [OF d(2)] by (simp add: s')
  have "entries_ok env s'"
    unfolding entries_ok_def lk st using d(4) by (auto simp: s' lt entries_ok_def idx)
  moreover have "keys_ok s'" by (rule keys_ok_frame [OF _ _ _ _ d(2)]) (simp_all add: s')
  moreover have "cache_ok s'"
    using d(3) keys_distinct [OF d(2)] keys_distinct(1-3) [OF d(2), THEN not_sym]
    by (simp add: s' cache_ok_def)
  ultimately show "storage_ok env s'" using d(1) by (simp add: storage_ok_def)
  show "session_key s' = session_key s" and last: "last_log_index s' = le_idx e"
    by (simp_all add: s' idx)
  have "log_of env s' = log_of env s @ [e]"
  proof (rule nth_equalityI)
    show "length (log_of env s') = length (log_of env s @ [e])"
      using assms(3) by (simp add: last)
    fix k assume "k < length (log_of env s')"
    then have k: "k < Suc (unat (last_log_index s))" using assms(3) by (simp add: last)
    then have u: "unat (word_of_nat (Suc k) :: u64) = Suc k"
      using assms(3) by (intro unat_of_nat_le [of _ "le_idx e"]) simp
    show "log_of env s' ! k = (log_of env s @ [e]) ! k"
    proof (cases "k = unat (last_log_index s)")
      case True
      then have "word_of_nat (Suc k) = ?idx" using u assms(3) idx
        by (metis length_log_of unsigned_word_eqI)
      with True show ?thesis using d(1) assms(3)
        by (simp add: last nth_log_of nth_append entry_at_def lk st codec_ok_def)
    next
      case False
      with k have k': "k < unat (last_log_index s)" by simp
      then have "word_of_nat (Suc k) \<noteq> ?idx" using u assms(3) idx by (metis length_log_of nat_neq_iff Suc_inject)
      with k k' show ?thesis using assms(3)
        by (simp add: last nth_log_of nth_append entry_at_def lk st)
    qed
  qed
  then show "abs_storage env s' = (abs_storage env s)\<lparr>p_log := log_of env s @ [e]\<rparr>"
    by (simp add: abs_storage_def s')
qed

lemma overwrite_log_spec:
  assumes "storage_ok env s" and "overwrite_log env s e = Inr s'"
    and "unat (le_idx e) = length (log_of env s)" and "le_idx e \<noteq> 0"
  shows "storage_ok env s'" and "session_key s' = session_key s"
    and "abs_storage env s' = (abs_storage env s)\<lparr>p_log := butlast (log_of env s) @ [e]\<rparr>"
proof -
  from assms(2) obtain s1 where s1: "set_last_log_index env s (le_idx e - 1) = Inr s1"
    and s2: "append_log env s1 e = Inr s'"
    by (auto simp: overwrite_log_def rbind_eq_Inr rassert_eq_Inr)
  have u: "unat (le_idx e - 1) = unat (le_idx e) - 1" using assms(4) by (rule unat_minus_one_nz)
  have le: "le_idx e - 1 \<le> last_log_index s" using assms(3) u by (simp add: word_le_nat_alt)
  note a = set_last_log_index_spec [OF assms(1) s1 le]
  have len: "unat (le_idx e) = Suc (length (log_of env s1))"
    using assms(4) by (simp add: a(3) u unat_gt_0)
  note b = append_log_spec [OF a(1) s2 len]
  from a(4) have "log_of env s1 = butlast (log_of env s)"
    using assms(3) u by (simp add: abs_storage_def butlast_conv_take)
  with a b show "storage_ok env s'" "session_key s' = session_key s"
    "abs_storage env s' = (abs_storage env s)\<lparr>p_log := butlast (log_of env s) @ [e]\<rparr>"
    by simp_all
qed

text \<open>
  \<^verbatim>\<open>overwrite_log\<close> is documented to truncate the log at the entry, but its first assertion
  lets it replace the last entry only: anywhere else it panics.
\<close>

lemma overwrite_log_panics:
  "le_idx e < last_log_index s \<Longrightarrow> overwrite_log env s e = Inl AssertFailed"
  by (auto simp: overwrite_log_def rassert_def dest: leD)

definition same_vote :: "Storage \<Rightarrow> Storage \<Rightarrow> bool" where
  "same_vote s s' \<longleftrightarrow> session_key s' = session_key s \<and>
     current_term s' = current_term s \<and> voted_for s' = voted_for s"

interpretation stored: writable_log "storage_ok env" "log_of env" "get_log env"
  "append_log env" "overwrite_log env" le_idx same_vote for env :: "'cmd env"
proof unfold_locales
  fix s i
  assume ok: "storage_ok env s"
  show "get_log env s i = Inr (log_nth (log_of env s) i)" by (rule get_log_spec [OF ok])
  show "length (log_of env s) < 2 ^ LENGTH(64)"
    using unsigned_less [of "last_log_index s"] by simp
next
  fix s e s'
  assume ok: "storage_ok env s" and a: "append_log env s e = Inr s'"
    and len: "unat (le_idx e) = Suc (length (log_of env s))"
  from append_log_spec [OF ok a len]
  show "storage_ok env s' \<and> log_of env s' = log_of env s @ [e] \<and> same_vote s s'"
    by (simp add: same_vote_def abs_storage_def)
next
  fix s e s'
  assume ok: "storage_ok env s" and a: "overwrite_log env s e = Inr s'"
    and len: "unat (le_idx e) = length (log_of env s)" and "le_idx e \<noteq> 0"
  from overwrite_log_spec [OF this]
  show "storage_ok env s' \<and> log_of env s' = butlast (log_of env s) @ [e] \<and> same_vote s s'"
    by (simp add: same_vote_def abs_storage_def)
next
  fix s and e :: "'cmd LogEntry"
  assume "unat (le_idx e) < length (log_of env s)"
  then show "overwrite_log env s e = Inl AssertFailed"
    by (simp add: overwrite_log_panics word_less_nat_alt)
qed (auto simp: same_vote_def)

lemma sublog_incl:
  "storage_ok env s \<Longrightarrow> a \<noteq> 0 \<Longrightarrow>
   sublog env s (range_incl a b) = Inr (drop (unat a - 1) (take (unat b) (log_of env s)))"
  unfolding sublog_def by (rule stored.collect_range_incl)

lemma sublog_excl:
  "storage_ok env s \<Longrightarrow> a \<noteq> 0 \<Longrightarrow>
   sublog env s (range_excl a b) = Inr (drop (unat a - 1) (take (unat b - 1) (log_of env s)))"
  unfolding sublog_def by (rule stored.collect_range_excl)

lemma last_log_term_spec:
  "storage_ok env s \<Longrightarrow>
   last_log_term env s = Inr (if log_of env s = [] then 0 else le_term (last (log_of env s)))"
  using length_log_of [of env s]
  by (auto simp: last_log_term_def get_log_spec log_nth_def last_conv_nth unat_eq_0 [symmetric]
      simp del: length_log_of)

subsection \<open>Term and vote, whatever the log holds\<close>

text \<open>
  The cached fields agree with the browser's after every operation, also where the log itself is
  out of order. This is all that a restart needs to find the term and the vote again.
\<close>

definition meta_ok :: "Storage \<Rightarrow> bool" where
  "meta_ok s \<longleftrightarrow> keys_ok s \<and> cache_ok s"

lemma storage_ok_meta: "storage_ok env s \<Longrightarrow> meta_ok s"
  by (simp add: storage_ok_def meta_ok_def)

lemma same_vote_refl [simp]: "same_vote s s"
  by (simp add: same_vote_def)

lemma same_vote_trans: "same_vote s s' \<Longrightarrow> same_vote s' s'' \<Longrightarrow> same_vote s s''"
  by (simp add: same_vote_def)

lemma set_last_log_index_meta:
  assumes "meta_ok s" and "set_last_log_index env s n = Inr s'"
  shows "meta_ok s' \<and> same_vote s s'"
proof -
  from assms(1) have k: "keys_ok s" and c: "cache_ok s" by (simp_all add: meta_ok_def)
  from assms(2) c keys_distinct [OF k] keys_ok_frame [OF _ _ _ _ k, of s'] show ?thesis
    by (auto simp: set_last_log_index_def set_persistent_eq_Inr meta_ok_def cache_ok_def same_vote_def)
qed

lemma append_log_meta:
  assumes "meta_ok s" and "append_log env s e = Inr s'"
  shows "meta_ok s' \<and> same_vote s s'"
proof -
  from assms(2) obtain s1 i where s1: "set_last_log_index env s i = Inr s1"
    and s': "s' = s1\<lparr>storage := (storage s1)(log_key s1 i \<mapsto> encode env e)\<rparr>"
    by (auto simp: append_log_def increment_last_log_index_def rbind_eq_Inr set_persistent_eq_Inr
        Let_def)
  from set_last_log_index_meta [OF assms(1) s1] have m: "meta_ok s1" "same_vote s s1" by simp_all
  then have k: "keys_ok s1" and c: "cache_ok s1" by (simp_all add: meta_ok_def)
  have "meta_ok s' \<and> same_vote s1 s'"
    using c keys_distinct(1-3) [OF k, THEN not_sym] keys_ok_frame [OF _ _ _ _ k, of s']
    by (simp add: s' meta_ok_def cache_ok_def same_vote_def keys_distinct(1-3) [OF k])
  with m(2) show ?thesis by (auto intro: same_vote_trans)
qed

lemma overwrite_log_meta:
  assumes "meta_ok s" and "overwrite_log env s e = Inr s'"
  shows "meta_ok s' \<and> same_vote s s'"
proof -
  from assms(2) obtain s1 i where s1: "set_last_log_index env s i = Inr s1"
    and s2: "append_log env s1 e = Inr s'"
    by (auto simp: overwrite_log_def rbind_eq_Inr)
  from set_last_log_index_meta [OF assms(1) s1] have m: "meta_ok s1" "same_vote s s1" by simp_all
  with append_log_meta [OF m(1) s2] show ?thesis by (auto intro: same_vote_trans)
qed

lemma set_voted_for_meta:
  assumes "meta_ok s" and "set_voted_for env s v = Inr s'"
  shows "meta_ok s' \<and> session_key s' = session_key s \<and> current_term s' = current_term s
    \<and> voted_for s' = v \<and> last_log_index s' = last_log_index s"
proof -
  from assms(1) have k: "keys_ok s" and c: "cache_ok s" by (simp_all add: meta_ok_def)
  from assms(2) c keys_distinct [OF k] keys_ok_frame [OF _ _ _ _ k, of s'] show ?thesis
    by (cases v) (auto simp: set_voted_for_def set_persistent_eq_Inr remove_persistent_def
        meta_ok_def cache_ok_def)
qed

lemma set_current_term_meta:
  assumes "meta_ok s" and "set_current_term env s t = Inr s'"
  shows "meta_ok s' \<and> session_key s' = session_key s \<and> current_term s' = t
    \<and> voted_for s' = voted_for s \<and> last_log_index s' = last_log_index s"
proof -
  from assms(1) have k: "keys_ok s" and c: "cache_ok s" by (simp_all add: meta_ok_def)
  from assms(2) c keys_distinct [OF k] keys_ok_frame [OF _ _ _ _ k, of s'] show ?thesis
    by (auto simp: set_current_term_def set_persistent_eq_Inr meta_ok_def cache_ok_def)
qed

lemma update_term_meta:
  assumes "meta_ok s" and "update_term env s t = Inr (s', b)"
  shows "meta_ok s' \<and> session_key s' = session_key s \<and> last_log_index s' = last_log_index s
    \<and> (b \<longleftrightarrow> current_term s < t)
    \<and> (if b then current_term s' = t \<and> voted_for s' = None else s' = s)"
proof (cases "current_term s < t")
  case False
  with assms show ?thesis by (simp add: update_term_def)
next
  case True
  with assms(2) obtain s1 where s1: "set_voted_for env s None = Inr s1"
    and s2: "set_current_term env s1 t = Inr s'" and b
    by (auto simp: update_term_def rbind_eq_Inr)
  note v = set_voted_for_meta [OF assms(1) s1]
  with set_current_term_meta [OF _ s2] True \<open>b\<close> show ?thesis by auto
qed

lemma increment_term_meta:
  assumes "meta_ok s" and "increment_term env s = Inr s'"
  shows "meta_ok s' \<and> session_key s' = session_key s \<and> last_log_index s' = last_log_index s
    \<and> current_term s' = current_term s + 1 \<and> voted_for s' = None"
proof -
  from assms(2) obtain s1 where s1: "set_voted_for env s None = Inr s1"
    and s2: "set_current_term env s1 (current_term s1 + 1) = Inr s'"
    by (auto simp: increment_term_def rbind_eq_Inr)
  note v = set_voted_for_meta [OF assms(1) s1]
  with set_current_term_meta [OF _ s2] show ?thesis by auto
qed

text \<open>What \<open>Storage_new\<close> makes of any local storage is consistent with it.\<close>

lemma Storage_new_meta:
  assumes new: "Storage_new sk m = Inr s"
    and "m (''voted-for-'' @ to_string sk) = None" "m (''current-term-'' @ to_string sk) = None"
      "m (''last-log-index-'' @ to_string sk) = None"
  shows "meta_ok s \<and> session_key s = sk \<and> current_term s = 0 \<and> voted_for s = None
    \<and> last_log_index s = 0 \<and> storage s = m"
proof -
  have "s = \<lparr>session_key = sk, last_log_index = 0,
     last_log_index_key = ''last-log-index-'' @ to_string sk, current_term = 0,
     current_term_key = ''current-term-'' @ to_string sk, voted_for = None,
     voted_for_key = ''voted-for-'' @ to_string sk, storage = m\<rparr>"
    using assms by (simp add: Storage_new_def Let_def load_number_def get_persistent_def)
  then show ?thesis using assms(2-4)
    by (simp add: meta_ok_def keys_ok_def cache_ok_def number_cell_def)
qed

subsection \<open>Recovery\<close>

text \<open>
  \<^verbatim>\<open>Storage::new\<close> on a local storage without keys of the session starts from term 0, no vote
  and an empty log; on the local storage of an earlier run it rebuilds that run's storage.
\<close>

lemma Storage_new_fresh:
  assumes "codec_ok env" and "\<And>k. k \<in> session_keys sk \<Longrightarrow> m k = None"
  shows "\<exists>s. Storage_new sk m = Inr s \<and> storage_ok env s \<and> session_key s = sk \<and> storage s = m
    \<and> abs_storage env s = \<lparr>p_term = 0, p_vote = None, p_log = []\<rparr>"
proof -
  have "m (''last-log-index-'' @ to_string sk) = None" "m (''current-term-'' @ to_string sk) = None"
    "m (''voted-for-'' @ to_string sk) = None"
    using assms(2) by (simp_all add: session_keys_def)
  then show ?thesis using assms(1)
    by (simp add: Storage_new_def Let_def load_number_def get_persistent_def storage_ok_def
        keys_ok_def cache_ok_def entries_ok_def number_cell_def abs_storage_def log_of_def
        range_incl_def)
qed

lemma load_number_cell:
  assumes "number_cell (storage s) k n"
  shows "load_number s k upd = Inr (if storage s k = None then s else upd n s)"
  using assms by (auto simp: load_number_def get_persistent_def number_cell_def)

lemma Storage_new_recovers:
  assumes "meta_ok s"
  shows "Storage_new (session_key s) (storage s) = Inr s"
proof -
  have k: "keys_ok s" and c: "cache_ok s" using assms by (simp_all add: meta_ok_def)
  let ?s0 = "\<lparr>session_key = session_key s, last_log_index = 0,
     last_log_index_key = last_log_index_key s, current_term = 0,
     current_term_key = current_term_key s, voted_for = None, voted_for_key = voted_for_key s,
     storage = storage s\<rparr>"
  have t: "load_number ?s0 (current_term_key s) (\<lambda>n. current_term_update (\<lambda>_. n))
      = Inr (?s0\<lparr>current_term := current_term s\<rparr>)"
    using c by (subst load_number_cell) (auto simp: cache_ok_def number_cell_def)
  have v: "load_number (?s0\<lparr>current_term := current_term s\<rparr>) (voted_for_key s)
       (\<lambda>n. voted_for_update (\<lambda>_. Some n))
      = Inr (?s0\<lparr>current_term := current_term s, voted_for := voted_for s\<rparr>)"
    using c by (cases "voted_for s") (simp_all add: load_number_def get_persistent_def cache_ok_def)
  have l: "load_number (?s0\<lparr>current_term := current_term s, voted_for := voted_for s\<rparr>)
       (last_log_index_key s) (\<lambda>n. last_log_index_update (\<lambda>_. n)) = Inr s"
    using c by (subst load_number_cell) (auto simp: cache_ok_def number_cell_def)
  show ?thesis
    using t v l k by (simp add: Storage_new_def Let_def keys_ok_def)
qed

subsection \<open>What the operations write, and when they return\<close>

definition only_session :: "Storage \<Rightarrow> Storage \<Rightarrow> bool" where
  "only_session s s' \<longleftrightarrow> keys_ok s' \<and> session_key s' = session_key s \<and>
     (\<forall>k. k \<notin> session_keys (session_key s) \<longrightarrow> storage s' k = storage s k)"

lemma only_session_trans: "only_session s s' \<Longrightarrow> only_session s' s'' \<Longrightarrow> only_session s s''"
  by (simp add: only_session_def)

lemma session_keys_mem:
  assumes "keys_ok s"
  shows "last_log_index_key s \<in> session_keys (session_key s)"
    "current_term_key s \<in> session_keys (session_key s)"
    "voted_for_key s \<in> session_keys (session_key s)" "log_key s i \<in> session_keys (session_key s)"
  using assms by (simp_all add: session_keys_def keys_ok_def log_key_def)

lemma only_session_write:
  assumes "keys_ok s" and "k \<in> session_keys (session_key s)"
    and "s' = f s" and "\<And>s. session_key (f s) = session_key s"
    and "\<And>s. last_log_index_key (f s) = last_log_index_key s"
    and "\<And>s. current_term_key (f s) = current_term_key s"
    and "\<And>s. voted_for_key (f s) = voted_for_key s"
    and "storage s' = (storage s)(k := v)"
  shows "only_session s s'"
  using assms keys_ok_frame [of s' s] by (auto simp: only_session_def)

lemma set_voted_for_session:
  "keys_ok s \<Longrightarrow> set_voted_for env s v = Inr s' \<Longrightarrow> only_session s s'"
  using session_keys_mem [of s]
  by (auto simp: set_voted_for_def set_persistent_eq_Inr remove_persistent_def only_session_def
      keys_ok_def split: option.splits)

lemma set_current_term_session:
  "keys_ok s \<Longrightarrow> set_current_term env s t = Inr s' \<Longrightarrow> only_session s s'"
  using session_keys_mem [of s]
  by (auto simp: set_current_term_def set_persistent_eq_Inr only_session_def keys_ok_def)

lemma set_last_log_index_session:
  "keys_ok s \<Longrightarrow> set_last_log_index env s n = Inr s' \<Longrightarrow> only_session s s'"
  using session_keys_mem [of s]
  by (auto simp: set_last_log_index_def set_persistent_eq_Inr only_session_def keys_ok_def)

lemma append_log_session:
  assumes "keys_ok s" and "append_log env s e = Inr s'"
  shows "only_session s s'"
proof -
  from assms(2) obtain s1 i where s1: "set_last_log_index env s i = Inr s1"
    and s': "s' = s1\<lparr>storage := (storage s1)(log_key s1 i \<mapsto> encode env e)\<rparr>"
    by (auto simp: append_log_def increment_last_log_index_def rbind_eq_Inr set_persistent_eq_Inr
        Let_def)
  from set_last_log_index_session [OF assms(1) s1] have o1: "only_session s s1" .
  moreover have "only_session s1 s'"
    using session_keys_mem(4) [of s1 i] o1 by (auto simp: s' only_session_def keys_ok_def)
  ultimately show ?thesis by (rule only_session_trans)
qed

lemma overwrite_log_session:
  assumes "keys_ok s" and "overwrite_log env s e = Inr s'"
  shows "only_session s s'"
proof -
  from assms(2) obtain s1 i where s1: "set_last_log_index env s i = Inr s1"
    and s2: "append_log env s1 e = Inr s'"
    by (auto simp: overwrite_log_def rbind_eq_Inr)
  have o1: "only_session s s1" by (rule set_last_log_index_session [OF assms(1) s1])
  then have "only_session s1 s'"
    by (intro append_log_session [OF _ s2]) (simp add: only_session_def)
  with o1 show ?thesis by (rule only_session_trans)
qed

lemma update_term_session:
  assumes "keys_ok s" and "update_term env s t = Inr (s', b)"
  shows "only_session s s'"
  using assms set_voted_for_session [of s env None] set_current_term_session only_session_trans
  by (fastforce simp: update_term_def rbind_eq_Inr only_session_def split: if_splits)

lemma update_term_returns: "roomy env \<Longrightarrow> \<exists>s' b. update_term env s t = Inr (s', b)"
  by (cases "current_term s < t") (auto simp: update_term_def set_voted_for_def set_current_term_def)

lemma set_voted_for_returns: "roomy env \<Longrightarrow> \<exists>s'. set_voted_for env s v = Inr s'"
  by (cases v) (simp_all add: set_voted_for_def)

lemma append_log_returns:
  "roomy env \<Longrightarrow> le_idx e = last_log_index s + 1 \<Longrightarrow> \<exists>s'. append_log env s e = Inr s'"
  by (simp add: append_log_def increment_last_log_index_def set_last_log_index_def Let_def)

lemma overwrite_log_returns:
  assumes "roomy env" and "le_idx e = last_log_index s" and "le_idx e \<noteq> 0"
  shows "\<exists>s'. overwrite_log env s e = Inr s'"
proof -
  obtain s1 where s1: "set_last_log_index env s (le_idx e - 1) = Inr s1"
    "last_log_index s1 = le_idx e - 1"
    using assms(1) by (simp add: set_last_log_index_def)
  then have "le_idx e = last_log_index s1 + 1" by simp
  from append_log_returns [OF assms(1) this] obtain s' where "append_log env s1 e = Inr s'" ..
  moreover have "rassert (last_log_index s \<le> le_idx e) AssertFailed = Inr ()"
    "rassert (le_idx e \<noteq> 0) AssertFailed = Inr ()"
    by (simp_all only: assms(2,3) order_refl rassert_True not_False_eq_True)
      (use assms(2,3) in \<open>auto simp: rassert_def\<close>)
  ultimately have "overwrite_log env s e = Inr s'"
    using s1(1) by (simp only: overwrite_log_def rbind_Inr)
  then show ?thesis ..
qed

subsection \<open>Sequences of operations\<close>

text \<open>
  What a node does to its storage, and what each operation means for the persistent record. An
  \<open>Overwrite\<close> is legal at an index that the log has, an \<open>Append\<close> where the log ends; \<open>Overwrite\<close>
  replaces the last entry (anywhere else it panics).
\<close>

datatype 'cmd storage_op =
    UpdateTerm TermIndex
  | IncrementTerm
  | SetVote "NodeId option"
  | AppendEntry "'cmd LogEntry"
  | OverwriteEntry "'cmd LogEntry"

fun exec_op :: "'cmd env \<Rightarrow> Storage \<Rightarrow> 'cmd storage_op \<Rightarrow> Storage result" where
  "exec_op env s (UpdateTerm t) = rbind (update_term env s t) (\<lambda>(s, _). Inr s)"
| "exec_op env s IncrementTerm = increment_term env s"
| "exec_op env s (SetVote v) = set_voted_for env s v"
| "exec_op env s (AppendEntry e) = append_log env s e"
| "exec_op env s (OverwriteEntry e) = overwrite_log env s e"

fun abs_op :: "'cmd Persistent \<Rightarrow> 'cmd storage_op \<Rightarrow> 'cmd Persistent" where
  "abs_op p (UpdateTerm t) = (if p_term p < t then p\<lparr>p_term := t, p_vote := None\<rparr> else p)"
| "abs_op p IncrementTerm = p\<lparr>p_term := p_term p + 1, p_vote := None\<rparr>"
| "abs_op p (SetVote v) = p\<lparr>p_vote := v\<rparr>"
| "abs_op p (AppendEntry e) = p\<lparr>p_log := p_log p @ [e]\<rparr>"
| "abs_op p (OverwriteEntry e) = p\<lparr>p_log := butlast (p_log p) @ [e]\<rparr>"

fun op_legal :: "'cmd Persistent \<Rightarrow> 'cmd storage_op \<Rightarrow> bool" where
  "op_legal p (AppendEntry e) = (unat (le_idx e) = Suc (length (p_log p)))"
| "op_legal p (OverwriteEntry e) = (le_idx e \<noteq> 0 \<and> unat (le_idx e) \<le> length (p_log p))"
| "op_legal p _ = True"

fun ops_legal :: "'cmd Persistent \<Rightarrow> 'cmd storage_op list \<Rightarrow> bool" where
  "ops_legal p [] = True"
| "ops_legal p (x # xs) = (op_legal p x \<and> ops_legal (abs_op p x) xs)"

lemma exec_op_session:
  assumes "keys_ok s" and "exec_op env s x = Inr s'"
  shows "only_session s s'"
proof (cases x)
  case IncrementTerm
  with assms(2) obtain s1 where "set_voted_for env s None = Inr s1" "set_current_term env s1 (current_term s1 + 1) = Inr s'"
    by (auto simp: increment_term_def rbind_eq_Inr)
  then show ?thesis using set_voted_for_session [OF assms(1)] set_current_term_session only_session_trans
    by (metis only_session_def)
qed (use assms in \<open>auto simp: rbind_eq_Inr dest: update_term_session set_voted_for_session
       append_log_session overwrite_log_session\<close>)

lemma exec_ops_session:
  assumes "keys_ok s" and "rfold (exec_op env) s xs = Inr s'"
  shows "only_session s s'"
proof -
  have "only_session s s" using assms(1) by (simp add: only_session_def)
  with assms(2) show ?thesis
  proof (rule rfold_invariant [where P = "only_session s"])
    fix s1 x s2 assume a: "only_session s s1" and e: "exec_op env s1 x = Inr s2"
    from a have "keys_ok s1" by (simp add: only_session_def)
    from only_session_trans [OF a exec_op_session [OF this e]] show "only_session s s2" .
  qed
qed

lemma exec_op_spec:
  assumes ok: "storage_ok env s" and "op_legal (abs_storage env s) x" and "exec_op env s x = Inr s'"
  shows "storage_ok env s' \<and> abs_storage env s' = abs_op (abs_storage env s) x
    \<and> session_key s' = session_key s"
proof (cases x)
  case (UpdateTerm t)
  with assms(3) obtain b where "update_term env s t = Inr (s', b)" by (auto simp: rbind_eq_Inr)
  from update_term_spec [OF ok this] UpdateTerm show ?thesis by simp
next
  case IncrementTerm
  with assms(3) increment_term_spec [OF ok, of s'] show ?thesis by simp
next
  case (SetVote v)
  with assms(3) set_voted_for_spec [OF ok, of v s'] show ?thesis by simp
next
  case (AppendEntry e)
  with assms(2,3) append_log_spec [OF ok, of e s'] show ?thesis by simp
next
  case (OverwriteEntry e)
  with assms(2,3) have e: "overwrite_log env s e = Inr s'" "le_idx e \<noteq> 0"
    "unat (le_idx e) \<le> unat (last_log_index s)" by simp_all
  then have "unat (le_idx e) = length (log_of env s)"
    using overwrite_log_panics [of e s env] by (cases "le_idx e < last_log_index s") (auto simp: word_less_nat_alt)
  from overwrite_log_spec [OF ok e(1) this e(2)] OverwriteEntry show ?thesis by simp
qed

lemma exec_ops_spec:
  assumes "storage_ok env s" and "ops_legal (abs_storage env s) xs" and "rfold (exec_op env) s xs = Inr s'"
  shows "storage_ok env s' \<and> abs_storage env s' = foldl abs_op (abs_storage env s) xs
    \<and> session_key s' = session_key s"
  using assms
proof (induction xs arbitrary: s)
  case (Cons x xs)
  from Cons.prems(3) obtain s1 where s1: "exec_op env s x = Inr s1" "rfold (exec_op env) s1 xs = Inr s'"
    by (auto simp: rbind_eq_Inr)
  with exec_op_spec [OF Cons.prems(1) _ s1(1)] Cons.IH [of s1] Cons.prems(2) show ?case by simp
qed simp

end
