(* ===== verification/RingBuf.thy ===== *)
theory RingBuf
  imports Prelude
begin

text \<open>
  The ring buffer of ringbuf/mod.rs, which the RPC transport uses as its table of requests in
  flight: a value is stored under a ticket (its index), and taken out by that ticket, in any
  order. The last section states the interface the transport relies on as a locale and
  discharges it for the code.
\<close>

section \<open>State and operations\<close>

record 'v RingBuf =
  data :: "(usize \<times> 'v) option list"
  capacity :: usize
  min_idx :: usize
  next_idx :: usize

datatype 'v RingBufError = Overflow 'v

definition with_capacity :: "usize \<Rightarrow> 'v RingBuf" where
  "with_capacity c =
     \<lparr> data = replicate (unat c) None, capacity = c, min_idx = 0, next_idx = 0 \<rparr>"

definition data_idx :: "usize \<Rightarrow> usize \<Rightarrow> usize result" where
  "data_idx cap idx = (if cap = 0 then Inl RemByZero else Inr (idx mod cap))"

definition slot_at :: "(usize \<times> 'v) option list \<Rightarrow> usize \<Rightarrow> (usize \<times> 'v) option result" where
  "slot_at d i = (if unat i < length d then Inr (d ! unat i) else Inl IndexOutOfBounds)"

definition add :: "'v RingBuf \<Rightarrow> 'v \<Rightarrow> (('v RingBufError + usize) \<times> 'v RingBuf) result" where
  "add b value =
     (let idx = next_idx b
      in if capacity b \<le> idx - min_idx b then Inr (Inl (Overflow value), b)
         else rbind (data_idx (capacity b) idx) (\<lambda>i.
                rbind (slot_at (data b) i) (\<lambda>_.
                  Inr (Inr idx, b\<lparr> data := (data b)[unat i := Some (idx, value)],
                                  next_idx := next_idx b + 1 \<rparr>))))"

lemma unat_succ_below: "mn < nxt \<Longrightarrow> unat (mn + 1) = Suc (unat mn)" for mn nxt :: "'a::len word"
  using unat_plus_one [of mn] by (metis linorder_not_le word_n1_ge)

text \<open>
  The loop of \<^verbatim>\<open>remove\<close> that moves \<^verbatim>\<open>min_idx\<close> past the empty slots. It ends because
  \<^verbatim>\<open>min_idx\<close> approaches \<^verbatim>\<open>next_idx\<close> from below.
\<close>

function advance_min ::
  "(usize \<times> 'v) option list \<Rightarrow> usize \<Rightarrow> usize \<Rightarrow> usize \<Rightarrow> usize result" where
  "advance_min d cap nxt mn =
     (if mn < nxt
      then rbind (data_idx cap mn) (\<lambda>i. rbind (slot_at d i) (\<lambda>x.
             if x = None then advance_min d cap nxt (mn + 1) else Inr mn))
      else Inr mn)"
  by pat_completeness auto

termination
  by (relation "measure (\<lambda>(d, cap, nxt, mn). unat nxt - unat mn)")
    (auto simp: unat_succ_below word_less_nat_alt)

declare advance_min.simps [simp del]

definition remove :: "'v RingBuf \<Rightarrow> usize \<Rightarrow> ('v option \<times> 'v RingBuf) result" where
  "remove b idx =
     rbind (data_idx (capacity b) idx) (\<lambda>i.
       if length (data b) \<le> unat i then Inl UnwrapNone
       else case data b ! unat i of
              None \<Rightarrow> Inr (None, b)
            | Some (tag, val) \<Rightarrow>
                if tag \<noteq> idx then Inr (None, b)
                else let d = (data b)[unat i := None]
                     in rbind (advance_min d (capacity b) (next_idx b) (min_idx b)) (\<lambda>mn.
                          Inr (Some val, b\<lparr> data := d, min_idx := mn \<rparr>)))"

section \<open>Invariant and abstraction\<close>

text \<open>
  The live tickets lie in the window from \<open>min_idx\<close> to \<open>next_idx\<close>, which is no longer than
  the buffer; each is in the slot of its residue; and \<open>min_idx\<close> itself is live unless the
  window is empty.
\<close>

definition ring_ok :: "'v RingBuf \<Rightarrow> bool" where
  "ring_ok b \<longleftrightarrow>
     capacity b \<noteq> 0 \<and> length (data b) = unat (capacity b) \<and> min_idx b \<le> next_idx b \<and>
     unat (next_idx b) \<le> unat (min_idx b) + unat (capacity b) \<and>
     (\<forall>i t v. i < length (data b) \<longrightarrow> data b ! i = Some (t, v) \<longrightarrow>
        min_idx b \<le> t \<and> t < next_idx b \<and> unat t mod unat (capacity b) = i) \<and>
     (min_idx b < next_idx b \<longrightarrow> data b ! (unat (min_idx b) mod unat (capacity b)) \<noteq> None)"

definition contents :: "'v RingBuf \<Rightarrow> usize \<rightharpoonup> 'v" where
  "contents b idx =
     (case data b ! (unat idx mod unat (capacity b)) of
        None \<Rightarrow> None
      | Some (t, v) \<Rightarrow> if t = idx then Some v else None)"

lemma mod_window_inj:
  assumes "m mod c = n mod c" and "m \<le> n" and "n < m + c"
  shows "m = (n :: nat)"
proof -
  from assms(1,2) have "c dvd n - m"
    by (simp add: mod_eq_dvd_iff_nat [OF assms(2), symmetric])
  moreover have "n - m < c" using assms(2,3) by simp
  ultimately have "n - m = 0" using nat_dvd_not_less by blast
  with assms(2) show ?thesis by simp
qed

lemma ring_okD:
  assumes "ring_ok b"
  shows "capacity b \<noteq> 0" "0 < unat (capacity b)" "length (data b) = unat (capacity b)"
    "unat (min_idx b) \<le> unat (next_idx b)" "unat (next_idx b) \<le> unat (min_idx b) + unat (capacity b)"
  using assms by (auto simp: ring_ok_def word_le_nat_alt unat_gt_0)

lemma ring_ok_slot:
  assumes "ring_ok b" and "i < unat (capacity b)" and "data b ! i = Some (t, v)"
  shows "unat (min_idx b) \<le> unat t" "unat t < unat (next_idx b)" "unat t mod unat (capacity b) = i"
  using assms by (auto simp: ring_ok_def word_le_nat_alt word_less_nat_alt)

lemma ring_ok_with_capacity: "c \<noteq> 0 \<Longrightarrow> ring_ok (with_capacity c :: 'v RingBuf)
    \<and> contents (with_capacity c :: 'v RingBuf) = Map.empty"
  by (auto simp: ring_ok_def with_capacity_def contents_def fun_eq_iff unat_gt_0)

lemma contents_window:
  assumes "ring_ok b" and "contents b idx = Some v"
  shows "min_idx b \<le> idx" and "idx < next_idx b"
proof -
  note d = ring_okD [OF assms(1)]
  from assms(2) have "data b ! (unat idx mod unat (capacity b)) = Some (idx, v)"
    by (auto simp: contents_def split: option.splits if_splits prod.splits)
  from ring_ok_slot [OF assms(1) _ this] d(2)
  show "min_idx b \<le> idx" "idx < next_idx b"
    by (simp_all add: word_le_nat_alt word_less_nat_alt)
qed

text \<open>The window is full exactly when the code says so.\<close>

lemma window_size: "ring_ok b \<Longrightarrow> unat (next_idx b - min_idx b) = unat (next_idx b) - unat (min_idx b)"
  by (simp add: ring_ok_def unat_sub)

lemma add_full:
  "ring_ok b \<Longrightarrow> unat (capacity b) \<le> unat (next_idx b) - unat (min_idx b) \<Longrightarrow>
   add b v = Inr (Inl (Overflow v), b)"
  by (simp add: add_def Let_def word_le_nat_alt window_size)

lemma add_room:
  assumes ok: "ring_ok b" and room: "unat (next_idx b) - unat (min_idx b) < unat (capacity b)"
    and nowrap: "next_idx b \<noteq> - 1"
  obtains b' where "add b v = Inr (Inr (next_idx b), b')" "ring_ok b'"
    "contents b (next_idx b) = None" "contents b' = (contents b)(next_idx b \<mapsto> v)"
    "next_idx b' = next_idx b + 1" "capacity b' = capacity b" "min_idx b' = min_idx b"
proof -
  note d = ring_okD [OF ok]
  let ?c = "unat (capacity b)" and ?n = "unat (next_idx b)"
  let ?i = "?n mod ?c"
  define b' where "b' = b\<lparr>data := (data b)[?i := Some (next_idx b, v)], next_idx := next_idx b + 1\<rparr>"
  have i: "?i < ?c" using d(2) by simp
  have free: "data b ! ?i = None"
  proof (rule ccontr)
    assume "data b ! ?i \<noteq> None"
    then obtain t w where tw: "data b ! ?i = Some (t, w)" by auto
    note t = ring_ok_slot [OF ok i tw]
    have "unat t = ?n"
    proof (rule mod_window_inj)
      show "unat t mod ?c = ?n mod ?c" by (rule t(3))
      show "unat t \<le> ?n" using t(2) by simp
      show "?n < unat t + ?c" using t(1,2) room by linarith
    qed
    with t(2) show False by simp
  qed
  have a: "add b v = Inr (Inr (next_idx b), b')"
    using room d(1-3) i
    by (simp add: add_def b'_def Let_def word_le_nat_alt window_size [OF ok] data_idx_def
        slot_at_def unat_mod_distrib not_le)
  have n': "unat (next_idx b + 1) = Suc ?n" using nowrap by (rule unat_plus_one)
  have "ring_ok b'"
    unfolding ring_ok_def
    using ok room d i n' ring_ok_slot [OF ok]
    by (auto simp: b'_def ring_ok_def word_le_nat_alt word_less_nat_alt nth_list_update
        less_Suc_eq_le split: if_splits intro: less_imp_le)
  moreover have "contents b (next_idx b) = None" by (simp add: contents_def free)
  moreover have "contents b' = (contents b)(next_idx b \<mapsto> v)"
  proof
    fix idx
    show "contents b' idx = ((contents b)(next_idx b \<mapsto> v)) idx"
      using d i free by (auto simp: contents_def b'_def nth_list_update)
  qed
  ultimately show ?thesis using that [of b'] a by (simp add: b'_def)
qed

text \<open>The loop finds the first non-empty slot of the window, or its end.\<close>

lemma advance_min_spec:
  assumes "cap \<noteq> 0" and "length d = unat cap" and "mn \<le> nxt"
  shows "\<exists>m. advance_min d cap nxt mn = Inr m \<and> mn \<le> m \<and> m \<le> nxt
    \<and> (\<forall>k. unat mn \<le> k \<and> k < unat m \<longrightarrow> d ! (k mod unat cap) = None)
    \<and> (m < nxt \<longrightarrow> d ! (unat m mod unat cap) \<noteq> None)"
  using assms
proof (induction d cap nxt mn rule: advance_min.induct)
  case (1 d cap nxt mn)
  have c: "0 < unat cap" using "1.prems"(1) by (simp add: unat_gt_0)
  have s: "slot_at d (mn mod cap) = Inr (d ! (unat mn mod unat cap))"
    using c "1.prems"(2) by (simp add: slot_at_def unat_mod_distrib)
  show ?case
  proof (cases "mn < nxt")
    case False
    then have "advance_min d cap nxt mn = Inr mn" by (simp add: advance_min.simps [of d cap nxt mn])
    with False "1.prems"(3) show ?thesis by auto
  next
    case True
    show ?thesis
    proof (cases "d ! (unat mn mod unat cap)")
      case (Some x)
      with True s "1.prems" show ?thesis
        by (auto simp: advance_min.simps [of d cap nxt mn] data_idx_def)
    next
      case None
      have u: "unat (mn + 1) = Suc (unat mn)" using True by (rule unat_succ_below)
      with True have le: "mn + 1 \<le> nxt" by (simp add: word_le_nat_alt word_less_nat_alt)
      from "1.IH" [OF True _ s None] "1.prems" le obtain m where
        m: "advance_min d cap nxt (mn + 1) = Inr m" "mn + 1 \<le> m" "m \<le> nxt"
          "\<forall>k. Suc (unat mn) \<le> k \<and> k < unat m \<longrightarrow> d ! (k mod unat cap) = None"
          "m < nxt \<longrightarrow> d ! (unat m mod unat cap) \<noteq> None"
        using u by (auto simp: data_idx_def)
      have "mn \<le> m" using m(2) u by (simp add: word_le_nat_alt)
      moreover have "\<forall>k. unat mn \<le> k \<and> k < unat m \<longrightarrow> d ! (k mod unat cap) = None"
        using m(4) None by (metis Suc_leI le_neq_implies_less)
      moreover have "advance_min d cap nxt mn = Inr m"
        using True None s m(1) "1.prems"(1) by (simp add: advance_min.simps [of d cap nxt mn] data_idx_def)
      ultimately show ?thesis using m(3,5) by blast
    qed
  qed
qed

lemma remove_absent:
  assumes "ring_ok b" and "contents b idx = None"
  shows "remove b idx = Inr (None, b)"
proof -
  have "unat idx mod unat (capacity b) < unat (capacity b)" using ring_okD(2) [OF assms(1)] by simp
  with assms(2) ring_okD(1,3) [OF assms(1)] show ?thesis
    by (auto simp: remove_def data_idx_def contents_def unat_mod_distrib
        split: option.splits if_splits prod.splits)
qed

lemma remove_present:
  assumes ok: "ring_ok b" and c: "contents b idx = Some v"
  obtains b' where "remove b idx = Inr (Some v, b')" "ring_ok b'"
    "contents b' = (contents b)(idx := None)" "next_idx b' = next_idx b" "capacity b' = capacity b"
proof -
  note d = ring_okD [OF ok]
  let ?c = "unat (capacity b)"
  let ?i = "unat idx mod ?c"
  define d' where "d' = (data b)[?i := None]"
  from c have slot: "data b ! ?i = Some (idx, v)"
    by (auto simp: contents_def split: option.splits if_splits prod.splits)
  have i: "?i < ?c" using d(2) by simp
  have mle: "min_idx b \<le> next_idx b" using d(4) by (simp add: word_le_nat_alt)
  from advance_min_spec [OF d(1) _ mle, of d'] d(3) obtain m where
    m: "advance_min d' (capacity b) (next_idx b) (min_idx b) = Inr m" "min_idx b \<le> m"
      "m \<le> next_idx b"
      "\<And>k. unat (min_idx b) \<le> k \<Longrightarrow> k < unat m \<Longrightarrow> d' ! (k mod ?c) = None"
      "m < next_idx b \<Longrightarrow> d' ! (unat m mod ?c) \<noteq> None"
    by (auto simp: d'_def)
  define b' where "b' = b\<lparr>data := d', min_idx := m\<rparr>"
  have r: "remove b idx = Inr (Some v, b')"
    using slot d i m(1) by (simp add: remove_def data_idx_def unat_mod_distrib b'_def d'_def Let_def)
  have slots: "unat m \<le> unat t \<and> unat t < unat (next_idx b) \<and> unat t mod ?c = j"
    if "j < ?c" "d' ! j = Some (t, w)" for j t w
  proof -
    from that i d(3) have "data b ! j = Some (t, w)"
      by (auto simp: d'_def nth_list_update split: if_splits)
    note t = ring_ok_slot [OF ok that(1) this]
    have "\<not> unat t < unat m" using m(4) [of "unat t"] t that(2) by auto
    with t show ?thesis by simp
  qed
  have "ring_ok b'"
    unfolding ring_ok_def
  proof (intro conjI allI impI)
    show "unat (next_idx b') \<le> unat (min_idx b') + unat (capacity b')"
      using d(5) m(2) by (simp add: b'_def word_le_nat_alt)
    show "min_idx b' < next_idx b' \<Longrightarrow> data b' ! (unat (min_idx b') mod unat (capacity b')) \<noteq> None"
      using m(5) by (simp add: b'_def)
    fix j t w
    assume "j < length (data b')" and "data b' ! j = Some (t, w)"
    then have "j < ?c" "d' ! j = Some (t, w)" using d(3) by (simp_all add: b'_def d'_def)
    from slots [OF this]
    show "min_idx b' \<le> t" "t < next_idx b'" "unat t mod unat (capacity b') = j"
      by (simp_all add: b'_def word_le_nat_alt word_less_nat_alt)
  qed (use d m(3) in \<open>simp_all add: b'_def d'_def\<close>)
  moreover have "contents b' = (contents b)(idx := None)"
  proof
    fix k
    have "k \<noteq> idx \<Longrightarrow> unat k mod ?c = ?i \<Longrightarrow> contents b k = None"
      using slot by (simp add: contents_def)
    then show "contents b' k = ((contents b)(idx := None)) k"
      using i d(3) by (auto simp: contents_def b'_def d'_def nth_list_update)
  qed
  ultimately show ?thesis using that [of b'] r by (simp add: b'_def)
qed

text \<open>Once the tickets have wrapped around, \<^verbatim>\<open>min_idx\<close> never moves again.\<close>

lemma advance_min_above: "\<not> mn < nxt \<Longrightarrow> advance_min d cap nxt mn = Inr mn"
  by (subst advance_min.simps) simp

lemma remove_wrapped:
  assumes "next_idx b < min_idx b" and r: "remove b i = Inr (x, b')"
  shows "next_idx b' = next_idx b \<and> min_idx b' = min_idx b \<and> capacity b' = capacity b"
proof -
  obtain j where j: "data_idx (capacity b) i = Inr j" "\<not> length (data b) \<le> unat j"
    using r by (auto simp: remove_def rbind_eq_Inr split: if_splits)
  have "\<not> min_idx b < next_idx b" using assms(1) by simp
  with r j show ?thesis
    by (cases "data b ! unat j") (auto simp: remove_def advance_min_above Let_def split: if_splits)
qed

text \<open>
  So the table wears out: after the wrap its window grows up to its full width, and nothing narrows it. \<open>accepts\<close> counts the values that it takes in during a run of operations,
  which a panic ends; \<open>worn\<close> ties that count to the counter of tickets, before and after it wraps.
\<close>

datatype 'v ring_op = Put 'v | Take_out usize

fun accepts :: "'v RingBuf \<Rightarrow> 'v ring_op list \<Rightarrow> nat" where
  "accepts b [] = 0"
| "accepts b (Put v # ops) =
     (case add b v of
        Inl p \<Rightarrow> 0
      | Inr (Inl e, b') \<Rightarrow> accepts b' ops
      | Inr (Inr i, b') \<Rightarrow> Suc (accepts b' ops))"
| "accepts b (Take_out i # ops) =
     (case remove b i of
        Inl p \<Rightarrow> 0
      | Inr (x, b') \<Rightarrow> accepts b' ops)"

definition worn :: "usize \<Rightarrow> nat \<Rightarrow> 'v RingBuf \<Rightarrow> bool" where
  "worn c n b \<longleftrightarrow> capacity b = c \<and>
     (ring_ok b \<and> n = unat (next_idx b) \<or>
      next_idx b < min_idx b \<and> n = 2 ^ 32 + unat (next_idx b) \<and> n \<le> unat (min_idx b) + unat c)"

lemma usize_lt: "unat w < 2 ^ 32" for w :: usize
  using unsigned_less [of w] by simp

lemma worn_bound: "worn c n b \<Longrightarrow> n < 2 ^ 32 + unat c"
  unfolding worn_def using usize_lt [of "min_idx b"] usize_lt [of "next_idx b"]
  by (auto simp: ring_ok_def unat_gt_0 word_neq_0_conv)

lemma wrapped_difference: "x < y \<Longrightarrow> unat (x - y) = 2 ^ 32 + unat x - unat y" for x y :: usize
  using unat_sub_if_size [of x y] usize_lt [of y] by (simp add: word_less_nat_alt not_le word_size)

lemma add_eq:
  "add b v = Inr (Inr i, b') \<Longrightarrow> \<not> capacity b \<le> next_idx b - min_idx b \<and> next_idx b' = next_idx b + 1 \<and>
     min_idx b' = min_idx b \<and> capacity b' = capacity b"
  by (auto simp: add_def Let_def rbind_eq_Inr split: if_splits)

lemma add_refused: "add b v = Inr (Inl e, b') \<Longrightarrow> b' = b"
  by (auto simp: add_def Let_def rbind_eq_Inr split: if_splits)

lemma worn_add:
  assumes "worn c n b" and a: "add b v = Inr (Inr i, b')"
  shows "worn c (Suc n) b'"
proof -
  note e = add_eq [OF a]
  have cap: "capacity b = c" using assms(1) by (simp add: worn_def)
  from assms(1) consider (fresh) "ring_ok b" "n = unat (next_idx b)"
    | (wrapped) "next_idx b < min_idx b" "n = 2 ^ 32 + unat (next_idx b)" "n \<le> unat (min_idx b) + unat c"
    by (auto simp: worn_def)
  then show ?thesis
  proof cases
    case fresh
    have room: "unat (next_idx b) - unat (min_idx b) < unat (capacity b)"
      using e window_size [OF fresh(1)] by (simp add: word_le_nat_alt)
    show ?thesis
    proof (cases "next_idx b = - 1")
      case False
      from add_room [OF fresh(1) room this, of v] a e have "ring_ok b'" by auto
      with e cap fresh(2) unat_plus_one [OF False] show ?thesis by (simp add: worn_def)
    next
      case True
      then have u: "unat (next_idx b) = 2 ^ 32 - 1" by (simp add: unat_minus_1)
      with room usize_lt [of "capacity b"] have "0 < unat (min_idx b)" by simp
      with True u e cap room fresh(2) show ?thesis by (auto simp: worn_def unat_gt_0 word_neq_0_conv)
    qed
  next
    case wrapped
    have d: "unat (next_idx b - min_idx b) = n - unat (min_idx b)"
      using wrapped_difference [OF wrapped(1)] wrapped(2) by simp
    from e cap d have "n - unat (min_idx b) < unat c" by (simp add: word_le_nat_alt)
    moreover have "unat (min_idx b) < 2 ^ 32" "unat c < 2 ^ 32" by (rule usize_lt)+
    ultimately have lt: "Suc (unat (next_idx b)) < unat (min_idx b)" and le: "Suc n \<le> unat (min_idx b) + unat c"
      using wrapped(2) by simp_all
    have "next_idx b \<noteq> - 1" using wrapped(1) word_n1_ge [of "min_idx b"] by (auto simp: not_le)
    from unat_plus_one [OF this] lt le e cap wrapped(2) show ?thesis
      by (simp add: worn_def word_less_nat_alt)
  qed
qed

lemma worn_remove:
  assumes "worn c n b" and r: "remove b i = Inr (x, b')"
  shows "worn c n b'"
proof (cases "next_idx b < min_idx b")
  case True
  with assms(1) have "\<not> ring_ok b" by (auto simp: ring_ok_def)
  with assms(1) remove_wrapped [OF True r] True show ?thesis by (simp add: worn_def)
next
  case False
  with assms(1) have ok: "ring_ok b" "n = unat (next_idx b)" "capacity b = c" by (auto simp: worn_def)
  show ?thesis
  proof (cases "contents b i")
    case None
    with remove_absent [OF ok(1) this] r assms(1) show ?thesis by simp
  next
    case (Some v)
    from remove_present [OF ok(1) Some] obtain b1 where "remove b i = Inr (Some v, b1)" "ring_ok b1"
      "next_idx b1 = next_idx b" "capacity b1 = capacity b" by metis
    with r ok show ?thesis by (simp add: worn_def)
  qed
qed

lemma worn_accepts: "worn c n b \<Longrightarrow> n + accepts b ops < 2 ^ 32 + unat c"
proof (induction b ops arbitrary: n rule: accepts.induct)
  case (2 b v ops)
  show ?case
  proof (cases "add b v")
    case (Inr y)
    obtain r b' where y: "y = (r, b')" by force
    show ?thesis
    proof (cases r)
      case (Inl e)
      with Inr y have "b' = b" using add_refused by fastforce
      with "2.IH"(1) [OF Inr y [symmetric] Inl] "2.prems" Inr y Inl show ?thesis by simp
    next
      case r: (Inr i)
      with "2.IH"(2) [OF Inr y [symmetric] r] worn_add [OF "2.prems", of v i b'] Inr y show ?thesis by fastforce
    qed
  qed (use worn_bound [OF 2(3)] in simp)
next
  case (3 b i ops)
  show ?case
  proof (cases "remove b i")
    case (Inr y)
    obtain x b' where y: "y = (x, b')" by force
    with "3.IH" [OF Inr y [symmetric]] worn_remove [OF "3.prems"] Inr show ?thesis by simp
  qed (use worn_bound [OF "3.prems"] in simp)
qed (use worn_bound in fastforce)

lemma fresh_worn: "c \<noteq> 0 \<Longrightarrow> worn c 0 (with_capacity c :: 'v RingBuf)"
  using ring_ok_with_capacity [of c, where 'v = 'v] unfolding worn_def by (simp add: with_capacity_def)

section \<open>The interface of the request table\<close>

text \<open>
  What the RPC transport relies on: a ticket that \<open>add\<close> hands out is fresh, a full table leaves
  everything as it is, and \<open>remove\<close> returns what is stored under a ticket exactly once.
\<close>

locale request_table =
  fixes inv :: "'b \<Rightarrow> bool"
    and room :: "'b \<Rightarrow> bool"
    and table :: "'b \<Rightarrow> 'i \<rightharpoonup> 'v"
    and put :: "'b \<Rightarrow> 'v \<Rightarrow> (('v RingBufError + 'i) \<times> 'b) result"
    and take_out :: "'b \<Rightarrow> 'i \<Rightarrow> ('v option \<times> 'b) result"
  assumes put_spec: "inv b \<Longrightarrow> room b \<Longrightarrow>
      put b v = Inr (Inl (Overflow v), b) \<or>
      (\<exists>i b'. put b v = Inr (Inr i, b') \<and> inv b' \<and> table b i = None \<and> table b' = (table b)(i \<mapsto> v))"
    and take_spec: "inv b \<Longrightarrow>
      \<exists>b'. take_out b i = Inr (table b i, b') \<and> inv b' \<and> table b' = (table b)(i := None) \<and>
        (room b \<longrightarrow> room b')"
begin

text \<open>A value that was put in comes out under its ticket, and then no second time.\<close>

lemma put_take:
  assumes "inv b" and "room b" and "put b v = Inr (Inr i, b')"
  shows "\<exists>b'' b'''. take_out b' i = Inr (Some v, b'') \<and> take_out b'' i = Inr (None, b''')"
proof -
  from put_spec [OF assms(1,2), of v] assms(3) have b': "inv b'" "table b' i = Some v" by auto
  from take_spec [OF b'(1), of i] b'(2) obtain b'' where
    b'': "take_out b' i = Inr (Some v, b'')" "inv b''" "table b'' i = None" by auto
  from take_spec [OF b''(2), of i] b''(3) obtain b''' where "take_out b'' i = Inr (None, b''')"
    by auto
  with b''(1) show ?thesis by blast
qed

text \<open>Taking one ticket out leaves every other one in place.\<close>

lemma take_other:
  assumes "inv b" and "take_out b i = Inr (x, b')" and "j \<noteq> i"
  shows "table b' j = table b j" and "inv b'" and "x = table b i"
  using take_spec [OF assms(1), of i] assms(2,3) by auto

end

definition tickets_left :: "'v RingBuf \<Rightarrow> bool" where
  "tickets_left b \<longleftrightarrow> next_idx b \<noteq> - 1"

interpretation ring: request_table ring_ok tickets_left contents add remove
proof unfold_locales
  fix b :: "'v RingBuf" and v
  assume ok: "ring_ok b" and t: "tickets_left b"
  show "add b v = Inr (Inl (Overflow v), b) \<or>
      (\<exists>i b'. add b v = Inr (Inr i, b') \<and> ring_ok b' \<and> contents b i = None \<and>
         contents b' = (contents b)(i \<mapsto> v))"
  proof (cases "unat (next_idx b) - unat (min_idx b) < unat (capacity b)")
    case True
    from add_room [OF ok True, of v] t show ?thesis by (metis tickets_left_def)
  next
    case False
    with add_full [OF ok, of v] show ?thesis by simp
  qed
next
  fix b :: "'v RingBuf" and i
  assume ok: "ring_ok b"
  show "\<exists>b'. remove b i = Inr (contents b i, b') \<and> ring_ok b' \<and> contents b' = (contents b)(i := None)
    \<and> (tickets_left b \<longrightarrow> tickets_left b')"
  proof (cases "contents b i")
    case None
    with remove_absent [OF ok None] ok show ?thesis by (auto simp: fun_upd_idem)
  next
    case (Some v)
    from remove_present [OF ok Some] show ?thesis by (metis Some tickets_left_def)
  qed
qed

end
