(* ===== verification/Transport.thy ===== *)
theory Transport
  imports RingBuf
begin

text \<open>
  The client side of the RPC transport, webrtc\_rpc/transport.rs: the request manager that numbers
  requests, sends them over the data channel and routes each response, timeout or send error to
  the caller's one-shot channel, and \<^verbatim>\<open>Client::call\<close>. A one-shot sender is its identity
  (\<open>'tx\<close>). Sends on channels and timers are the effects a handler returns, in order.
\<close>

section \<open>Messages, errors and state\<close>

datatype TransportError =
    Js string
  | RequestTimeout
  | TooManyInFlightRequests
  | Disconnected
  | TransportUnavailable

text \<open>A JavaScript exception: \<^verbatim>\<open>as_string()\<close> and its debug rendering.\<close>

record JsValue =
  as_string :: "string option"
  debug_fmt :: string

definition error_from_js :: "JsValue \<Rightarrow> TransportError" where
  "error_from_js err =
     (case as_string err of
        Some e \<Rightarrow> Js (''JavaScript error: '' @ e)
      | None \<Rightarrow> Js (''JavaScript error: '' @ debug_fmt err))"

datatype ('req, 'resp) Message =
    Request usize 'req
  | Response usize "TransportError + 'resp"

datatype ('req, 'resp, 'tx) manager_effect =
    SendMessage "('req, 'resp) Message"
  | StartTimer usize
  | Reply 'tx "TransportError + 'resp"

record 'tx RequestManager =
  in_flight :: "'tx RingBuf"

definition MAX_IN_FLIGHT_REQUESTS :: usize where
  "MAX_IN_FLIGHT_REQUESTS = 1024"

definition RequestManager_new :: "'tx RequestManager" where
  "RequestManager_new = \<lparr> in_flight = with_capacity MAX_IN_FLIGHT_REQUESTS \<rparr>"

section \<open>The handlers\<close>

text \<open>
  \<open>dc\<close> is the data channel: whether \<^verbatim>\<open>send_with_u8_array\<close> of a message succeeds (\<open>None\<close>) or
  throws (\<open>Some\<close> exception).
\<close>

definition handle_request ::
  "(('req, 'resp) Message \<Rightarrow> JsValue option) \<Rightarrow> 'tx RequestManager \<Rightarrow> 'req \<Rightarrow> 'tx \<Rightarrow>
   ('tx RequestManager \<times> ('req, 'resp, 'tx) manager_effect list) result" where
  "handle_request dc m req tx =
     rbind (add (in_flight m) tx) (\<lambda>(r, b).
       case r of
         Inr idx \<Rightarrow>
           let msg = Request idx req
           in (case dc msg of
                 Some err \<Rightarrow>
                   rbind (remove b idx) (\<lambda>(v, b).
                     case v of
                       None \<Rightarrow> Inl UnwrapNone
                     | Some tx \<Rightarrow> Inr (m\<lparr>in_flight := b\<rparr>, [Reply tx (Inl (error_from_js err))]))
               | None \<Rightarrow> Inr (m\<lparr>in_flight := b\<rparr>, [SendMessage msg, StartTimer idx]))
       | Inl (Overflow tx) \<Rightarrow> Inr (m\<lparr>in_flight := b\<rparr>, [Reply tx (Inl TooManyInFlightRequests)]))"

definition handle_response ::
  "'tx RequestManager \<Rightarrow> ('req, 'resp) Message \<Rightarrow>
   ('tx RequestManager \<times> ('req, 'resp, 'tx) manager_effect list) result" where
  "handle_response m msg =
     (case msg of
        Response idx resp \<Rightarrow>
          rbind (remove (in_flight m) idx) (\<lambda>(v, b).
            case v of
              Some tx \<Rightarrow> Inr (m\<lparr>in_flight := b\<rparr>, [Reply tx resp])
            | None \<Rightarrow> Inr (m\<lparr>in_flight := b\<rparr>, []))
      | Request _ _ \<Rightarrow> Inr (m, []))"

definition handle_timeout ::
  "'tx RequestManager \<Rightarrow> usize \<Rightarrow>
   ('tx RequestManager \<times> ('req, 'resp, 'tx) manager_effect list) result" where
  "handle_timeout m idx =
     rbind (remove (in_flight m) idx) (\<lambda>(v, b).
       case v of
         Some tx \<Rightarrow> Inr (m\<lparr>in_flight := b\<rparr>, [Reply tx (Inl RequestTimeout)])
       | None \<Rightarrow> Inr (m\<lparr>in_flight := b\<rparr>, []))"

text \<open>
  \<^verbatim>\<open>run\<close>: the branches of its \<^verbatim>\<open>select!\<close> as events. The request and the response channel end
  the loop when they close.
\<close>

datatype ('req, 'resp, 'tx) manager_event =
    GotRequest 'req 'tx "JsValue option"
  | GotResponse "('req, 'resp) Message"
  | GotTimeout usize
  | ChannelClosed

definition manager_step ::
  "'tx RequestManager \<Rightarrow> ('req, 'resp, 'tx) manager_event \<Rightarrow>
   ('tx RequestManager \<times> ('req, 'resp, 'tx) manager_effect list) result" where
  "manager_step m ev =
     (case ev of
        GotRequest req tx dc \<Rightarrow> handle_request (\<lambda>_. dc) m req tx
      | GotResponse msg \<Rightarrow> handle_response m msg
      | GotTimeout idx \<Rightarrow> handle_timeout m idx
      | ChannelClosed \<Rightarrow> Inr (m, []))"

fun manager_run ::
  "'tx RequestManager \<Rightarrow> ('req, 'resp, 'tx) manager_event list \<Rightarrow>
   ('tx RequestManager \<times> ('req, 'resp, 'tx) manager_effect list) result" where
  "manager_run m [] = Inr (m, [])"
| "manager_run m (ev # evs) =
     (if ev = ChannelClosed then Inr (m, [])
      else rbind (manager_step m ev) (\<lambda>(m', out).
             rbind (manager_run m' evs) (\<lambda>(m'', out'). Inr (m'', out @ out'))))"

section \<open>The client\<close>

record RpcClient =
  client_node_id :: u64
  connected :: bool

text \<open>\<^verbatim>\<open>PeerTransport::start\<close>: the client for a new data channel.\<close>

definition peer_transport_start :: "u64 \<Rightarrow> RpcClient" where
  "peer_transport_start peer_id = \<lparr>client_node_id = peer_id, connected = True\<rparr>"

text \<open>
  \<^verbatim>\<open>Client::call\<close>. What the channels do meanwhile is its input: \<open>send_ok\<close> tells whether the
  request channel is open, \<open>answer\<close> is what arrives on the one-shot channel, \<open>None\<close> when its
  sender is dropped.
\<close>

definition await_answer :: "(TransportError + 'resp) option \<Rightarrow> TransportError + 'resp" where
  "await_answer answer = (case answer of Some r \<Rightarrow> r | None \<Rightarrow> Inl Disconnected)"

definition call ::
  "RpcClient \<Rightarrow> bool \<Rightarrow> (TransportError + 'resp) option \<Rightarrow> RpcClient \<times> (TransportError + 'resp)" where
  "call c send_ok answer =
     (if \<not> connected c then (c, Inl Disconnected)
      else if send_ok then (c, await_answer answer)
      else (c\<lparr>connected := False\<rparr>, Inl Disconnected))"

section \<open>Every request is answered at most once\<close>

text \<open>The senders that wait for an answer, and the senders a run has answered.\<close>

definition waiting :: "'tx RequestManager \<Rightarrow> 'tx set" where
  "waiting m = ran (contents (in_flight m))"

definition manager_ok :: "'tx RequestManager \<Rightarrow> bool" where
  "manager_ok m \<longleftrightarrow> ring_ok (in_flight m) \<and> inj_on (contents (in_flight m)) (dom (contents (in_flight m)))"

definition replied :: "('req, 'resp, 'tx) manager_effect list \<Rightarrow> 'tx list" where
  "replied out = List.map_filter (\<lambda>e. case e of Reply tx _ \<Rightarrow> Some tx | _ \<Rightarrow> None) out"

definition requests_of :: "('req, 'resp, 'tx) manager_event list \<Rightarrow> 'tx list" where
  "requests_of evs = List.map_filter (\<lambda>e. case e of GotRequest _ tx _ \<Rightarrow> Some tx | _ \<Rightarrow> None) evs"

lemma replied_simps [simp]:
  "replied [] = []"
  "replied (Reply tx r # out) = tx # replied out"
  "replied (SendMessage msg # out) = replied out"
  "replied (StartTimer i # out) = replied out"
  "replied (out @ out') = replied out @ replied out'"
  by (simp_all add: replied_def List.map_filter_def)

lemma requests_of_simps [simp]:
  "requests_of [] = []"
  "requests_of (GotRequest req tx dc # evs) = tx # requests_of evs"
  "requests_of (GotResponse msg # evs) = requests_of evs"
  "requests_of (GotTimeout i # evs) = requests_of evs"
  "requests_of (ChannelClosed # evs) = requests_of evs"
  by (simp_all add: requests_of_def List.map_filter_def)

lemma manager_ok_new: "manager_ok (RequestManager_new :: 'tx RequestManager)"
  using ring_ok_with_capacity [of MAX_IN_FLIGHT_REQUESTS, where 'v = 'tx]
  by (simp add: manager_ok_def RequestManager_new_def MAX_IN_FLIGHT_REQUESTS_def)

lemma waiting_new: "waiting (RequestManager_new :: 'tx RequestManager) = {}"
  using ring_ok_with_capacity [of MAX_IN_FLIGHT_REQUESTS, where 'v = 'tx]
  by (simp add: waiting_def RequestManager_new_def MAX_IN_FLIGHT_REQUESTS_def)

lemma remove_waiting:
  assumes "manager_ok m" and "remove (in_flight m) i = Inr (x, b)"
  shows "manager_ok (m\<lparr>in_flight := b\<rparr>)"
    and "x = Some tx \<Longrightarrow> tx \<in> waiting m \<and> waiting (m\<lparr>in_flight := b\<rparr>) = waiting m - {tx}"
    and "x = None \<Longrightarrow> waiting (m\<lparr>in_flight := b\<rparr>) = waiting m"
proof -
  from assms(1) have ok: "ring_ok (in_flight m)"
    and inj: "inj_on (contents (in_flight m)) (dom (contents (in_flight m)))"
    by (simp_all add: manager_ok_def)
  from ring.take_spec [OF ok, of i] assms(2) have b: "ring_ok b" "x = contents (in_flight m) i"
    "contents b = (contents (in_flight m))(i := None)" by auto
  then show "manager_ok (m\<lparr>in_flight := b\<rparr>)"
    using inj by (auto simp: manager_ok_def inj_on_def)
  show "x = Some tx \<Longrightarrow> tx \<in> waiting m \<and> waiting (m\<lparr>in_flight := b\<rparr>) = waiting m - {tx}"
    using b inj by (force simp: waiting_def ran_def inj_on_def dom_def)
  show "x = None \<Longrightarrow> waiting (m\<lparr>in_flight := b\<rparr>) = waiting m"
    using b by (simp add: waiting_def fun_upd_idem)
qed

lemma add_next_idx:
  "add b v = Inr (r, b') \<Longrightarrow>
   next_idx b' = (case r of Inr _ \<Rightarrow> next_idx b + 1 | Inl _ \<Rightarrow> next_idx b)"
  by (auto simp: add_def Let_def rbind_eq_Inr split: if_splits)

lemma remove_next_idx: "remove b i = Inr (x, b') \<Longrightarrow> next_idx b' = next_idx b"
  by (auto simp: remove_def Let_def rbind_eq_Inr split: if_splits option.splits)

text \<open>A new sender waits, unless the table is full.\<close>

lemma add_waiting:
  assumes "manager_ok m" and "tickets_left (in_flight m)" and "tx \<notin> waiting m"
  shows "add (in_flight m) tx = Inr (Inl (Overflow tx), in_flight m) \<or>
    (\<exists>i b. add (in_flight m) tx = Inr (Inr i, b) \<and> manager_ok (m\<lparr>in_flight := b\<rparr>) \<and>
       contents b i = Some tx \<and> waiting (m\<lparr>in_flight := b\<rparr>) = insert tx (waiting m))"
proof -
  from assms(1) have ok: "ring_ok (in_flight m)"
    and inj: "inj_on (contents (in_flight m)) (dom (contents (in_flight m)))"
    by (simp_all add: manager_ok_def)
  from ring.put_spec [OF ok assms(2), of tx] show ?thesis
  proof (elim disjE exE conjE)
    fix i b
    assume b: "add (in_flight m) tx = Inr (Inr i, b)" "ring_ok b" "contents (in_flight m) i = None"
      "contents b = (contents (in_flight m))(i \<mapsto> tx)"
    have "inj_on (contents b) (dom (contents b))"
      using inj assms(3) b(3,4) by (auto simp: inj_on_def waiting_def ran_def)
    moreover have "waiting (m\<lparr>in_flight := b\<rparr>) = insert tx (waiting m)"
      using b(3,4) by (auto simp: waiting_def ran_map_upd)
    ultimately show ?thesis using b by (auto simp: manager_ok_def)
  qed simp
qed

definition accounted ::
  "'tx RequestManager \<Rightarrow> 'tx set \<Rightarrow> 'tx RequestManager \<Rightarrow> ('req, 'resp, 'tx) manager_effect list \<Rightarrow> bool" where
  "accounted m new m' out \<longleftrightarrow> manager_ok m' \<and> distinct (replied out) \<and>
     set (replied out) \<inter> waiting m' = {} \<and> waiting m' \<union> set (replied out) = waiting m \<union> new"

lemma take_out_accounted:
  assumes "manager_ok m"
  obtains x b where "remove (in_flight m) i = Inr (x, b)" "next_idx b = next_idx (in_flight m)"
    "\<And>r. accounted m {} (m\<lparr>in_flight := b\<rparr>) (case x of Some tx \<Rightarrow> [Reply tx r] | None \<Rightarrow> [])"
proof -
  from assms ring.take_spec [of "in_flight m" i] obtain b where
    b: "remove (in_flight m) i = Inr (contents (in_flight m) i, b)"
    by (auto simp: manager_ok_def)
  from remove_waiting [OF assms b] have
    "accounted m {} (m\<lparr>in_flight := b\<rparr>) (case contents (in_flight m) i of Some tx \<Rightarrow> [Reply tx r] | None \<Rightarrow> [])"
    for r by (auto simp: accounted_def split: option.splits)
  with that b remove_next_idx [OF b] show ?thesis by blast
qed

lemma manager_step_accounted:
  fixes ev :: "('req, 'resp, 'tx) manager_event" and m :: "'tx RequestManager"
  assumes "manager_ok m"
    and "set (requests_of [ev]) \<inter> waiting m = {}"
    and "requests_of [ev] \<noteq> [] \<Longrightarrow> tickets_left (in_flight m)"
  shows "\<exists>m' out. manager_step m ev = Inr (m', out) \<and> accounted m (set (requests_of [ev])) m' out
    \<and> (next_idx (in_flight m') = next_idx (in_flight m) \<or>
       requests_of [ev] \<noteq> [] \<and> next_idx (in_flight m') = next_idx (in_flight m) + 1)"
proof (cases ev)
  case (GotRequest req tx dc)
  with assms have tx: "tx \<notin> waiting m" and left: "tickets_left (in_flight m)" by auto
  from add_waiting [OF assms(1) left tx] show ?thesis
  proof (elim disjE exE conjE)
    assume "add (in_flight m) tx = Inr (Inl (Overflow tx), in_flight m)"
    then show ?thesis using GotRequest assms(1) tx
      by (auto simp: manager_step_def handle_request_def accounted_def)
  next
    fix i b
    assume b: "add (in_flight m) tx = Inr (Inr i, b)" "manager_ok (m\<lparr>in_flight := b\<rparr>)"
      "contents b i = Some tx" "waiting (m\<lparr>in_flight := b\<rparr>) = insert tx (waiting m)"
    have n: "next_idx b = next_idx (in_flight m) + 1" using add_next_idx [OF b(1)] by simp
    show ?thesis
    proof (cases dc)
      case None
      with GotRequest b n show ?thesis
        by (auto simp: manager_step_def handle_request_def accounted_def Let_def)
    next
      case (Some err)
      from b(2) ring.take_spec [of b i] b(3) obtain b' where
        b': "remove b i = Inr (Some tx, b')" by (auto simp: manager_ok_def)
      then have "remove (in_flight (m\<lparr>in_flight := b\<rparr>)) i = Inr (Some tx, b')" by simp
      note w = remove_waiting [OF b(2) this]
      have "accounted m {tx} (m\<lparr>in_flight := b'\<rparr>) [Reply tx (Inl (error_from_js err))]"
        using w b(4) tx by (auto simp: accounted_def)
      with GotRequest Some b b' n remove_next_idx [OF b'] show ?thesis
        by (auto simp: manager_step_def handle_request_def Let_def)
    qed
  qed
next
  case (GotResponse msg)
  show ?thesis
  proof (cases msg)
    case (Request i req)
    with GotResponse assms(1) show ?thesis
      by (auto simp: manager_step_def handle_response_def accounted_def)
  next
    case (Response i resp)
    from take_out_accounted [OF assms(1), of i] obtain x b where
      "remove (in_flight m) i = Inr (x, b)" "next_idx b = next_idx (in_flight m)"
      "\<And>r. accounted m {} (m\<lparr>in_flight := b\<rparr>)
        (case x of Some tx \<Rightarrow> [Reply tx r] | None \<Rightarrow> ([] :: ('req, 'resp, 'tx) manager_effect list))"
      by metis
    with Response GotResponse show ?thesis
      by (cases x) (auto simp: manager_step_def handle_response_def)
  qed
next
  case (GotTimeout i)
  from take_out_accounted [OF assms(1), of i] obtain x b where
    "remove (in_flight m) i = Inr (x, b)" "next_idx b = next_idx (in_flight m)"
    "\<And>r. accounted m {} (m\<lparr>in_flight := b\<rparr>)
      (case x of Some tx \<Rightarrow> [Reply tx r] | None \<Rightarrow> ([] :: ('req, 'resp, 'tx) manager_effect list))"
    by metis
  with GotTimeout show ?thesis
    by (cases x) (auto simp: manager_step_def handle_timeout_def)
next
  case ChannelClosed
  with assms(1) show ?thesis by (auto simp: manager_step_def accounted_def)
qed

lemma manager_run_accounted:
  assumes "manager_ok m" and "distinct (requests_of evs)"
    and "set (requests_of evs) \<inter> waiting m = {}"
    and "unat (next_idx (in_flight m)) + length (requests_of evs) < 2 ^ 32"
  shows "\<exists>m' out. manager_run m evs = Inr (m', out) \<and> manager_ok m' \<and> distinct (replied out)
    \<and> set (replied out) \<inter> waiting m' = {}
    \<and> waiting m' \<union> set (replied out) \<subseteq> waiting m \<union> set (requests_of evs)
    \<and> (ChannelClosed \<in> set evs \<or> waiting m' \<union> set (replied out) = waiting m \<union> set (requests_of evs))"
  using assms
proof (induction evs arbitrary: m)
  case Nil
  then show ?case by simp
next
  case (Cons ev evs)
  show ?case
  proof (cases "ev = ChannelClosed")
    case True
    with Cons.prems show ?thesis by auto
  next
    case False
    have split: "requests_of (ev # evs) = requests_of [ev] @ requests_of evs"
      by (cases ev) simp_all
    have len: "requests_of [ev] \<noteq> [] \<Longrightarrow> length (requests_of [ev]) = 1"
      by (cases ev) simp_all
    have left: "requests_of [ev] \<noteq> [] \<Longrightarrow> next_idx (in_flight m) \<noteq> - 1"
      using Cons.prems(4) len by (auto simp: split unat_minus_1)
    from manager_step_accounted [OF Cons.prems(1), of ev] Cons.prems(3) left obtain m1 out1 where
      st: "manager_step m ev = Inr (m1, out1)" and a: "accounted m (set (requests_of [ev])) m1 out1"
      and n: "next_idx (in_flight m1) = next_idx (in_flight m) \<or>
        requests_of [ev] \<noteq> [] \<and> next_idx (in_flight m1) = next_idx (in_flight m) + 1"
      by (auto simp: split tickets_left_def)
    have room: "unat (next_idx (in_flight m1)) + length (requests_of evs) < 2 ^ 32"
      using n Cons.prems(4) len left unat_plus_one [of "next_idx (in_flight m)"]
      by (auto simp: split)
    have fresh: "set (requests_of evs) \<inter> waiting m1 = {}"
      using a Cons.prems(2,3) by (auto simp: accounted_def split)
    from Cons.IH [of m1] a room fresh Cons.prems(2) obtain m2 out2 where
      r: "manager_run m1 evs = Inr (m2, out2)" "manager_ok m2" "distinct (replied out2)"
        "set (replied out2) \<inter> waiting m2 = {}"
        "waiting m2 \<union> set (replied out2) \<subseteq> waiting m1 \<union> set (requests_of evs)"
        "ChannelClosed \<in> set evs \<or> waiting m2 \<union> set (replied out2) = waiting m1 \<union> set (requests_of evs)"
      by (auto simp: accounted_def split)
    have o1: "set (replied out1) \<subseteq> waiting m \<union> set (requests_of [ev])"
      "set (replied out1) \<inter> waiting m1 = {}"
      using a unfolding accounted_def by blast+
    moreover have "(waiting m \<union> set (requests_of [ev])) \<inter> set (requests_of evs) = {}"
      using Cons.prems(2,3) unfolding split by auto
    ultimately have "set (replied out1) \<inter> (waiting m2 \<union> set (replied out2)) = {}"
      using r(5) by blast
    then have "distinct (replied (out1 @ out2))" "set (replied (out1 @ out2)) \<inter> waiting m2 = {}"
      using a r(3,4) by (auto simp: accounted_def)
    moreover have "waiting m2 \<union> set (replied (out1 @ out2)) \<subseteq> waiting m \<union> set (requests_of (ev # evs))"
      using a r(5) by (auto simp: accounted_def split)
    moreover have "ChannelClosed \<in> set evs \<or>
        waiting m2 \<union> set (replied (out1 @ out2)) = waiting m \<union> set (requests_of (ev # evs))"
      using a r(6) by (auto simp: accounted_def split)
    ultimately show ?thesis using False st r(1,2) by simp
  qed
qed

end
