(* ===== verification/Worker.thy ===== *)
theory Worker
  imports Storage Transport
begin

text \<open>
  The part of raft/worker.rs that the three roles share: the worker's inner state, the effects of
  a handler, and the operations of \<^verbatim>\<open>impl RaftWorker<S, Cmd>\<close>: the quorum, the vote and
  append-entries handlers, the application of committed entries, the debug dump and new peers.
\<close>

section \<open>State and effects\<close>

text \<open>
  \<^verbatim>\<open>RaftWorkerInner\<close> without its channels, whose traffic the effects and the events of a step
  describe. A connected peer's client is known by its node and its \<^verbatim>\<open>connected\<close> flag.
\<close>

record Inner =
  leader_id :: "NodeId option"
  node_id :: NodeId
  inner_session_key :: u128
  cluster_size :: nat
  peers :: "NodeId list"
  peer_clients :: "(NodeId \<times> RpcClient) list"
  commit_index :: LogIndex
  last_applied :: LogIndex
  store :: Storage

text \<open>
  Where an answer to a client goes: to the client's own one-shot channel, or, for a request that
  another node forwarded, through a relay task to the channel of that RPC.
\<close>

datatype reply_to = ClientTx nat | RelayTx nat

text \<open>
  What a handler does besides changing its state, in order: answer an RPC, answer a client, hand
  a command to the state machine, spawn a task that calls a peer (for a vote, with log entries of
  the given first and last index, or with a forwarded request) and restart a timer.
\<close>

datatype 'cmd effect =
    RpcReply nat "'cmd RpcResponse"
  | ClientReply reply_to "'cmd ClientResult"
  | ApplyCmd 'cmd
  | CallVote NodeId RequestVoteRequest
  | CallAppend NodeId LogIndex LogIndex "'cmd AppendEntriesRequest"
  | CallForward NodeId "'cmd ClientRequest" nat
  | ResetElectionTimeout
  | ResetHeartbeat

section \<open>Operations\<close>

definition quorum :: "Inner \<Rightarrow> nat" where
  "quorum w = cluster_size w div 2 + 1"

definition handle_request_vote ::
  "'cmd env \<Rightarrow> Inner \<Rightarrow> RequestVoteRequest \<Rightarrow> (Inner \<times> RequestVoteResponse) result" where
  "handle_request_vote env w req =
     (if current_term (store w) \<le> rv_term req
         \<and> (voted_for (store w) = None \<or> voted_for (store w) = Some (rv_candidate req))
         \<and> commit_index w \<le> rv_last_log_index req
      then rbind (set_voted_for env (store w) (Some (rv_candidate req))) (\<lambda>s.
             Inr (w\<lparr>store := s\<rparr>, \<lparr>rvr_term = rv_last_log_term req, rvr_vote_granted = True\<rparr>))
      else Inr (w, \<lparr>rvr_term = 0, rvr_vote_granted = False\<rparr>))"

text \<open>The body of the loop over the entries of a request.\<close>

definition put_entry :: "'cmd env \<Rightarrow> Storage \<Rightarrow> 'cmd LogEntry \<Rightarrow> Storage result" where
  "put_entry env s e =
     rbind (get_log env s (le_idx e)) (\<lambda>x.
       case x of
         Some existing \<Rightarrow> if le_term existing \<noteq> le_term e then overwrite_log env s e else Inr s
       | None \<Rightarrow> append_log env s e)"

definition handle_append_entries ::
  "'cmd env \<Rightarrow> Inner \<Rightarrow> 'cmd AppendEntriesRequest \<Rightarrow> (Inner \<times> AppendEntriesResponse) result" where
  "handle_append_entries env w req =
     (let cur = current_term (store w)
      in if ae_term req < cur then Inr (w, \<lparr>aer_term = cur, aer_success = False\<rparr>)
         else rbind (get_log env (store w) (ae_prev_log_index req)) (\<lambda>entry.
           if ae_prev_log_index req \<noteq> 0
              \<and> (case entry of None \<Rightarrow> True | Some e \<Rightarrow> le_term e \<noteq> ae_prev_log_term req)
           then Inr (w, \<lparr>aer_term = cur, aer_success = False\<rparr>)
           else rbind (rfold (put_entry env) (store w) (ae_entries req)) (\<lambda>s.
             Inr (w\<lparr>store := s,
                    commit_index :=
                      (if commit_index w < ae_leader_commit req
                       then min (ae_leader_commit req)
                              (if ae_entries req = [] then ae_leader_commit req
                               else le_idx (last (ae_entries req)))
                       else commit_index w)\<rparr>,
                  \<lparr>aer_term = cur, aer_success = True\<rparr>))))"

definition apply_log :: "'cmd env \<Rightarrow> Inner \<Rightarrow> (Inner \<times> 'cmd effect list) result" where
  "apply_log env w =
     rbind (sublog env (store w) (range_incl (last_applied w + 1) (commit_index w))) (\<lambda>entries.
       Inr (foldl (\<lambda>(w, out) e. (w\<lparr>last_applied := le_idx e\<rparr>, out @ [ApplyCmd (le_cmd e)])) (w, []) entries))"

definition handle_new_peer :: "Inner \<Rightarrow> NodeId \<Rightarrow> Inner" where
  "handle_new_peer w peer =
     w\<lparr>peer_clients := AList.update peer \<lparr>client_node_id = peer, connected = True\<rparr> (peer_clients w)\<rparr>"

text \<open>\<^verbatim>\<open>From<&RaftWorker<S, Cmd>> for RaftStateDump\<close>; \<open>state\<close> is the role's debug rendering.\<close>

definition state_dump :: "string \<Rightarrow> Inner \<Rightarrow> RaftStateDump" where
  "state_dump state w =
     \<lparr> rsd_state = state,
       rsd_leader_id = leader_id w,
       rsd_node_id = node_id w,
       rsd_session_key = inner_session_key w,
       rsd_cluster_size = cluster_size w,
       rsd_peers = peers w,
       rsd_online_peers = map fst (filter (\<lambda>(_, c). connected c) (peer_clients w)),
       rsd_voted_for = voted_for (store w),
       rsd_current_term = current_term (store w),
       rsd_last_log_index = last_log_index (store w),
       rsd_commit_index = commit_index w,
       rsd_last_applied = last_applied w \<rparr>"

definition handle_debug :: "string \<Rightarrow> Inner \<Rightarrow> reply_to \<Rightarrow> 'cmd effect list" where
  "handle_debug state w tx = [ClientReply tx (Inr (DebugDump (state_dump state w)))]"

text \<open>\<^verbatim>\<open>WorkerBuilder::start\<close>: the inner state over what the browser holds for the session.\<close>

definition worker_new ::
  "NodeId \<Rightarrow> u128 \<Rightarrow> NodeId list \<Rightarrow> (NodeId \<times> RpcClient) list \<Rightarrow> (string \<rightharpoonup> string) \<Rightarrow> Inner result" where
  "worker_new nid sk ps clients local_storage =
     rbind (Storage_new sk local_storage) (\<lambda>s.
       Inr \<lparr> leader_id = None, node_id = nid, inner_session_key = sk, cluster_size = length ps + 1,
             peers = ps, peer_clients = clients, commit_index = 0, last_applied = 0, store = s \<rparr>)"

section \<open>The vote handler\<close>

text \<open>What the worker needs of its storage, and what a handler leaves alone.\<close>

definition inner_ok :: "'cmd env \<Rightarrow> Inner \<Rightarrow> bool" where
  "inner_ok env w \<longleftrightarrow> storage_ok env (store w) \<and> session_key (store w) = inner_session_key w"

abbreviation term_of :: "Inner \<Rightarrow> TermIndex" where
  "term_of w \<equiv> current_term (store w)"

abbreviation vote_of :: "Inner \<Rightarrow> NodeId option" where
  "vote_of w \<equiv> voted_for (store w)"

abbreviation entries_of :: "'cmd env \<Rightarrow> Inner \<Rightarrow> 'cmd LogEntry list" where
  "entries_of env w \<equiv> log_of env (store w)"

text \<open>The identity of a node, which no operation changes.\<close>

definition same_node :: "Inner \<Rightarrow> Inner \<Rightarrow> bool" where
  "same_node w w' \<longleftrightarrow> node_id w' = node_id w \<and> inner_session_key w' = inner_session_key w \<and>
     cluster_size w' = cluster_size w \<and> peers w' = peers w"

lemma same_node_refl [simp]: "same_node w w"
  by (simp add: same_node_def)

lemma same_node_trans: "same_node w w' \<Longrightarrow> same_node w' w'' \<Longrightarrow> same_node w w''"
  by (simp add: same_node_def)

lemma handle_request_vote_spec:
  assumes ok: "inner_ok env w" and h: "handle_request_vote env w req = Inr (w', resp)"
  shows "inner_ok env w'" and "same_node w w'" and "term_of w' = term_of w"
    and "entries_of env w' = entries_of env w" and "last_log_index (store w') = last_log_index (store w)"
    and "commit_index w' = commit_index w" and "last_applied w' = last_applied w"
    and "leader_id w' = leader_id w" and "peer_clients w' = peer_clients w"
    and "rvr_vote_granted resp \<longleftrightarrow> term_of w \<le> rv_term req \<and>
      vote_of w \<in> {None, Some (rv_candidate req)} \<and> commit_index w \<le> rv_last_log_index req"
    and "vote_of w' = (if rvr_vote_granted resp then Some (rv_candidate req) else vote_of w)"
    and "rvr_term resp = (if rvr_vote_granted resp then rv_last_log_term req else 0)"
proof -
  let ?g = "term_of w \<le> rv_term req \<and> vote_of w \<in> {None, Some (rv_candidate req)}
    \<and> commit_index w \<le> rv_last_log_index req"
  have "inner_ok env w' \<and> same_node w w' \<and> term_of w' = term_of w \<and> entries_of env w' = entries_of env w
    \<and> last_log_index (store w') = last_log_index (store w)
    \<and> commit_index w' = commit_index w \<and> last_applied w' = last_applied w
    \<and> leader_id w' = leader_id w \<and> peer_clients w' = peer_clients w
    \<and> (rvr_vote_granted resp \<longleftrightarrow> ?g)
    \<and> vote_of w' = (if rvr_vote_granted resp then Some (rv_candidate req) else vote_of w)
    \<and> rvr_term resp = (if rvr_vote_granted resp then rv_last_log_term req else 0)"
  proof (cases ?g)
    case False
    with h ok show ?thesis by (auto simp: handle_request_vote_def)
  next
    case True
    with h obtain s where s: "set_voted_for env (store w) (Some (rv_candidate req)) = Inr s"
      and w': "w' = w\<lparr>store := s\<rparr>" and r: "resp = \<lparr>rvr_term = rv_last_log_term req, rvr_vote_granted = True\<rparr>"
      by (auto simp: handle_request_vote_def rbind_eq_Inr)
    from ok have "storage_ok env (store w)" by (simp add: inner_ok_def)
    note v = set_voted_for_spec [OF this s]
    have "last_log_index s = last_log_index (store w)"
      using s by (simp add: set_voted_for_def set_persistent_eq_Inr)
    with v True ok show ?thesis
      by (auto simp: w' r inner_ok_def same_node_def abs_storage_def)
  qed
  then show "inner_ok env w'" "same_node w w'" "term_of w' = term_of w"
    "entries_of env w' = entries_of env w" "last_log_index (store w') = last_log_index (store w)"
    "commit_index w' = commit_index w" "last_applied w' = last_applied w"
    "leader_id w' = leader_id w" "peer_clients w' = peer_clients w"
    "rvr_vote_granted resp \<longleftrightarrow> ?g"
    "vote_of w' = (if rvr_vote_granted resp then Some (rv_candidate req) else vote_of w)"
    "rvr_term resp = (if rvr_vote_granted resp then rv_last_log_term req else 0)"
    by simp_all
qed

section \<open>Term and vote under the shared handlers\<close>

text \<open>
  The part of the invariant that elections rest on, and how each handler changes the term and
  the vote. No assumption on the log is needed.
\<close>

definition node_ok :: "Inner \<Rightarrow> bool" where
  "node_ok w \<longleftrightarrow> meta_ok (store w) \<and> session_key (store w) = inner_session_key w"

lemma inner_ok_node: "inner_ok env w \<Longrightarrow> node_ok w"
  by (auto simp: inner_ok_def node_ok_def intro: storage_ok_meta)

lemma handle_request_vote_meta:
  assumes "node_ok w" and "handle_request_vote env w req = Inr (w', resp)"
  shows "node_ok w' \<and> same_node w w' \<and> peer_clients w' = peer_clients w \<and> term_of w' = term_of w
    \<and> (rvr_vote_granted resp \<longleftrightarrow> term_of w \<le> rv_term req \<and>
        vote_of w \<in> {None, Some (rv_candidate req)} \<and> commit_index w \<le> rv_last_log_index req)
    \<and> vote_of w' = (if rvr_vote_granted resp then Some (rv_candidate req) else vote_of w)"
  using assms set_voted_for_meta [of "store w" env "Some (rv_candidate req)"]
  by (auto simp: handle_request_vote_def rbind_eq_Inr node_ok_def same_node_def split: if_splits)

lemma put_entry_meta:
  assumes "meta_ok s" and "put_entry env s e = Inr s'"
  shows "meta_ok s' \<and> same_vote s s'"
  using assms append_log_meta [of s env e s'] overwrite_log_meta [of s env e s']
  by (auto simp: put_entry_def rbind_eq_Inr split: option.splits if_splits)

lemma put_entries_meta:
  assumes "meta_ok s" and "rfold (put_entry env) s es = Inr s'"
  shows "meta_ok s' \<and> same_vote s s'"
  by (rule rfold_invariant [OF assms(2), where P = "\<lambda>t. meta_ok t \<and> same_vote s t"])
    (use assms(1) put_entry_meta same_vote_trans in \<open>auto\<close>)

lemma handle_append_entries_meta:
  assumes "node_ok w" and "handle_append_entries env w req = Inr (w', resp)"
  shows "node_ok w' \<and> same_node w w' \<and> peer_clients w' = peer_clients w
    \<and> term_of w' = term_of w \<and> vote_of w' = vote_of w"
  using assms put_entries_meta [of "store w" env "ae_entries req"]
  by (auto simp: handle_append_entries_def Let_def rbind_eq_Inr node_ok_def same_node_def
      same_vote_def split: if_splits)

lemma foldl_apply:
  "foldl (\<lambda>(w, out) e. (w\<lparr>last_applied := le_idx e\<rparr>, out @ [ApplyCmd (le_cmd e)])) (w, out) es
   = (if es = [] then w else w\<lparr>last_applied := le_idx (last es)\<rparr>, out @ map (\<lambda>e. ApplyCmd (le_cmd e)) es)"
  by (induction es arbitrary: w out) auto

lemma apply_log_frame:
  assumes "apply_log env w = Inr (w', out)"
  obtains a where "w' = w\<lparr>last_applied := a\<rparr>" and "set out \<subseteq> range ApplyCmd"
proof -
  from assms obtain es where "sublog env (store w) (range_incl (last_applied w + 1) (commit_index w)) = Inr es"
    and w': "w' = (if es = [] then w else w\<lparr>last_applied := le_idx (last es)\<rparr>)"
    and out: "out = map (\<lambda>e. ApplyCmd (le_cmd e)) es"
    unfolding apply_log_def rbind_eq_Inr foldl_apply by auto
  have "w' = w\<lparr>last_applied := last_applied w'\<rparr>" using w' by simp
  moreover have "set out \<subseteq> range ApplyCmd" using out by auto
  ultimately show ?thesis by (rule that)
qed

section \<open>The append-entries handler\<close>

text \<open>
  With a storage in order and entries that follow the previous index, a successful handler
  leaves the log that the Raft paper prescribes (\<^const>\<open>raft_merge\<close>).
\<close>

lemma put_entries_merge:
  assumes "storage_ok env s" and "indexed_from le_idx p es" and "p \<le> length (log_of env s)"
    and "rfold (put_entry env) s es = Inr s'"
  shows "storage_ok env s'" and "log_of env s' = raft_merge le_term (log_of env s) p es"
    and "same_vote s s'"
proof -
  have body: "put_entry env = (\<lambda>s e. rbind (get_log env s (le_idx e)) (\<lambda>x. case x of
        Some ex \<Rightarrow> if le_term ex \<noteq> le_term e then overwrite_log env s e else Inr s
      | None \<Rightarrow> append_log env s e))"
    by (intro ext) (simp add: put_entry_def)
  from stored.put_all_merge [OF assms(1-3), where tm = le_term and s' = s'] assms(4)
  show "storage_ok env s'" "log_of env s' = raft_merge le_term (log_of env s) p es" "same_vote s s'"
    by (simp_all add: body)
qed

definition prev_matches :: "'cmd LogEntry list \<Rightarrow> LogIndex \<Rightarrow> TermIndex \<Rightarrow> bool" where
  "prev_matches l i t \<longleftrightarrow>
     i = 0 \<or> (case log_nth l i of None \<Rightarrow> False | Some e \<Rightarrow> le_term e = t)"

lemma prev_matches_length: "prev_matches l i t \<Longrightarrow> unat i \<le> length l"
  by (auto simp: prev_matches_def log_nth_def split: option.splits if_splits)

lemma handle_append_entries_spec:
  assumes ok: "inner_ok env w" and h: "handle_append_entries env w req = Inr (w', resp)"
    and ix: "indexed_from le_idx (unat (ae_prev_log_index req)) (ae_entries req)"
  shows "inner_ok env w' \<and> aer_term resp = term_of w
    \<and> (aer_success resp \<longleftrightarrow> term_of w \<le> ae_term req
        \<and> prev_matches (entries_of env w) (ae_prev_log_index req) (ae_prev_log_term req))
    \<and> (if aer_success resp
        then entries_of env w' = raft_merge le_term (entries_of env w)
               (unat (ae_prev_log_index req)) (ae_entries req)
          \<and> commit_index w' =
              (if commit_index w < ae_leader_commit req
               then if ae_entries req = [] then ae_leader_commit req
                    else min (ae_leader_commit req) (le_idx (last (ae_entries req)))
               else commit_index w)
          \<and> term_of w' = term_of w \<and> vote_of w' = vote_of w
        else w' = w)"
proof -
  from ok have st: "storage_ok env (store w)" by (simp add: inner_ok_def)
  show ?thesis
  proof (cases "ae_term req < term_of w \<or>
      \<not> prev_matches (entries_of env w) (ae_prev_log_index req) (ae_prev_log_term req)")
    case True
    with h ok show ?thesis
      by (auto simp: handle_append_entries_def Let_def get_log_spec [OF st] prev_matches_def
          split: if_splits option.splits)
  next
    case False
    then have t: "term_of w \<le> ae_term req" "\<not> ae_term req < term_of w"
      and m: "prev_matches (entries_of env w) (ae_prev_log_index req) (ae_prev_log_term req)" by auto
    from h t m obtain s where s: "rfold (put_entry env) (store w) (ae_entries req) = Inr s"
      and w': "store w' = s" "inner_session_key w' = inner_session_key w"
        "commit_index w' = (if commit_index w < ae_leader_commit req
           then min (ae_leader_commit req) (if ae_entries req = [] then ae_leader_commit req
                      else le_idx (last (ae_entries req)))
           else commit_index w)"
      and r: "resp = \<lparr>aer_term = term_of w, aer_success = True\<rparr>"
      by (auto simp: handle_append_entries_def Let_def get_log_spec [OF st] prev_matches_def
          rbind_eq_Inr split: if_splits option.splits)
    note p = put_entries_merge [OF st ix prev_matches_length [OF m] s]
    from p ok have "inner_ok env w'"
      by (simp add: inner_ok_def w' same_vote_def)
    with p r w' t m show ?thesis by (auto simp: same_vote_def)
  qed
qed

section \<open>Applying committed entries\<close>

text \<open>
  \<^verbatim>\<open>apply_log\<close> hands the state machine exactly the entries after \<open>last_applied\<close> up to the
  commit index (or the end of the log, if that comes first), in the order of the log.
\<close>

lemma apply_log_spec:
  assumes ok: "inner_ok env w" and max: "last_applied w \<noteq> - 1"
  shows "apply_log env w = Inr
    (w\<lparr>last_applied := (if last_applied w < min (commit_index w) (last_log_index (store w))
        then min (commit_index w) (last_log_index (store w)) else last_applied w)\<rparr>,
     map (\<lambda>e. ApplyCmd (le_cmd e))
       (drop (unat (last_applied w)) (take (unat (commit_index w)) (entries_of env w))))"
proof -
  from ok have st: "storage_ok env (store w)" by (simp add: inner_ok_def)
  let ?la = "unat (last_applied w)" and ?c = "unat (commit_index w)" and ?l = "entries_of env w"
  let ?es = "drop ?la (take ?c ?l)"
  have u: "unat (last_applied w + 1) = Suc ?la" using max by (rule unat_plus_one)
  then have nz: "last_applied w + 1 \<noteq> 0" by (metis nat.distinct(1) unat_0)
  have s: "sublog env (store w) (range_incl (last_applied w + 1) (commit_index w)) = Inr ?es"
    using sublog_incl [OF st nz] u by simp
  have lt: "last_applied w < min (commit_index w) (last_log_index (store w)) \<longleftrightarrow> ?es \<noteq> []"
    by (auto simp: word_less_nat_alt min_def word_le_nat_alt)
  have "?es \<noteq> [] \<Longrightarrow> le_idx (last ?es) = min (commit_index w) (last_log_index (store w))"
  proof -
    assume ne: "?es \<noteq> []"
    let ?n = "min ?c (length ?l)"
    from ne have n: "0 < ?n" "?n \<le> length ?l" by auto
    have "last ?es = ?l ! (?n - 1)"
      using ne by (simp add: last_conv_nth min_def) (auto simp: not_le)
    moreover have "?n - 1 < length ?l" using n by linarith
    ultimately have "unat (le_idx (last ?es)) = ?n"
      using log_of_le_idx(2) [OF st, of "?n - 1"] n(1) by (simp only: Suc_diff_1)
    then show ?thesis by (auto simp: word_unat_eq_iff min_def word_le_nat_alt)
  qed
  with s lt show ?thesis by (simp add: apply_log_def foldl_apply)
qed

lemma apply_log_upto:
  assumes "inner_ok env w" and "last_applied w \<le> commit_index w"
    and "commit_index w \<le> last_log_index (store w)" and "commit_index w \<noteq> - 1"
  shows "apply_log env w = Inr (w\<lparr>last_applied := commit_index w\<rparr>,
     map (\<lambda>e. ApplyCmd (le_cmd e))
       (drop (unat (last_applied w)) (take (unat (commit_index w)) (entries_of env w))))"
proof -
  have "last_applied w \<noteq> - 1" using assms(2,4) by (metis word_order.extremum_unique)
  from apply_log_spec [OF assms(1) this] assms(2,3) show ?thesis
    by (auto simp: min_def order.order_iff_strict)
qed

end
