(* ===== verification/Follower.thy ===== *)
theory Follower
  imports Worker
begin

text \<open>
  The follower of raft/worker.rs: how it answers RPCs, and how it forwards a client's request to
  the leader it knows of. The state \<^verbatim>\<open>Follower {}\<close> carries nothing.
\<close>

definition follower_handle_rpc ::
  "'cmd env \<Rightarrow> Inner \<Rightarrow> 'cmd RpcRequest \<Rightarrow> nat \<Rightarrow> (Inner \<times> 'cmd effect list) result" where
  "follower_handle_rpc env w rpc resp_tx =
     (case rpc of
        RequestVote req \<Rightarrow>
          rbind (update_term env (store w) (rv_term req)) (\<lambda>(s, _).
            rbind (handle_request_vote env (w\<lparr>store := s\<rparr>) req) (\<lambda>(w, resp).
              Inr (w, [RpcReply resp_tx (RequestVoteR resp)])))
      | AppendEntries req \<Rightarrow>
          rbind (update_term env (store w) (ae_term req)) (\<lambda>(s, _).
            rbind (handle_append_entries env (w\<lparr>store := s, leader_id := Some (ae_leader_id req)\<rparr>) req)
              (\<lambda>(w, resp).
                Inr (w, [RpcReply resp_tx (AppendEntriesR resp), ResetElectionTimeout])))
      | ForwardClientRequest _ \<Rightarrow>
          Inr (w, [RpcReply resp_tx (ForwardClientRequestR (Inl Unavailable))]))"

text \<open>
  A request is forwarded in a task of its own, whose outcome \<open>forward_outcome\<close> describes: the
  leader's answer, or unavailable if the call fails. Any other kind of answer is unreachable.
\<close>

definition forward_client_request ::
  "Inner \<Rightarrow> 'cmd ClientRequest \<Rightarrow> nat \<Rightarrow> 'cmd effect list" where
  "forward_client_request w req resp_tx =
     (case leader_id w of
        Some leader \<Rightarrow>
          (case map_of (peer_clients w) leader of
             Some client \<Rightarrow> [CallForward leader req resp_tx]
           | None \<Rightarrow> [ClientReply (ClientTx resp_tx) (Inl Unavailable)])
      | None \<Rightarrow> [ClientReply (ClientTx resp_tx) (Inl Unavailable)])"

definition forward_outcome ::
  "TransportError + 'cmd RpcResponse \<Rightarrow> nat \<Rightarrow> 'cmd effect list result" where
  "forward_outcome res resp_tx =
     (case res of
        Inr (ForwardClientRequestR resp) \<Rightarrow> Inr [ClientReply (ClientTx resp_tx) resp]
      | Inl err \<Rightarrow> Inr [ClientReply (ClientTx resp_tx) (Inl Unavailable)]
      | _ \<Rightarrow> Inl Unreachable)"

definition follower_handle_client ::
  "Inner \<Rightarrow> 'cmd ClientRequest \<Rightarrow> nat \<Rightarrow> 'cmd effect list" where
  "follower_handle_client w req resp_tx =
     (case req of
        Debug \<Rightarrow> handle_debug ''Follower'' w (ClientTx resp_tx)
      | Apply _ \<Rightarrow> forward_client_request w req resp_tx)"

section \<open>Term and vote\<close>

text \<open>
  A vote request leaves the follower at the higher of the two terms. It votes for the candidate
  only if the request is of that term, and it has not voted in it for anyone else.
\<close>

lemma follower_vote_request:
  assumes "node_ok w" and "follower_handle_rpc env w (RequestVote req) tx = Inr (w', out)"
  shows "\<exists>resp. out = [RpcReply tx (RequestVoteR resp)] \<and> node_ok w' \<and> same_node w w'
    \<and> peer_clients w' = peer_clients w \<and> term_of w' = max (term_of w) (rv_term req)
    \<and> (rvr_vote_granted resp \<longleftrightarrow> term_of w \<le> rv_term req \<and> commit_index w \<le> rv_last_log_index req \<and>
        (term_of w < rv_term req \<or> vote_of w \<in> {None, Some (rv_candidate req)}))
    \<and> vote_of w' = (if rvr_vote_granted resp then Some (rv_candidate req)
                    else if term_of w < rv_term req then None else vote_of w)"
proof -
  from assms(2) obtain s b resp where s: "update_term env (store w) (rv_term req) = Inr (s, b)"
    and h: "handle_request_vote env (w\<lparr>store := s\<rparr>) req = Inr (w', resp)"
    and out: "out = [RpcReply tx (RequestVoteR resp)]"
    by (auto simp: follower_handle_rpc_def rbind_eq_Inr)
  from update_term_meta [OF _ s] assms(1) have u: "node_ok (w\<lparr>store := s\<rparr>)"
    "b \<longleftrightarrow> term_of w < rv_term req"
    "if b then current_term s = rv_term req \<and> voted_for s = None else s = store w"
    by (simp_all add: node_ok_def)
  from handle_request_vote_meta [OF u(1) h] u(2,3) out show ?thesis
    by (auto simp: same_node_def max_def not_less split: if_splits)
qed

text \<open>Any other RPC can only raise the term, and forgets the vote when it does.\<close>

definition term_step :: "Inner \<Rightarrow> Inner \<Rightarrow> bool" where
  "term_step w w' \<longleftrightarrow> term_of w' = term_of w \<and> vote_of w' = vote_of w \<or>
     term_of w < term_of w' \<and> vote_of w' = None"

lemma term_step_refl [simp]: "term_step w w"
  by (simp add: term_step_def)

lemma update_then_append:
  assumes "node_ok w" and "update_term env (store w) (ae_term req) = Inr (s, b)"
    and "handle_append_entries env (w\<lparr>store := s, leader_id := l\<rparr>) req = Inr (w', resp)"
  shows "node_ok w' \<and> same_node w w' \<and> peer_clients w' = peer_clients w \<and> term_step w w'
    \<and> term_of w' = max (term_of w) (ae_term req) \<and> (b \<longleftrightarrow> term_of w < ae_term req)"
proof -
  from update_term_meta [OF _ assms(2)] assms(1) have u:
    "node_ok (w\<lparr>store := s, leader_id := l\<rparr>)" "b \<longleftrightarrow> term_of w < ae_term req"
    "if b then current_term s = ae_term req \<and> voted_for s = None else s = store w"
    by (simp_all add: node_ok_def)
  from handle_append_entries_meta [OF u(1) assms(3)] u(2,3) show ?thesis
    by (auto simp: same_node_def max_def not_less term_step_def split: if_splits)
qed

lemma follower_other_rpc:
  assumes "node_ok w" and "follower_handle_rpc env w rpc tx = Inr (w', out)"
    and "\<And>req. rpc \<noteq> RequestVote req"
  shows "node_ok w' \<and> same_node w w' \<and> peer_clients w' = peer_clients w \<and> term_step w w'"
proof (cases rpc)
  case (AppendEntries req)
  with assms(2) obtain s b resp where s: "update_term env (store w) (ae_term req) = Inr (s, b)"
    and h: "handle_append_entries env (w\<lparr>store := s, leader_id := Some (ae_leader_id req)\<rparr>) req = Inr (w', resp)"
    and out: "out = [RpcReply tx (AppendEntriesR resp), ResetElectionTimeout]"
    by (auto simp: follower_handle_rpc_def rbind_eq_Inr)
  from update_then_append [OF assms(1) s h] out show ?thesis by simp
qed (use assms in \<open>auto simp: follower_handle_rpc_def\<close>)

text \<open>
  A deposed leader keeps its followers busy: its request is rejected, but the follower takes it for
  the leader all the same, to which it then forwards its clients, and puts off its own election.
\<close>

lemma stale_leader_followed:
  assumes "ae_term req < term_of w"
  shows "follower_handle_rpc env w (AppendEntries req) tx = Inr (w\<lparr>leader_id := Some (ae_leader_id req)\<rparr>,
    [RpcReply tx (AppendEntriesR \<lparr>aer_term = term_of w, aer_success = False\<rparr>), ResetElectionTimeout])"
proof -
  have "\<not> term_of w < ae_term req" using assms by simp
  with assms show ?thesis
    by (simp add: follower_handle_rpc_def update_term_def handle_append_entries_def)
qed

end
