(* ===== verification/Candidate.thy ===== *)
theory Candidate
  imports Follower
begin

text \<open>
  The candidate of raft/worker.rs: starting an election, and answering RPCs while it runs. The
  local variable \<^verbatim>\<open>votes\<close> of its loop is part of the node's state (theory Node).
\<close>

datatype StateChange = Continue | BecomeFollower

definition vote_for_self :: "'cmd env \<Rightarrow> Inner \<Rightarrow> Inner result" where
  "vote_for_self env w =
     rbind (set_voted_for env (store w) (Some (node_id w))) (\<lambda>s. Inr (w\<lparr>store := s\<rparr>))"

text \<open>
  One call per connected client, with the candidate's last entry (which is only read when there
  is a client). The tasks report each granted vote to this election.
\<close>

definition request_votes :: "'cmd env \<Rightarrow> Inner \<Rightarrow> 'cmd effect list result" where
  "request_votes env w =
     (let clients = filter (\<lambda>(p, c). connected c) (peer_clients w)
      in if clients = [] then Inr []
         else rbind (last_log_term env (store w)) (\<lambda>t.
                Inr (map (\<lambda>(p, c). CallVote p
                           \<lparr> rv_term = current_term (store w), rv_candidate = node_id w,
                             rv_last_log_index = last_log_index (store w), rv_last_log_term = t \<rparr>)
                       clients)))"

text \<open>What the task does with the outcome of its call: whether it reports a vote.\<close>

definition vote_outcome :: "TransportError + 'cmd RpcResponse \<Rightarrow> bool result" where
  "vote_outcome res =
     (case res of
        Inr (RequestVoteR resp) \<Rightarrow> Inr (rvr_vote_granted resp)
      | Inl err \<Rightarrow> Inr False
      | _ \<Rightarrow> Inl Unreachable)"

text \<open>The beginning of \<^verbatim>\<open>RaftWorker<Candidate>::next\<close>, up to its loop.\<close>

definition candidate_start :: "'cmd env \<Rightarrow> Inner \<Rightarrow> (Inner \<times> nat \<times> 'cmd effect list) result" where
  "candidate_start env w =
     rbind (increment_term env (store w)) (\<lambda>s.
       rbind (vote_for_self env (w\<lparr>store := s\<rparr>)) (\<lambda>w.
         rbind (request_votes env w) (\<lambda>out.
           Inr (w, 1, out @ [ResetElectionTimeout]))))"

definition candidate_handle_rpc ::
  "'cmd env \<Rightarrow> Inner \<Rightarrow> 'cmd RpcRequest \<Rightarrow> nat \<Rightarrow> (Inner \<times> 'cmd effect list \<times> StateChange) result" where
  "candidate_handle_rpc env w rpc resp_tx =
     (case rpc of
        RequestVote req \<Rightarrow>
          rbind (update_term env (store w) (rv_term req)) (\<lambda>(s, new_term).
            rbind (handle_request_vote env (w\<lparr>store := s\<rparr>) req) (\<lambda>(w, resp).
              Inr (w, [RpcReply resp_tx (RequestVoteR resp)],
                   if new_term then BecomeFollower else Continue)))
      | AppendEntries req \<Rightarrow>
          rbind (update_term env (store w) (ae_term req)) (\<lambda>(s, _).
            rbind (handle_append_entries env (w\<lparr>store := s\<rparr>) req) (\<lambda>(w, resp).
              Inr (w, [RpcReply resp_tx (AppendEntriesR resp)], BecomeFollower)))
      | ForwardClientRequest _ \<Rightarrow>
          Inr (w, [RpcReply resp_tx (ForwardClientRequestR (Inl Unavailable))], Continue))"

definition candidate_handle_client ::
  "Inner \<Rightarrow> 'cmd ClientRequest \<Rightarrow> nat \<Rightarrow> 'cmd effect list" where
  "candidate_handle_client w req resp_tx =
     (case req of
        Debug \<Rightarrow> handle_debug ''Candidate'' w (ClientTx resp_tx)
      | _ \<Rightarrow> [ClientReply (ClientTx resp_tx) (Inl Unavailable)])"

section \<open>Term and vote\<close>

definition vote_calls :: "'cmd effect list \<Rightarrow> (NodeId \<times> RequestVoteRequest) list" where
  "vote_calls out = List.map_filter (\<lambda>e. case e of CallVote p r \<Rightarrow> Some (p, r) | _ \<Rightarrow> None) out"

lemma vote_calls_append [simp]: "vote_calls (out @ out') = vote_calls out @ vote_calls out'"
  by (simp add: vote_calls_def List.map_filter_def)

lemma vote_calls_simps [simp]:
  "vote_calls [] = []"
  "vote_calls (CallVote p r # out) = (p, r) # vote_calls out"
  "vote_calls (RpcReply tx resp # out) = vote_calls out"
  "vote_calls (ClientReply rt res # out) = vote_calls out"
  "vote_calls (ApplyCmd c # out) = vote_calls out"
  "vote_calls (CallAppend p i j q # out) = vote_calls out"
  "vote_calls (CallForward p cr n # out) = vote_calls out"
  "vote_calls (ResetElectionTimeout # out) = vote_calls out"
  "vote_calls (ResetHeartbeat # out) = vote_calls out"
  by (simp_all add: vote_calls_def List.map_filter_def)

lemma vote_calls_map: "vote_calls (map (\<lambda>(p, c). CallVote p r) xs) = map (\<lambda>(p, c). (p, r)) xs"
  by (induction xs) auto

text \<open>All calls of an election carry the same request, one for each connected peer.\<close>

lemma request_votes_calls:
  assumes "request_votes env w = Inr out"
  obtains r where "rv_term r = term_of w" and "rv_candidate r = node_id w"
    and "rv_last_log_index r = last_log_index (store w)"
    and "vote_calls out = map (\<lambda>(p, c). (p, r)) (filter (\<lambda>(p, c). connected c) (peer_clients w))"
proof (cases "filter (\<lambda>(p, c). connected c) (peer_clients w) = []")
  case True
  with assms have "out = []" by (simp add: request_votes_def Let_def)
  with True that [of "\<lparr>rv_term = term_of w, rv_candidate = node_id w,
      rv_last_log_index = last_log_index (store w), rv_last_log_term = 0\<rparr>"] show ?thesis by simp
next
  case False
  with assms obtain t where "out = map (\<lambda>(p, c). CallVote p
      \<lparr>rv_term = term_of w, rv_candidate = node_id w,
       rv_last_log_index = last_log_index (store w), rv_last_log_term = t\<rparr>)
     (filter (\<lambda>(p, c). connected c) (peer_clients w))"
    by (auto simp: request_votes_def Let_def rbind_eq_Inr)
  with that [of "\<lparr>rv_term = term_of w, rv_candidate = node_id w,
      rv_last_log_index = last_log_index (store w), rv_last_log_term = t\<rparr>"] show ?thesis
    by (simp add: vote_calls_map)
qed

text \<open>An election starts in the next term with the candidate's own vote.\<close>

lemma candidate_start_meta:
  assumes "node_ok w" and "candidate_start env w = Inr (w', votes, out)"
  shows "node_ok w' \<and> same_node w w' \<and> peer_clients w' = peer_clients w
    \<and> commit_index w' = commit_index w \<and> last_log_index (store w') = last_log_index (store w)
    \<and> term_of w' = term_of w + 1 \<and> vote_of w' = Some (node_id w) \<and> votes = 1
    \<and> (\<exists>calls. request_votes env w' = Inr calls \<and> out = calls @ [ResetElectionTimeout])"
proof -
  from assms(2) obtain s s' calls where s: "increment_term env (store w) = Inr s"
    and s': "set_voted_for env s (Some (node_id w)) = Inr s'" and w': "w' = w\<lparr>store := s'\<rparr>"
    and c: "request_votes env w' = Inr calls" and out: "out = calls @ [ResetElectionTimeout]" "votes = 1"
    by (auto simp: candidate_start_def vote_for_self_def rbind_eq_Inr)
  from assms(1) have m: "meta_ok (store w)" "session_key (store w) = inner_session_key w"
    by (simp_all add: node_ok_def)
  note i = increment_term_meta [OF m(1) s]
  with set_voted_for_meta [OF _ s'] m(2) w' c out show ?thesis
    by (simp add: node_ok_def same_node_def)
qed

lemma candidate_vote_request:
  assumes "node_ok w" and "candidate_handle_rpc env w (RequestVote req) tx = Inr (w', out, ch)"
  shows "\<exists>resp. out = [RpcReply tx (RequestVoteR resp)] \<and> node_ok w' \<and> same_node w w'
    \<and> peer_clients w' = peer_clients w \<and> term_of w' = max (term_of w) (rv_term req)
    \<and> (ch = BecomeFollower \<longleftrightarrow> term_of w < rv_term req)
    \<and> (rvr_vote_granted resp \<longleftrightarrow> term_of w \<le> rv_term req \<and> commit_index w \<le> rv_last_log_index req \<and>
        (term_of w < rv_term req \<or> vote_of w \<in> {None, Some (rv_candidate req)}))
    \<and> vote_of w' = (if rvr_vote_granted resp then Some (rv_candidate req)
                    else if term_of w < rv_term req then None else vote_of w)"
proof -
  from assms(2) obtain s b resp where s: "update_term env (store w) (rv_term req) = Inr (s, b)"
    and h: "handle_request_vote env (w\<lparr>store := s\<rparr>) req = Inr (w', resp)"
    and out: "out = [RpcReply tx (RequestVoteR resp)]" "ch = (if b then BecomeFollower else Continue)"
    by (auto simp: candidate_handle_rpc_def rbind_eq_Inr)
  from update_term_meta [OF _ s] assms(1) have u: "node_ok (w\<lparr>store := s\<rparr>)"
    "b \<longleftrightarrow> term_of w < rv_term req"
    "if b then current_term s = rv_term req \<and> voted_for s = None else s = store w"
    by (simp_all add: node_ok_def)
  from handle_request_vote_meta [OF u(1) h] u(2,3) out show ?thesis
    by (auto simp: same_node_def max_def not_less split: if_splits)
qed

lemma candidate_other_rpc:
  assumes "node_ok w" and "candidate_handle_rpc env w rpc tx = Inr (w', out, ch)"
    and "\<And>req. rpc \<noteq> RequestVote req"
  shows "node_ok w' \<and> same_node w w' \<and> peer_clients w' = peer_clients w \<and> term_step w w'
    \<and> vote_calls out = [] \<and> (ch = Continue \<longrightarrow> w' = w)"
proof (cases rpc)
  case (AppendEntries req)
  with assms(2) obtain s b resp where s: "update_term env (store w) (ae_term req) = Inr (s, b)"
    and h: "handle_append_entries env (w\<lparr>store := s\<rparr>) req = Inr (w', resp)"
    and out: "out = [RpcReply tx (AppendEntriesR resp)]" "ch = BecomeFollower"
    by (auto simp: candidate_handle_rpc_def rbind_eq_Inr)
  have "handle_append_entries env (w\<lparr>store := s, leader_id := leader_id w\<rparr>) req = Inr (w', resp)"
    using h by simp
  from update_then_append [OF assms(1) s this] out show ?thesis by simp
qed (use assms in \<open>auto simp: candidate_handle_rpc_def\<close>)

end
