(* ===== verification/Leader.thy ===== *)
theory Leader
  imports Candidate
begin

text \<open>
  The leader of raft/worker.rs: replicating its log, handling the answers, advancing the commit
  index and acknowledging clients.
\<close>

section \<open>State and operations\<close>

text \<open>
  \<^verbatim>\<open>Leader\<close> without its response channel: an answer to one of its calls is an event of the
  node. A \<^verbatim>\<open>HashSet\<close> is a list without duplicates.
\<close>

record LeaderState =
  next_indices :: "(NodeId \<times> LogIndex) list"
  match_indices :: "(NodeId \<times> LogIndex) list"
  in_flight_client_requests :: "(LogIndex \<times> reply_to) list"
  in_flight_peers :: "NodeId list"

definition MAX_BATCH_SIZE :: u64 where
  "MAX_BATCH_SIZE = 100"

text \<open>The derived and the hand-written \<^verbatim>\<open>Debug\<close> instances, as they appear in a dump.\<close>

fun join_with :: "string \<Rightarrow> string list \<Rightarrow> string" where
  "join_with sep [] = []"
| "join_with sep [x] = x"
| "join_with sep (x # y # ys) = x @ sep @ join_with sep (y # ys)"

definition debug_map :: "(u64 \<times> u64) list \<Rightarrow> string" where
  "debug_map m = ''{'' @ join_with '', '' (map (\<lambda>(k, v). to_string k @ '': '' @ to_string v) m) @ ''}''"

definition debug_leader :: "LeaderState \<Rightarrow> string" where
  "debug_leader l =
     ''Leader { next_indices: '' @ debug_map (next_indices l) @
     '', match_indices: '' @ debug_map (match_indices l) @
     '', in_flight_peers: {'' @ join_with '', '' (map to_string (in_flight_peers l)) @ ''} }''"

text \<open>\<^verbatim>\<open>From<RaftWorker<Candidate>> for RaftWorker<Leader>\<close>\<close>

definition become_leader :: "Inner \<Rightarrow> Inner \<times> LeaderState" where
  "become_leader w =
     (w\<lparr>leader_id := Some (node_id w)\<rparr>,
      \<lparr> next_indices = map (\<lambda>p. (p, last_log_index (store w) + 1)) (peers w),
        match_indices = map (\<lambda>p. (p, 0)) (peers w),
        in_flight_client_requests = [], in_flight_peers = [] \<rparr>)"

text \<open>The loop of \<^verbatim>\<open>advance_commit_index\<close>, over the indices it visits.\<close>

definition agree :: "LeaderState \<Rightarrow> LogIndex \<Rightarrow> nat" where
  "agree l n = length (filter (\<lambda>(_, idx). n \<le> idx) (match_indices l))"

fun commit_loop :: "'cmd env \<Rightarrow> LeaderState \<Rightarrow> Inner \<Rightarrow> LogIndex list \<Rightarrow> Inner result" where
  "commit_loop env l w [] = Inr w"
| "commit_loop env l w (n # ns) =
     (if agree l n < quorum w - 1 then Inr w
      else rbind (get_log env (store w) n) (\<lambda>x.
             case x of
               None \<Rightarrow> Inl UnwrapNone
             | Some e \<Rightarrow>
                 if le_term e \<noteq> current_term (store w) then Inr w
                 else commit_loop env l (w\<lparr>commit_index := n\<rparr>) ns))"

text \<open>The acknowledgements: each index that was committed now, and that a client waits for.\<close>

definition ack_requests :: "LeaderState \<Rightarrow> LogIndex list \<Rightarrow> LeaderState \<times> 'cmd effect list" where
  "ack_requests l idxs =
     foldl (\<lambda>(l, out) idx.
        case map_of (in_flight_client_requests l) idx of
          Some tx \<Rightarrow> (l\<lparr>in_flight_client_requests := AList.delete idx (in_flight_client_requests l)\<rparr>,
                      out @ [ClientReply tx (Inr Ack)])
        | None \<Rightarrow> (l, out)) (l, []) idxs"

definition advance_commit_index ::
  "'cmd env \<Rightarrow> Inner \<Rightarrow> LeaderState \<Rightarrow> (Inner \<times> LeaderState \<times> 'cmd effect list) result" where
  "advance_commit_index env w l =
     (let next_commit_index = commit_index w + 1
      in rbind (commit_loop env l w (range_incl next_commit_index (last_log_index (store w)))) (\<lambda>w.
           let (l, out) = ack_requests l (range_incl next_commit_index (commit_index w))
           in Inr (w, l, out)))"

text \<open>One call to a peer, unless it is unknown, disconnected or busy with an earlier one.\<close>

definition append_entries ::
  "'cmd env \<Rightarrow> Inner \<Rightarrow> LeaderState \<Rightarrow> NodeId \<Rightarrow> (LeaderState \<times> 'cmd effect list) result" where
  "append_entries env w l peer_id =
     (case map_of (peer_clients w) peer_id of
        None \<Rightarrow> Inr (l, [])
      | Some client \<Rightarrow>
          if \<not> connected client then Inr (l, [])
          else if peer_id \<in> set (in_flight_peers l) then Inr (l, [])
          else case map_of (next_indices l) peer_id of
                 None \<Rightarrow> Inl UnwrapNone
               | Some next_index \<Rightarrow>
                   (let prev_log_index = next_index - 1
                    in rbind (if 0 < prev_log_index
                              then rbind (get_log env (store w) prev_log_index) (\<lambda>x.
                                     case x of None \<Rightarrow> Inl UnwrapNone | Some e \<Rightarrow> Inr (le_term e))
                              else Inr 0) (\<lambda>prev_log_term.
                       rbind (sublog env (store w) (range_excl next_index (next_index + MAX_BATCH_SIZE)))
                         (\<lambda>entries.
                           let last_entry = (if entries = [] then last_log_index (store w) else le_idx (last entries));
                               first_entry = (if entries = [] then last_entry else le_idx (hd entries));
                               req = \<lparr> ae_term = current_term (store w), ae_leader_id = node_id w,
                                       ae_prev_log_index = prev_log_index, ae_prev_log_term = prev_log_term,
                                       ae_entries = entries, ae_leader_commit = commit_index w \<rparr>
                           in Inr (l\<lparr>in_flight_peers := List.insert peer_id (in_flight_peers l)\<rparr>,
                                   [CallAppend peer_id first_entry last_entry req])))))"

fun append_entries_all ::
  "'cmd env \<Rightarrow> Inner \<Rightarrow> LeaderState \<Rightarrow> NodeId list \<Rightarrow> (LeaderState \<times> 'cmd effect list) result" where
  "append_entries_all env w l [] = Inr (l, [])"
| "append_entries_all env w l (p # ps) =
     rbind (append_entries env w l p) (\<lambda>(l, out).
       rbind (append_entries_all env w l ps) (\<lambda>(l, out'). Inr (l, out @ out')))"

definition handle_append_entries_response ::
  "'cmd env \<Rightarrow> Inner \<Rightarrow> LeaderState \<Rightarrow> NodeId \<Rightarrow> LogIndex \<Rightarrow> LogIndex \<Rightarrow> TransportError + 'cmd RpcResponse \<Rightarrow>
   (Inner \<times> LeaderState \<times> 'cmd effect list \<times> StateChange) result" where
  "handle_append_entries_response env w l peer_id first_idx last_idx res =
     (let l = l\<lparr>in_flight_peers := removeAll peer_id (in_flight_peers l)\<rparr>
      in case res of
           Inl err \<Rightarrow> Inr (w, l, [], Continue)
         | Inr (AppendEntriesR resp) \<Rightarrow>
             rbind (update_term env (store w) (aer_term resp)) (\<lambda>(s, newer).
               let w = w\<lparr>store := s\<rparr>
               in if newer then Inr (w, l, [], BecomeFollower)
                  else if aer_term resp < current_term (store w) then Inr (w, l, [], Continue)
                  else case map_of (next_indices l) peer_id of
                         None \<Rightarrow> Inl UnwrapNone
                       | Some next \<Rightarrow>
                           if aer_success resp
                           then case map_of (match_indices l) peer_id of
                                  None \<Rightarrow> Inl UnwrapNone
                                | Some m \<Rightarrow>
                                    Inr (w, l\<lparr>next_indices := AList.update peer_id (max next (last_idx + 1)) (next_indices l),
                                              match_indices := AList.update peer_id (max m last_idx) (match_indices l)\<rparr>,
                                         [], Continue)
                           else rbind (append_entries env w
                                    (l\<lparr>next_indices := AList.update peer_id (min next (first_idx - 1)) (next_indices l)\<rparr>)
                                    peer_id) (\<lambda>(l, out). Inr (w, l, out, Continue)))
         | Inr _ \<Rightarrow> Inl Unreachable)"

definition handle_log_update ::
  "'cmd env \<Rightarrow> Inner \<Rightarrow> LeaderState \<Rightarrow> 'cmd \<Rightarrow> reply_to \<Rightarrow> (Inner \<times> LeaderState \<times> 'cmd effect list) result" where
  "handle_log_update env w l cmd resp_tx =
     (let idx = last_log_index (store w) + 1;
          entry = \<lparr> le_cmd = cmd, le_term = current_term (store w), le_idx = idx \<rparr>
      in rbind (append_log env (store w) entry) (\<lambda>s.
           let w = w\<lparr>store := s\<rparr>;
               l = l\<lparr>in_flight_client_requests := AList.update idx resp_tx (in_flight_client_requests l)\<rparr>
           in rbind (append_entries_all env w l (peers w)) (\<lambda>(l, out). Inr (w, l, out))))"

definition handle_client_request ::
  "'cmd env \<Rightarrow> Inner \<Rightarrow> LeaderState \<Rightarrow> 'cmd ClientRequest \<Rightarrow> reply_to \<Rightarrow>
   (Inner \<times> LeaderState \<times> 'cmd effect list) result" where
  "handle_client_request env w l req resp_tx =
     (case req of
        Apply cmd \<Rightarrow>
          rbind (handle_log_update env w l cmd resp_tx) (\<lambda>(w, l, out).
            Inr (w, l, out @ [ResetHeartbeat]))
      | Debug \<Rightarrow> Inr (w, l, handle_debug (debug_leader l) w resp_tx))"

definition leader_handle_rpc ::
  "'cmd env \<Rightarrow> Inner \<Rightarrow> LeaderState \<Rightarrow> 'cmd RpcRequest \<Rightarrow> nat \<Rightarrow>
   (Inner \<times> LeaderState \<times> 'cmd effect list \<times> StateChange) result" where
  "leader_handle_rpc env w l rpc resp_tx =
     (let term = current_term (store w)
      in case rpc of
           AppendEntries req \<Rightarrow>
             rbind (update_term env (store w) (ae_term req)) (\<lambda>(s, newer).
               let w = w\<lparr>store := s\<rparr>
               in if newer
                  then rbind (handle_append_entries env w req) (\<lambda>(w, resp).
                         Inr (w, l, [RpcReply resp_tx (AppendEntriesR resp)], BecomeFollower))
                  else Inr (w, l, [RpcReply resp_tx (AppendEntriesR \<lparr>aer_term = term, aer_success = False\<rparr>)],
                            Continue))
         | RequestVote req \<Rightarrow>
             rbind (update_term env (store w) (rv_term req)) (\<lambda>(s, newer).
               let w = w\<lparr>store := s\<rparr>
               in if newer
                  then rbind (handle_request_vote env w req) (\<lambda>(w, resp).
                         Inr (w, l, [RpcReply resp_tx (RequestVoteR resp)], BecomeFollower))
                  else Inr (w, l, [RpcReply resp_tx (RequestVoteR \<lparr>rvr_term = term, rvr_vote_granted = False\<rparr>)],
                            Continue))
         | ForwardClientRequest req \<Rightarrow>
             rbind (handle_client_request env w l req (RelayTx resp_tx)) (\<lambda>(w, l, out).
               Inr (w, l, out, Continue)))"

text \<open>The heartbeat branch of the loop.\<close>

definition leader_heartbeat ::
  "'cmd env \<Rightarrow> Inner \<Rightarrow> LeaderState \<Rightarrow> (LeaderState \<times> 'cmd effect list) result" where
  "leader_heartbeat env w l =
     rbind (append_entries_all env w l (peers w)) (\<lambda>(l, out). Inr (l, out @ [ResetHeartbeat]))"

end
