(* ===== verification/Node.thy ===== *)
theory Node
  imports Leader
begin

text \<open>
  A node of raft/worker.rs as a state machine: \<^verbatim>\<open>RaftWorkerState\<close>, and one step for every branch
  of the \<^verbatim>\<open>select!\<close> of its role. Between steps a node waits at its \<^verbatim>\<open>select!\<close>: what the code
  does on entering a role and at the top of each iteration of its loop belongs to the step that
  leads there.
\<close>

section \<open>States, events, steps\<close>

datatype RaftWorkerState =
    Follower Inner
  | Candidate Inner nat
  | Leader Inner LeaderState

fun inner_of :: "RaftWorkerState \<Rightarrow> Inner" where
  "inner_of (Follower w) = w"
| "inner_of (Candidate w votes) = w"
| "inner_of (Leader w l) = w"

text \<open>
  \<open>TimerEvent\<close> is the election timeout of a follower or candidate and the heartbeat of a leader;
  \<open>VoteEvent\<close> a vote that a task of the running election reports; \<open>AppendResponse\<close> the outcome
  of an append-entries call; \<open>ConnectionLost\<close> a call that clears a client's \<^verbatim>\<open>connected\<close> flag.
\<close>

datatype 'cmd event =
    RpcEvent "'cmd RpcRequest" nat
  | ClientEvent "'cmd ClientRequest" nat
  | PeerEvent NodeId
  | TimerEvent
  | VoteEvent
  | AppendResponse NodeId LogIndex LogIndex "TransportError + 'cmd RpcResponse"
  | ConnectionLost NodeId

text \<open>The top of each role's loop, where it applies (and a leader first commits) entries.\<close>

definition follower_wait :: "'cmd env \<Rightarrow> Inner \<Rightarrow> (RaftWorkerState \<times> 'cmd effect list) result" where
  "follower_wait env w = rbind (apply_log env w) (\<lambda>(w, out). Inr (Follower w, out))"

definition candidate_wait :: "'cmd env \<Rightarrow> Inner \<Rightarrow> nat \<Rightarrow> (RaftWorkerState \<times> 'cmd effect list) result" where
  "candidate_wait env w votes = rbind (apply_log env w) (\<lambda>(w, out). Inr (Candidate w votes, out))"

definition leader_wait :: "'cmd env \<Rightarrow> Inner \<Rightarrow> LeaderState \<Rightarrow> (RaftWorkerState \<times> 'cmd effect list) result" where
  "leader_wait env w l =
     rbind (advance_commit_index env w l) (\<lambda>(w, l, out).
       rbind (apply_log env w) (\<lambda>(w, out'). Inr (Leader w l, out @ out')))"

text \<open>Effects of a handler followed by those of what comes next.\<close>

definition after :: "'cmd effect list \<Rightarrow> (RaftWorkerState \<times> 'cmd effect list) result \<Rightarrow>
    (RaftWorkerState \<times> 'cmd effect list) result" where
  "after out r = rbind r (\<lambda>(st, out'). Inr (st, out @ out'))"

definition to_follower :: "'cmd env \<Rightarrow> Inner \<Rightarrow> (RaftWorkerState \<times> 'cmd effect list) result" where
  "to_follower env w = after [ResetElectionTimeout] (follower_wait env w)"

definition to_candidate :: "'cmd env \<Rightarrow> Inner \<Rightarrow> (RaftWorkerState \<times> 'cmd effect list) result" where
  "to_candidate env w =
     rbind (candidate_start env w) (\<lambda>(w, votes, out). after out (candidate_wait env w votes))"

definition to_leader :: "'cmd env \<Rightarrow> Inner \<Rightarrow> (RaftWorkerState \<times> 'cmd effect list) result" where
  "to_leader env w = (let (w, l) = become_leader w in leader_wait env w l)"

definition connection_lost :: "Inner \<Rightarrow> NodeId \<Rightarrow> Inner" where
  "connection_lost w p =
     w\<lparr>peer_clients := map (\<lambda>(q, c). (q, if q = p then c\<lparr>connected := False\<rparr> else c)) (peer_clients w)\<rparr>"

definition follower_step ::
  "'cmd env \<Rightarrow> Inner \<Rightarrow> 'cmd event \<Rightarrow> (RaftWorkerState \<times> 'cmd effect list) result" where
  "follower_step env w ev =
     (case ev of
        RpcEvent req tx \<Rightarrow>
          rbind (follower_handle_rpc env w req tx) (\<lambda>(w, out). after out (follower_wait env w))
      | ClientEvent req tx \<Rightarrow> after (follower_handle_client w req tx) (follower_wait env w)
      | PeerEvent p \<Rightarrow> follower_wait env (handle_new_peer w p)
      | TimerEvent \<Rightarrow> to_candidate env (w\<lparr>leader_id := None\<rparr>)
      | ConnectionLost p \<Rightarrow> follower_wait env (connection_lost w p)
      | _ \<Rightarrow> Inr (Follower w, []))"

definition candidate_step ::
  "'cmd env \<Rightarrow> Inner \<Rightarrow> nat \<Rightarrow> 'cmd event \<Rightarrow> (RaftWorkerState \<times> 'cmd effect list) result" where
  "candidate_step env w votes ev =
     (case ev of
        VoteEvent \<Rightarrow>
          if quorum w \<le> votes + 1 then to_leader env w else candidate_wait env w (votes + 1)
      | RpcEvent req tx \<Rightarrow>
          rbind (candidate_handle_rpc env w req tx) (\<lambda>(w, out, ch).
            after out (if ch = BecomeFollower then to_follower env w else candidate_wait env w votes))
      | ClientEvent req tx \<Rightarrow> after (candidate_handle_client w req tx) (candidate_wait env w votes)
      | PeerEvent p \<Rightarrow> candidate_wait env (handle_new_peer w p) votes
      | TimerEvent \<Rightarrow> to_candidate env w
      | ConnectionLost p \<Rightarrow> candidate_wait env (connection_lost w p) votes
      | _ \<Rightarrow> Inr (Candidate w votes, []))"

definition leader_step ::
  "'cmd env \<Rightarrow> Inner \<Rightarrow> LeaderState \<Rightarrow> 'cmd event \<Rightarrow> (RaftWorkerState \<times> 'cmd effect list) result" where
  "leader_step env w l ev =
     (case ev of
        AppendResponse p i j res \<Rightarrow>
          rbind (handle_append_entries_response env w l p i j res) (\<lambda>(w, l, out, ch).
            after out (if ch = BecomeFollower then to_follower env w else leader_wait env w l))
      | RpcEvent req tx \<Rightarrow>
          rbind (leader_handle_rpc env w l req tx) (\<lambda>(w, l, out, ch).
            after out (if ch = BecomeFollower then to_follower env w else leader_wait env w l))
      | ClientEvent req tx \<Rightarrow>
          rbind (handle_client_request env w l req (ClientTx tx)) (\<lambda>(w, l, out).
            after out (leader_wait env w l))
      | PeerEvent p \<Rightarrow> leader_wait env (handle_new_peer w p) l
      | TimerEvent \<Rightarrow>
          rbind (leader_heartbeat env w l) (\<lambda>(l, out). after out (leader_wait env w l))
      | ConnectionLost p \<Rightarrow> leader_wait env (connection_lost w p) l
      | _ \<Rightarrow> Inr (Leader w l, []))"

definition worker_step ::
  "'cmd env \<Rightarrow> RaftWorkerState \<Rightarrow> 'cmd event \<Rightarrow> (RaftWorkerState \<times> 'cmd effect list) result" where
  "worker_step env st ev =
     (case st of
        Follower w \<Rightarrow> follower_step env w ev
      | Candidate w votes \<Rightarrow> candidate_step env w votes ev
      | Leader w l \<Rightarrow> leader_step env w l ev)"

end
