(* ===== verification/Steps.thy ===== *)
theory Steps
  imports Node
begin

text \<open>
  A step of a node in two parts: the handler of its event, and then the wait of the role it ends
  in, which touches neither the storage nor the peers. The relation \<open>handled\<close> lists the handlers,
  one rule for each branch of the three \<^verbatim>\<open>select!\<close> loops; the proofs about steps go through it.
\<close>

section \<open>Frames\<close>

datatype role = FollowerRole | CandidateRole nat | LeaderRole

fun role_of :: "RaftWorkerState \<Rightarrow> role" where
  "role_of (RaftWorkerState.Follower w) = FollowerRole"
| "role_of (RaftWorkerState.Candidate w votes) = CandidateRole votes"
| "role_of (RaftWorkerState.Leader w l) = LeaderRole"

text \<open>
  \<open>quiet w w'\<close>: the storage, the identity and the connections are untouched; only the indices
  and the known leader may differ. \<open>local out\<close>: the effects reach clients, the state machine
  or timers, but no peer and no RPC.
\<close>

definition quiet :: "Inner \<Rightarrow> Inner \<Rightarrow> bool" where
  "quiet w w' \<longleftrightarrow> store w' = store w \<and> same_node w w' \<and> peer_clients w' = peer_clients w"

definition is_local :: "'cmd effect \<Rightarrow> bool" where
  "is_local e = (case e of ClientReply _ _ \<Rightarrow> True | ApplyCmd _ \<Rightarrow> True
     | ResetElectionTimeout \<Rightarrow> True | ResetHeartbeat \<Rightarrow> True | _ \<Rightarrow> False)"

abbreviation all_local :: "'cmd effect list \<Rightarrow> bool" where
  "all_local out \<equiv> list_all is_local out"

lemma is_local_simps [simp]:
  "is_local (ClientReply rt res)" "is_local (ApplyCmd c)" "is_local ResetElectionTimeout"
  "is_local ResetHeartbeat" "\<not> is_local (RpcReply tx resp)" "\<not> is_local (CallVote p r)"
  "\<not> is_local (CallAppend p i j q)" "\<not> is_local (CallForward p cr n)"
  by (simp_all add: is_local_def)

lemma quiet_refl [simp]: "quiet w w"
  by (simp add: quiet_def)

lemma quiet_trans: "quiet w w' \<Longrightarrow> quiet w' w'' \<Longrightarrow> quiet w w''"
  by (auto simp: quiet_def intro: same_node_trans)

lemma quiet_leader_id [simp]: "quiet (w\<lparr>leader_id := l\<rparr>) w' \<longleftrightarrow> quiet w w'"
  by (simp add: quiet_def same_node_def)

lemma quiet_node_ok: "quiet w w' \<Longrightarrow> node_ok w' \<longleftrightarrow> node_ok w"
  by (auto simp: quiet_def node_ok_def same_node_def)

lemma vote_calls_local: "all_local out \<Longrightarrow> vote_calls out = []"
  by (induction out) (auto simp: vote_calls_def List.map_filter_def is_local_def split: effect.splits)

lemma apply_log_quiet:
  assumes "apply_log env w = Inr (w', out)"
  shows "quiet w w' \<and> all_local out \<and> commit_index w' = commit_index w"
  using assms by (rule apply_log_frame) (auto simp: quiet_def same_node_def list_all_iff)

lemma commit_loop_quiet:
  "commit_loop env l w ns = Inr w' \<Longrightarrow> quiet w w'"
proof (induction env l w ns rule: commit_loop.induct)
  case (1 env l w)
  then show ?case by simp
next
  case (2 env l w n ns)
  show ?case
  proof (cases "w' = w")
    case False
    with 2(2) obtain e where e: "get_log env (store w) n = Inr (Some e)" "agree l n \<ge> quorum w - 1"
      "le_term e = term_of w" "commit_loop env l (w\<lparr>commit_index := n\<rparr>) ns = Inr w'"
      by (auto simp: rbind_eq_Inr split: if_splits option.splits)
    then have "quiet (w\<lparr>commit_index := n\<rparr>) w'" by (intro 2(1)) auto
    then show ?thesis by (simp add: quiet_def same_node_def)
  qed simp
qed

lemma ack_requests_local: "all_local (snd (ack_requests l idxs))"
proof -
  have "all_local out \<Longrightarrow> all_local (snd (foldl (\<lambda>(l, out) idx.
        case map_of (in_flight_client_requests l) idx of
          Some tx \<Rightarrow> (l\<lparr>in_flight_client_requests := AList.delete idx (in_flight_client_requests l)\<rparr>,
                      out @ [ClientReply tx (Inr Ack)])
        | None \<Rightarrow> (l, out)) (l, out) idxs))" for l out
    by (induction idxs arbitrary: l out) (auto split: option.splits)
  from this [of "[]"] show ?thesis by (simp add: ack_requests_def)
qed

lemma advance_commit_index_quiet:
  assumes "advance_commit_index env w l = Inr (w', l', out)"
  shows "quiet w w' \<and> all_local out"
proof -
  from assms obtain ns where "commit_loop env l w ns = Inr w'"
    and "(l', out) = ack_requests l (range_incl (commit_index w + 1) (commit_index w'))"
    by (auto simp: advance_commit_index_def Let_def rbind_eq_Inr split: prod.splits)
  with commit_loop_quiet ack_requests_local show ?thesis by (metis snd_conv)
qed

text \<open>What follows a handler: waiting in a role.\<close>

lemma follower_wait_quiet:
  assumes "follower_wait env w = Inr (st, out)"
  shows "\<exists>w'. st = RaftWorkerState.Follower w' \<and> quiet w w' \<and> all_local out"
  using assms by (auto simp: follower_wait_def rbind_eq_Inr dest!: apply_log_quiet)

lemma candidate_wait_quiet:
  assumes "candidate_wait env w votes = Inr (st, out)"
  shows "\<exists>w'. st = RaftWorkerState.Candidate w' votes \<and> quiet w w' \<and> all_local out"
  using assms by (auto simp: candidate_wait_def rbind_eq_Inr dest!: apply_log_quiet)

lemma leader_wait_quiet:
  assumes "leader_wait env w l = Inr (st, out)"
  shows "\<exists>w' l'. st = RaftWorkerState.Leader w' l' \<and> quiet w w' \<and> all_local out"
  using assms
  by (auto simp: leader_wait_def rbind_eq_Inr dest!: apply_log_quiet advance_commit_index_quiet
      intro: quiet_trans)

lemma after_eq_Inr: "after out r = Inr (st, out') \<longleftrightarrow> (\<exists>o'. r = Inr (st, o') \<and> out' = out @ o')"
  by (auto simp: after_def rbind_eq_Inr)

lemma to_follower_quiet:
  assumes "to_follower env w = Inr (st, out)"
  shows "\<exists>w'. st = RaftWorkerState.Follower w' \<and> quiet w w' \<and> all_local out"
  using assms by (auto simp: to_follower_def after_eq_Inr dest!: follower_wait_quiet)

lemma to_leader_quiet:
  assumes "to_leader env w = Inr (st, out)"
  shows "\<exists>w' l'. st = RaftWorkerState.Leader w' l' \<and> quiet w w' \<and> all_local out"
  using assms by (auto simp: to_leader_def become_leader_def Let_def dest!: leader_wait_quiet)

section \<open>Handlers\<close>

inductive handled ::
  "'cmd env \<Rightarrow> RaftWorkerState \<Rightarrow> 'cmd event \<Rightarrow> Inner \<Rightarrow> 'cmd effect list \<Rightarrow> role \<Rightarrow> bool"
  for env :: "'cmd env" where
  follower_rpc: "follower_handle_rpc env w rpc tx = Inr (w', out) \<Longrightarrow>
    handled env (RaftWorkerState.Follower w) (RpcEvent rpc tx) w' out FollowerRole"
| follower_client:
    "handled env (RaftWorkerState.Follower w) (ClientEvent req tx) w (follower_handle_client w req tx) FollowerRole"
| follower_timeout: "candidate_start env (w\<lparr>leader_id := None\<rparr>) = Inr (w', v, out) \<Longrightarrow>
    handled env (RaftWorkerState.Follower w) TimerEvent w' out (CandidateRole v)"
| candidate_rpc: "candidate_handle_rpc env w rpc tx = Inr (w', out, ch) \<Longrightarrow>
    handled env (RaftWorkerState.Candidate w v) (RpcEvent rpc tx) w' out
      (if ch = BecomeFollower then FollowerRole else CandidateRole v)"
| candidate_client:
    "handled env (RaftWorkerState.Candidate w v) (ClientEvent req tx) w (candidate_handle_client w req tx) (CandidateRole v)"
| candidate_timeout: "candidate_start env w = Inr (w', v', out) \<Longrightarrow>
    handled env (RaftWorkerState.Candidate w v) TimerEvent w' out (CandidateRole v')"
| candidate_vote:
    "handled env (RaftWorkerState.Candidate w v) VoteEvent w []
      (if quorum w \<le> v + 1 then LeaderRole else CandidateRole (v + 1))"
| leader_rpc: "leader_handle_rpc env w l rpc tx = Inr (w', l', out, ch) \<Longrightarrow>
    handled env (RaftWorkerState.Leader w l) (RpcEvent rpc tx) w' out
      (if ch = BecomeFollower then FollowerRole else LeaderRole)"
| leader_response: "handle_append_entries_response env w l p i j res = Inr (w', l', out, ch) \<Longrightarrow>
    handled env (RaftWorkerState.Leader w l) (AppendResponse p i j res) w' out
      (if ch = BecomeFollower then FollowerRole else LeaderRole)"
| leader_client: "handle_client_request env w l req (ClientTx tx) = Inr (w', l', out) \<Longrightarrow>
    handled env (RaftWorkerState.Leader w l) (ClientEvent req tx) w' out LeaderRole"
| leader_timer: "leader_heartbeat env w l = Inr (l', out) \<Longrightarrow>
    handled env (RaftWorkerState.Leader w l) TimerEvent w out LeaderRole"
| peer: "handled env st (PeerEvent p) (handle_new_peer (inner_of st) p) [] (role_of st)"
| lost: "handled env st (ConnectionLost p) (connection_lost (inner_of st) p) [] (role_of st)"
| ignored: "ev = VoteEvent \<or> ev = AppendResponse p i j res \<Longrightarrow>
    handled env st ev (inner_of st) [] (role_of st)"

text \<open>The waits that follow a handler, by the role the node ends in.\<close>

inductive waits :: "'cmd env \<Rightarrow> Inner \<Rightarrow> role \<Rightarrow> (RaftWorkerState \<times> 'cmd effect list) result \<Rightarrow> bool"
  for env :: "'cmd env" where
  follower: "waits env w FollowerRole (follower_wait env w)"
| falls_back: "waits env w FollowerRole (to_follower env w)"
| candidate: "waits env w (CandidateRole v) (candidate_wait env w v)"
| leader: "waits env w LeaderRole (leader_wait env w l)"
| takes_over: "waits env w LeaderRole (to_leader env w)"

declare waits.intros [simp]

lemma waits_quiet:
  assumes "waits env w r (Inr (st', out))"
  shows "role_of st' = r \<and> quiet w (inner_of st') \<and> all_local out"
  using assms by cases (auto simp: eq_commute [of "Inr (st', out)"] dest!: follower_wait_quiet to_follower_quiet candidate_wait_quiet
      leader_wait_quiet to_leader_quiet)

text \<open>
  What \<open>handled\<close> and the wait make of a step. An event that a role has no branch for changes nothing.
\<close>

definition step_parts ::
  "'cmd env \<Rightarrow> RaftWorkerState \<Rightarrow> 'cmd event \<Rightarrow> RaftWorkerState \<Rightarrow> 'cmd effect list \<Rightarrow> bool" where
  "step_parts env st ev st' out \<longleftrightarrow> (\<exists>w o1 o2. handled env st ev w o1 (role_of st') \<and> out = o1 @ o2
     \<and> waits env w (role_of st') (Inr (st', o2))) \<or>
     handled env st ev (inner_of st) [] (role_of st) \<and> st' = st \<and> out = []"

lemma step_partsI:
  assumes "handled env st ev w o1 r" and "waits env w r res" and "after o1 res = Inr (st', out)"
  shows "step_parts env st ev st' out"
proof -
  from assms(3) obtain o2 where "res = Inr (st', o2)" "out = o1 @ o2" by (auto simp: after_eq_Inr)
  with assms(1,2) waits_quiet show ?thesis unfolding step_parts_def by metis
qed

lemma after_Nil: "after [] res = res"
  by (simp add: after_def rbind_def split: sum.splits)

lemma stay_parts:
  assumes "handled env st ev w [] r" and "waits env w r res" and "res = Inr (st', out)"
  shows "step_parts env st ev st' out"
  using step_partsI [OF assms(1,2)] assms(3) by (simp add: after_Nil)

lemma ignored_parts:
  assumes "ev = VoteEvent \<or> ev = AppendResponse p i j res" and "Inr (st, []) = Inr (st', out)"
  shows "step_parts env st ev st' out"
  using assms handled.ignored [OF assms(1), of env st] by (auto simp: step_parts_def)

lemma follower_step_parts:
  assumes "follower_step env w ev = Inr (st', out)"
  shows "step_parts env (RaftWorkerState.Follower w) ev st' out"
proof (cases ev)
  case (RpcEvent rpc tx)
  with assms obtain w1 o1 where "follower_handle_rpc env w rpc tx = Inr (w1, o1)"
    "after o1 (follower_wait env w1) = Inr (st', out)"
    by (auto simp: follower_step_def rbind_eq_Inr)
  then show ?thesis unfolding RpcEvent by (rule step_partsI [OF handled.follower_rpc waits.follower])
next
  case (ClientEvent req tx)
  with assms have "after (follower_handle_client w req tx) (follower_wait env w) = Inr (st', out)"
    by (simp add: follower_step_def)
  then show ?thesis unfolding ClientEvent by (rule step_partsI [OF handled.follower_client waits.follower])
next
  case (PeerEvent p)
  with assms have a: "follower_wait env (handle_new_peer w p) = Inr (st', out)" by (simp add: follower_step_def)
  show ?thesis unfolding PeerEvent by (rule stay_parts [OF handled.peer _ a]) simp
next
  case TimerEvent
  with assms obtain w1 v o1 where "candidate_start env (w\<lparr>leader_id := None\<rparr>) = Inr (w1, v, o1)"
    "after o1 (candidate_wait env w1 v) = Inr (st', out)"
    by (auto simp: follower_step_def to_candidate_def rbind_eq_Inr)
  then show ?thesis unfolding TimerEvent by (rule step_partsI [OF handled.follower_timeout waits.candidate])
next
  case (ConnectionLost p)
  with assms have a: "follower_wait env (connection_lost w p) = Inr (st', out)" by (simp add: follower_step_def)
  show ?thesis unfolding ConnectionLost by (rule stay_parts [OF handled.lost _ a]) simp
qed (use assms in \<open>auto simp: follower_step_def intro: ignored_parts\<close>)

lemma candidate_step_parts:
  assumes "candidate_step env w v ev = Inr (st', out)"
  shows "step_parts env (RaftWorkerState.Candidate w v) ev st' out"
proof (cases ev)
  case (RpcEvent rpc tx)
  with assms obtain w1 o1 ch where h: "candidate_handle_rpc env w rpc tx = Inr (w1, o1, ch)"
    and a: "after o1 (if ch = BecomeFollower then to_follower env w1 else candidate_wait env w1 v) = Inr (st', out)"
    by (auto simp: candidate_step_def rbind_eq_Inr)
  show ?thesis unfolding RpcEvent by (rule step_partsI [OF handled.candidate_rpc [OF h] _ a]) simp
next
  case (ClientEvent req tx)
  with assms have "after (candidate_handle_client w req tx) (candidate_wait env w v) = Inr (st', out)"
    by (simp add: candidate_step_def)
  then show ?thesis unfolding ClientEvent by (rule step_partsI [OF handled.candidate_client waits.candidate])
next
  case (PeerEvent p)
  with assms have a: "candidate_wait env (handle_new_peer w p) v = Inr (st', out)" by (simp add: candidate_step_def)
  show ?thesis unfolding PeerEvent by (rule stay_parts [OF handled.peer _ a]) simp
next
  case TimerEvent
  with assms obtain w1 v' o1 where "candidate_start env w = Inr (w1, v', o1)"
    "after o1 (candidate_wait env w1 v') = Inr (st', out)"
    by (auto simp: candidate_step_def to_candidate_def rbind_eq_Inr)
  then show ?thesis unfolding TimerEvent by (rule step_partsI [OF handled.candidate_timeout waits.candidate])
next
  case VoteEvent
  with assms have a: "(if quorum w \<le> v + 1 then to_leader env w else candidate_wait env w (v + 1)) = Inr (st', out)"
    by (simp add: candidate_step_def)
  show ?thesis unfolding VoteEvent by (rule stay_parts [OF handled.candidate_vote _ a]) simp
next
  case (ConnectionLost p)
  with assms have a: "candidate_wait env (connection_lost w p) v = Inr (st', out)" by (simp add: candidate_step_def)
  show ?thesis unfolding ConnectionLost by (rule stay_parts [OF handled.lost _ a]) simp
qed (use assms in \<open>auto simp: candidate_step_def intro: ignored_parts\<close>)

lemma leader_step_parts:
  assumes "leader_step env w l ev = Inr (st', out)"
  shows "step_parts env (RaftWorkerState.Leader w l) ev st' out"
proof (cases ev)
  case (RpcEvent rpc tx)
  with assms obtain w1 l1 o1 ch where h: "leader_handle_rpc env w l rpc tx = Inr (w1, l1, o1, ch)"
    and a: "after o1 (if ch = BecomeFollower then to_follower env w1 else leader_wait env w1 l1) = Inr (st', out)"
    by (auto simp: leader_step_def rbind_eq_Inr)
  show ?thesis unfolding RpcEvent by (rule step_partsI [OF handled.leader_rpc [OF h] _ a]) simp
next
  case (ClientEvent req tx)
  with assms obtain w1 l1 o1 where h: "handle_client_request env w l req (ClientTx tx) = Inr (w1, l1, o1)"
    and a: "after o1 (leader_wait env w1 l1) = Inr (st', out)"
    by (auto simp: leader_step_def rbind_eq_Inr)
  show ?thesis unfolding ClientEvent by (rule step_partsI [OF handled.leader_client [OF h] waits.leader a])
next
  case (PeerEvent p)
  with assms have a: "leader_wait env (handle_new_peer w p) l = Inr (st', out)" by (simp add: leader_step_def)
  show ?thesis unfolding PeerEvent by (rule stay_parts [OF handled.peer _ a]) simp
next
  case TimerEvent
  with assms obtain l1 o1 where h: "leader_heartbeat env w l = Inr (l1, o1)"
    and a: "after o1 (leader_wait env w l1) = Inr (st', out)"
    by (auto simp: leader_step_def rbind_eq_Inr)
  show ?thesis unfolding TimerEvent by (rule step_partsI [OF handled.leader_timer [OF h] waits.leader a])
next
  case (AppendResponse p i j res)
  with assms obtain w1 l1 o1 ch where h: "handle_append_entries_response env w l p i j res = Inr (w1, l1, o1, ch)"
    and a: "after o1 (if ch = BecomeFollower then to_follower env w1 else leader_wait env w1 l1) = Inr (st', out)"
    by (auto simp: leader_step_def rbind_eq_Inr)
  show ?thesis unfolding AppendResponse by (rule step_partsI [OF handled.leader_response [OF h] _ a]) simp
next
  case (ConnectionLost p)
  with assms have a: "leader_wait env (connection_lost w p) l = Inr (st', out)" by (simp add: leader_step_def)
  show ?thesis unfolding ConnectionLost by (rule stay_parts [OF handled.lost _ a]) simp
qed (use assms in \<open>auto simp: leader_step_def intro: ignored_parts\<close>)

theorem worker_step_waits:
  assumes "worker_step env st ev = Inr (st', out)"
  shows "step_parts env st ev st' out"
  using assms follower_step_parts candidate_step_parts leader_step_parts by (cases st) (simp_all add: worker_step_def)

theorem worker_step_parts:
  assumes "worker_step env st ev = Inr (st', out)"
  obtains w o1 o2 where "handled env st ev w o1 (role_of st')" and "out = o1 @ o2"
    and "quiet w (inner_of st')" and "all_local o2"
  using worker_step_waits [OF assms] that
  by (auto simp: step_parts_def dest!: waits_quiet)

end
