(* ===== verification/Election.thy ===== *)
theory Election
  imports Steps
begin

text \<open>
  What one step of a node (theory Node) does to its term, its vote and its role, whatever the
  rest of the step does. The lemmas classify the steps: a vote request, the start of an election,
  a vote that is counted, and everything else, which can only adopt a higher term or step down.
  The cluster's election safety rests on nothing more.
\<close>

section \<open>No votes\<close>

definition no_vote :: "'cmd effect \<Rightarrow> bool" where
  "no_vote e = (case e of CallVote _ _ \<Rightarrow> False | RpcReply _ (RequestVoteR _) \<Rightarrow> False | _ \<Rightarrow> True)"

abbreviation no_votes :: "'cmd effect list \<Rightarrow> bool" where
  "no_votes out \<equiv> list_all no_vote out"

lemma no_vote_simps [simp]:
  "no_vote (ClientReply rt res)" "no_vote (ApplyCmd c)" "no_vote ResetElectionTimeout"
  "no_vote ResetHeartbeat" "\<not> no_vote (RpcReply tx (RequestVoteR vr))" "\<not> no_vote (CallVote p r)"
  "no_vote (RpcReply tx (AppendEntriesR ar))" "no_vote (RpcReply tx (ForwardClientRequestR fr))"
  "no_vote (CallAppend p i j q)" "no_vote (CallForward p cr n)"
  by (simp_all add: no_vote_def)

lemma local_no_vote: "is_local e \<Longrightarrow> no_vote e"
  by (auto simp: is_local_def no_vote_def split: effect.splits)

lemma all_local_no_votes: "all_local out \<Longrightarrow> no_votes out"
  by (auto simp: list_all_iff local_no_vote)

lemma no_votes_calls: "no_votes out \<Longrightarrow> vote_calls out = []"
  by (induction out) (auto simp: vote_calls_def List.map_filter_def no_vote_def split: effect.splits)

lemma append_entries_no_votes:
  assumes "append_entries env w l p = Inr (l', out)"
  shows "no_votes out"
  using assms
  by (auto simp: append_entries_def Let_def rbind_eq_Inr split: option.splits if_splits)

lemma append_entries_all_no_votes:
  "append_entries_all env w l ps = Inr (l', out) \<Longrightarrow> no_votes out"
  by (induction ps arbitrary: l l' out)
    (auto simp: rbind_eq_Inr dest: append_entries_no_votes split: prod.splits)

section \<open>The leader's handlers\<close>

text \<open>Handling clients keeps the term and the vote.\<close>

lemma handle_log_update_meta:
  assumes "node_ok w" and "handle_log_update env w l cmd tx = Inr (w', l', out)"
  shows "node_ok w' \<and> same_node w w' \<and> peer_clients w' = peer_clients w
    \<and> term_of w' = term_of w \<and> vote_of w' = vote_of w \<and> no_votes out"
  using assms append_log_meta [of "store w" env]
  by (fastforce simp: handle_log_update_def Let_def rbind_eq_Inr node_ok_def same_node_def
      same_vote_def dest: append_entries_all_no_votes)

lemma handle_client_request_meta:
  assumes "node_ok w" and "handle_client_request env w l req tx = Inr (w', l', out)"
  shows "node_ok w' \<and> same_node w w' \<and> peer_clients w' = peer_clients w
    \<and> term_of w' = term_of w \<and> vote_of w' = vote_of w \<and> no_votes out"
  using assms handle_log_update_meta [OF assms(1)]
  by (cases req) (fastforce simp: handle_client_request_def handle_debug_def rbind_eq_Inr)+

lemma update_term_node:
  assumes "node_ok w" and "update_term env (store w) t = Inr (s, b)"
  shows "node_ok (w\<lparr>store := s\<rparr>)" and "b \<longleftrightarrow> term_of w < t" and "term_of (w\<lparr>store := s\<rparr>) = max (term_of w) t"
    and "term_step w (w\<lparr>store := s\<rparr>)" and "\<not> b \<Longrightarrow> s = store w" and "b \<Longrightarrow> voted_for s = None"
  using update_term_meta [OF _ assms(2)] assms(1)
  by (auto simp: node_ok_def term_step_def max_def not_less split: if_splits)

lemma handle_append_entries_response_meta:
  assumes "node_ok w" and "handle_append_entries_response env w l p i j res = Inr (w', l', out, ch)"
  shows "node_ok w' \<and> same_node w w' \<and> peer_clients w' = peer_clients w \<and> term_step w w'
    \<and> no_votes out \<and> (ch = Continue \<longrightarrow> w' = w)"
proof (cases res)
  case (Inl err)
  with assms show ?thesis by (simp add: handle_append_entries_response_def Let_def)
next
  case (Inr r)
  show ?thesis
  proof (cases r)
    case (AppendEntriesR resp)
    with assms(2) Inr obtain s b where s: "update_term env (store w) (aer_term resp) = Inr (s, b)"
      by (auto simp: handle_append_entries_response_def Let_def rbind_eq_Inr)
    note u = update_term_node [OF assms(1) s]
    have "w' = w\<lparr>store := s\<rparr> \<and> no_votes out \<and> (ch = Continue \<longrightarrow> \<not> b)"
      using assms(2) Inr AppendEntriesR s
      by (auto simp: handle_append_entries_response_def Let_def rbind_eq_Inr
          dest: append_entries_no_votes split: if_splits option.splits)
    with u show ?thesis by (auto simp: same_node_def)
  qed (use assms Inr in \<open>auto simp: handle_append_entries_response_def Let_def\<close>)
qed

lemma leader_other_rpc:
  assumes ok: "node_ok w" and h: "leader_handle_rpc env w l rpc tx = Inr (w', l', out, ch)"
    and "\<And>req. rpc \<noteq> RequestVote req"
  shows "node_ok w' \<and> same_node w w' \<and> peer_clients w' = peer_clients w \<and> term_step w w'
    \<and> no_votes out \<and> (ch = Continue \<longrightarrow> term_of w' = term_of w \<and> vote_of w' = vote_of w)"
proof (cases rpc)
  case (AppendEntries req)
  with h obtain s b where s: "update_term env (store w) (ae_term req) = Inr (s, b)"
    by (auto simp: leader_handle_rpc_def Let_def rbind_eq_Inr)
  note u = update_term_node [OF ok s]
  show ?thesis
  proof (cases b)
    case True
    with h AppendEntries s obtain resp
      where "handle_append_entries env (w\<lparr>store := s, leader_id := leader_id w\<rparr>) req = Inr (w', resp)"
        "out = [RpcReply tx (AppendEntriesR resp)]" "ch = BecomeFollower"
      by (auto simp: leader_handle_rpc_def Let_def rbind_eq_Inr)
    with update_then_append [OF ok s this(1)] show ?thesis by simp
  next
    case False
    with h AppendEntries s u show ?thesis
      by (auto simp: leader_handle_rpc_def Let_def same_node_def)
  qed
next
  case (ForwardClientRequest req)
  with h have "handle_client_request env w l req (RelayTx tx) = Inr (w', l', out)" "ch = Continue"
    by (auto simp: leader_handle_rpc_def Let_def rbind_eq_Inr)
  with handle_client_request_meta [OF ok this(1)] show ?thesis by (simp add: term_step_def)
qed (use assms(3) in auto)

lemma leader_vote_request:
  assumes ok: "node_ok w" and h: "leader_handle_rpc env w l (RequestVote req) tx = Inr (w', l', out, ch)"
  shows "\<exists>resp. out = [RpcReply tx (RequestVoteR resp)] \<and> node_ok w' \<and> same_node w w'
    \<and> peer_clients w' = peer_clients w \<and> term_of w' = max (term_of w) (rv_term req)
    \<and> (ch = BecomeFollower \<longleftrightarrow> term_of w < rv_term req)
    \<and> (rvr_vote_granted resp \<longleftrightarrow> term_of w < rv_term req \<and> commit_index w \<le> rv_last_log_index req)
    \<and> vote_of w' = (if rvr_vote_granted resp then Some (rv_candidate req)
                    else if term_of w < rv_term req then None else vote_of w)"
proof -
  from h obtain s b where s: "update_term env (store w) (rv_term req) = Inr (s, b)"
    by (auto simp: leader_handle_rpc_def Let_def rbind_eq_Inr)
  note u = update_term_node [OF ok s]
  show ?thesis
  proof (cases b)
    case True
    with h s obtain resp where r: "handle_request_vote env (w\<lparr>store := s\<rparr>) req = Inr (w', resp)"
      and out: "out = [RpcReply tx (RequestVoteR resp)]" "ch = BecomeFollower"
      by (auto simp: leader_handle_rpc_def Let_def rbind_eq_Inr)
    from handle_request_vote_meta [OF u(1) r] u True out show ?thesis
      by (auto simp: same_node_def)
  next
    case False
    with h s u have "w' = w" and "out = [RpcReply tx (RequestVoteR \<lparr>rvr_term = term_of w, rvr_vote_granted = False\<rparr>)]"
      and "ch = Continue" by (auto simp: leader_handle_rpc_def Let_def)
    with False u ok show ?thesis by (simp add: max_def not_less)
  qed
qed

section \<open>A step\<close>

definition known :: "Inner \<Rightarrow> NodeId set" where
  "known w = fst ` set (peer_clients w)"

definition clients_ok :: "Inner \<Rightarrow> bool" where
  "clients_ok w \<longleftrightarrow> distinct (map fst (peer_clients w))"

lemma quiet_known: "quiet w w' \<Longrightarrow> known w' = known w \<and> (clients_ok w' \<longleftrightarrow> clients_ok w)"
  by (simp add: quiet_def known_def clients_ok_def)

lemma handle_new_peer_meta:
  "node_ok (handle_new_peer w p) = node_ok w" "same_node w (handle_new_peer w p)"
  "store (handle_new_peer w p) = store w" "known (handle_new_peer w p) = insert p (known w)"
  "clients_ok w \<Longrightarrow> clients_ok (handle_new_peer w p)"
  by (simp_all add: handle_new_peer_def node_ok_def same_node_def known_def clients_ok_def
      dom_update distinct_update)

lemma connection_lost_meta:
  "node_ok (connection_lost w p) = node_ok w" "same_node w (connection_lost w p)"
  "store (connection_lost w p) = store w" "known (connection_lost w p) = known w"
  "clients_ok (connection_lost w p) = clients_ok w"
  by (simp_all add: connection_lost_def node_ok_def same_node_def known_def clients_ok_def
      image_image case_prod_unfold comp_def)

text \<open>How a vote request is answered. A leader never votes in its own term.\<close>

definition vote_answered ::
  "bool \<Rightarrow> RequestVoteRequest \<Rightarrow> Inner \<Rightarrow> Inner \<Rightarrow> RequestVoteResponse \<Rightarrow> bool" where
  "vote_answered leader req w w' resp \<longleftrightarrow>
     node_ok w' \<and> same_node w w' \<and> peer_clients w' = peer_clients w
     \<and> term_of w' = max (term_of w) (rv_term req)
     \<and> (rvr_vote_granted resp \<longleftrightarrow> commit_index w \<le> rv_last_log_index req \<and>
        (term_of w < rv_term req \<or>
         term_of w = rv_term req \<and> \<not> leader \<and> vote_of w \<in> {None, Some (rv_candidate req)}))
     \<and> vote_of w' = (if rvr_vote_granted resp then Some (rv_candidate req)
        else if term_of w < rv_term req then None else vote_of w)"

lemma vote_answered_quiet:
  "vote_answered b req w w1 resp \<Longrightarrow> quiet w1 w' \<Longrightarrow> vote_answered b req w w' resp"
  using quiet_node_ok [of w1 w'] by (auto simp: vote_answered_def quiet_def intro: same_node_trans)

lemma follower_vote_answered:
  assumes "node_ok w" and "follower_handle_rpc env w (RequestVote req) tx = Inr (w', out)"
  obtains resp where "out = [RpcReply tx (RequestVoteR resp)]" "vote_answered False req w w' resp"
  using follower_vote_request [OF assms] that by (auto simp: vote_answered_def order.order_iff_strict)

lemma candidate_vote_answered:
  assumes "node_ok w" and "candidate_handle_rpc env w (RequestVote req) tx = Inr (w', out, ch)"
  obtains resp where "out = [RpcReply tx (RequestVoteR resp)]" "vote_answered False req w w' resp"
    "ch = BecomeFollower \<longleftrightarrow> term_of w < rv_term req"
  using candidate_vote_request [OF assms] that by (auto simp: vote_answered_def order.order_iff_strict)

lemma leader_vote_answered:
  assumes "node_ok w" and "leader_handle_rpc env w l (RequestVote req) tx = Inr (w', l', out, ch)"
  obtains resp where "out = [RpcReply tx (RequestVoteR resp)]" "vote_answered True req w w' resp"
    "ch = BecomeFollower \<longleftrightarrow> term_of w < rv_term req"
  using leader_vote_request [OF assms] that by (auto simp: vote_answered_def)

text \<open>The request is answered first; the other effects of the step are local.\<close>

lemma handled_vote_request:
  assumes "node_ok (inner_of st)" and "handled env st (RpcEvent (RequestVote req) tx) w out r"
  obtains resp where "out = [RpcReply tx (RequestVoteR resp)]"
    and "vote_answered (role_of st = LeaderRole) req (inner_of st) w resp"
    and "r = (if term_of (inner_of st) < rv_term req then FollowerRole else role_of st)"
  using assms(2)
proof cases
  case (follower_rpc w0)
  have "node_ok w0" using assms(1) follower_rpc(1) by simp
  from this follower_rpc(3) obtain resp where "out = [RpcReply tx (RequestVoteR resp)]" "vote_answered False req w0 w resp"
    by (rule follower_vote_answered)
  then show ?thesis using follower_rpc(1,2) by (intro that) simp_all
next
  case (candidate_rpc w0 ch v)
  have "node_ok w0" using assms(1) candidate_rpc(1) by simp
  from this candidate_rpc(3) obtain resp where "out = [RpcReply tx (RequestVoteR resp)]"
    "vote_answered False req w0 w resp" "ch = BecomeFollower \<longleftrightarrow> term_of w0 < rv_term req"
    by (rule candidate_vote_answered)
  then show ?thesis using candidate_rpc(1,2) by (intro that) simp_all
next
  case (leader_rpc w0 l l' ch)
  have "node_ok w0" using assms(1) leader_rpc(1) by simp
  from this leader_rpc(3) obtain resp where "out = [RpcReply tx (RequestVoteR resp)]"
    "vote_answered True req w0 w resp" "ch = BecomeFollower \<longleftrightarrow> term_of w0 < rv_term req"
    by (rule leader_vote_answered)
  then show ?thesis using leader_rpc(1,2) by (intro that) simp_all
qed auto

lemma step_vote_request:
  assumes ok: "node_ok (inner_of st)"
    and step: "worker_step env st (RpcEvent (RequestVote req) tx) = Inr (st', out)"
  obtains resp rest where "out = RpcReply tx (RequestVoteR resp) # rest" and "all_local rest"
    and "vote_answered (role_of st = LeaderRole) req (inner_of st) (inner_of st') resp"
    and "role_of st' = (if term_of (inner_of st) < rv_term req then FollowerRole else role_of st)"
proof -
  from worker_step_parts [OF step] obtain w o1 o2
    where h: "handled env st (RpcEvent (RequestVote req) tx) w o1 (role_of st')"
      and q: "out = o1 @ o2" "quiet w (inner_of st')" "all_local o2" .
  from handled_vote_request [OF ok h] obtain resp where "o1 = [RpcReply tx (RequestVoteR resp)]"
    "vote_answered (role_of st = LeaderRole) req (inner_of st) w resp"
    "role_of st' = (if term_of (inner_of st) < rv_term req then FollowerRole else role_of st)" .
  with q vote_answered_quiet show ?thesis by (intro that) auto
qed

text \<open>An election: the next term, the node's own vote, one call for each connected client.\<close>

definition starts_election :: "Inner \<Rightarrow> Inner \<Rightarrow> 'cmd effect list \<Rightarrow> bool" where
  "starts_election w w' out \<longleftrightarrow> node_ok w' \<and> same_node w w' \<and> peer_clients w' = peer_clients w
     \<and> term_of w' = term_of w + 1 \<and> vote_of w' = Some (node_id w)
     \<and> (\<exists>calls req rest. out = map (\<lambda>p. CallVote p req) calls @ rest \<and> all_local rest
        \<and> calls = map fst (filter (\<lambda>(p, c). connected c) (peer_clients w))
        \<and> rv_term req = term_of w' \<and> rv_candidate req = node_id w)"

lemma request_votes_shape:
  assumes "request_votes env w = Inr out"
  obtains req where "out = map (\<lambda>p. CallVote p req) (map fst (filter (\<lambda>(p, c). connected c) (peer_clients w)))"
    and "rv_term req = term_of w" and "rv_candidate req = node_id w"
proof (cases "filter (\<lambda>(p, c). connected c) (peer_clients w) = []")
  case True
  with assms that [of "\<lparr>rv_term = term_of w, rv_candidate = node_id w, rv_last_log_index = 0, rv_last_log_term = 0\<rparr>"]
  show ?thesis by (simp add: request_votes_def Let_def)
next
  case False
  with assms obtain t where "out = map (\<lambda>p. CallVote p \<lparr>rv_term = term_of w, rv_candidate = node_id w,
      rv_last_log_index = last_log_index (store w), rv_last_log_term = t\<rparr>)
      (map fst (filter (\<lambda>(p, c). connected c) (peer_clients w)))"
    by (auto simp: request_votes_def Let_def rbind_eq_Inr case_prod_unfold comp_def)
  then show ?thesis by (rule that) simp_all
qed

lemma to_candidate_starts:
  assumes ok: "node_ok w" and h: "to_candidate env w = Inr (st', out)"
  shows "role_of st' = CandidateRole 1 \<and> starts_election w (inner_of st') out"
proof -
  from h obtain w1 v o1 o2 where s: "candidate_start env w = Inr (w1, v, o1)"
    and f: "candidate_wait env w1 v = Inr (st', o2)" and out: "out = o1 @ o2"
    by (auto simp: to_candidate_def rbind_eq_Inr after_eq_Inr)
  note m = candidate_start_meta [OF ok s]
  from m obtain calls where c: "request_votes env w1 = Inr calls" "o1 = calls @ [ResetElectionTimeout]"
    by auto
  obtain req where r: "calls = map (\<lambda>p. CallVote p req) (map fst (filter (\<lambda>(p, c). connected c) (peer_clients w1)))"
    "rv_term req = term_of w1" "rv_candidate req = node_id w1"
    by (rule request_votes_shape [OF c(1)]) blast
  from candidate_wait_quiet [OF f] obtain w' where q: "st' = RaftWorkerState.Candidate w' v" "quiet w1 w'"
    "all_local o2" by auto
  have out': "out = map (\<lambda>p. CallVote p req) (map fst (filter (\<lambda>(p, c). connected c) (peer_clients w)))
      @ (ResetElectionTimeout # o2)" using out c r(1) m by simp
  have "all_local (ResetElectionTimeout # o2)" using q(3) by simp
  with out' m q r(2,3) quiet_node_ok [OF q(2)] show ?thesis unfolding starts_election_def
    by (intro conjI exI [of _ req] exI [of _ "ResetElectionTimeout # o2"])
      (auto simp: quiet_def same_node_def)
qed

lemma starts_election_leader_id [simp]:
  "starts_election (w\<lparr>leader_id := l\<rparr>) w' out \<longleftrightarrow> starts_election w w' out"
  by (simp add: starts_election_def same_node_def)

lemma step_timer:
  assumes ok: "node_ok (inner_of st)" and "role_of st \<noteq> LeaderRole"
    and "worker_step env st TimerEvent = Inr (st', out)"
  shows "role_of st' = CandidateRole 1 \<and> starts_election (inner_of st) (inner_of st') out"
proof (cases st)
  case (Follower w)
  with ok have "node_ok (w\<lparr>leader_id := None\<rparr>)" by (simp add: node_ok_def)
  with to_candidate_starts [OF this] assms Follower show ?thesis
    by (simp add: worker_step_def follower_step_def)
qed (use assms to_candidate_starts in \<open>auto simp: worker_step_def candidate_step_def\<close>)

text \<open>A vote is counted; with a quorum the candidate becomes the leader.\<close>

lemma step_vote:
  assumes ok: "node_ok w" and "worker_step env (RaftWorkerState.Candidate w v) VoteEvent = Inr (st', out)"
  shows "quiet w (inner_of st') \<and> all_local out
    \<and> role_of st' = (if quorum w \<le> v + 1 then LeaderRole else CandidateRole (v + 1))"
  using assms
  by (auto simp: worker_step_def candidate_step_def dest!: to_leader_quiet candidate_wait_quiet
      split: if_splits)

text \<open>Every other step adopts a higher term, steps down, or changes nothing about elections.\<close>

definition election_event :: "RaftWorkerState \<Rightarrow> 'cmd event \<Rightarrow> bool" where
  "election_event st ev \<longleftrightarrow> (case ev of
     RpcEvent (RequestVote _) _ \<Rightarrow> True
   | TimerEvent \<Rightarrow> role_of st \<noteq> LeaderRole
   | VoteEvent \<Rightarrow> (case st of RaftWorkerState.Candidate _ _ \<Rightarrow> True | _ \<Rightarrow> False)
   | _ \<Rightarrow> False)"

definition newly_known :: "'cmd event \<Rightarrow> NodeId set" where
  "newly_known ev = (case ev of PeerEvent p \<Rightarrow> {p} | _ \<Rightarrow> {})"

definition other_step :: "Inner \<Rightarrow> Inner \<Rightarrow> NodeId set \<Rightarrow> bool" where
  "other_step w w' new \<longleftrightarrow> node_ok w' \<and> same_node w w' \<and> term_step w w' \<and> known w' \<subseteq> known w \<union> new
     \<and> (clients_ok w \<longrightarrow> clients_ok w')"

lemma other_step_quiet: "other_step w w1 new \<Longrightarrow> quiet w1 w' \<Longrightarrow> other_step w w' new"
  using quiet_node_ok [of w1 w'] quiet_known [of w1 w']
  by (auto simp: other_step_def quiet_def term_step_def intro: same_node_trans)

lemma other_stepI:
  "node_ok w' \<Longrightarrow> same_node w w' \<Longrightarrow> term_step w w' \<Longrightarrow> peer_clients w' = peer_clients w \<Longrightarrow> other_step w w' new"
  by (auto simp: other_step_def known_def clients_ok_def)

text \<open>A state stays in its role with its term and vote.\<close>

definition stays :: "RaftWorkerState \<Rightarrow> RaftWorkerState \<Rightarrow> bool" where
  "stays st st' \<longleftrightarrow> role_of st' = role_of st \<and> term_of (inner_of st') = term_of (inner_of st) \<and>
     vote_of (inner_of st') = vote_of (inner_of st)"

definition other_handled :: "RaftWorkerState \<Rightarrow> Inner \<Rightarrow> role \<Rightarrow> 'cmd effect list \<Rightarrow> NodeId set \<Rightarrow> bool" where
  "other_handled st w r out new \<longleftrightarrow>
     (r = FollowerRole \<or> r = role_of st \<and> term_of w = term_of (inner_of st) \<and> vote_of w = vote_of (inner_of st))
     \<and> no_votes out \<and> other_step (inner_of st) w new"

lemma other_handledI:
  "node_ok w \<Longrightarrow> same_node (inner_of st) w \<Longrightarrow> term_step (inner_of st) w \<Longrightarrow>
   peer_clients w = peer_clients (inner_of st) \<Longrightarrow> no_votes out \<Longrightarrow>
   r = FollowerRole \<or> r = role_of st \<and> term_of w = term_of (inner_of st) \<and> vote_of w = vote_of (inner_of st) \<Longrightarrow>
   other_handled st w r out new"
  by (simp add: other_handled_def other_stepI)

lemma clients_no_votes [simp]:
  "no_votes (follower_handle_client w req tx)" "no_votes (candidate_handle_client w req tx)"
  by (auto simp: follower_handle_client_def candidate_handle_client_def handle_debug_def
      forward_client_request_def split: ClientRequest.splits option.splits)

lemma heartbeat_no_votes: "leader_heartbeat env w l = Inr (l', out) \<Longrightarrow> no_votes out"
  using append_entries_all_no_votes by (fastforce simp: leader_heartbeat_def rbind_eq_Inr)

lemma rpc_no_votes:
  assumes "\<And>req. rpc \<noteq> RequestVote req"
  shows "follower_handle_rpc env w rpc tx = Inr (w', out) \<Longrightarrow> no_votes out"
    and "candidate_handle_rpc env w rpc tx = Inr (w', out, ch) \<Longrightarrow> no_votes out"
  using assms
  by (cases rpc; auto simp: follower_handle_rpc_def candidate_handle_rpc_def rbind_eq_Inr)+

lemma handled_other:
  assumes ok: "node_ok (inner_of st)" and no: "\<not> election_event st ev" and h: "handled env st ev w out r"
  shows "other_handled st w r out (newly_known ev)"
  using h
proof cases
  case (follower_rpc w0 rpc tx)
  then have nr: "\<And>req. rpc \<noteq> RequestVote req" using no by (auto simp: election_event_def)
  from follower_other_rpc [OF _ follower_rpc(4) nr] rpc_no_votes(1) [OF nr follower_rpc(4)] ok follower_rpc(1-3)
  show ?thesis by (intro other_handledI) auto
next
  case (candidate_rpc w0 rpc tx ch v)
  then have nr: "\<And>req. rpc \<noteq> RequestVote req" using no by (auto simp: election_event_def)
  from candidate_other_rpc [OF _ candidate_rpc(4) nr] rpc_no_votes(2) [OF nr candidate_rpc(4)] ok candidate_rpc(1-3)
  show ?thesis by (intro other_handledI) (cases ch; auto)+
next
  case (leader_rpc w0 l rpc tx l' ch)
  then have nr: "\<And>req. rpc \<noteq> RequestVote req" using no by (auto simp: election_event_def)
  from leader_other_rpc [OF _ leader_rpc(4) nr] ok leader_rpc(1-3)
  show ?thesis by (intro other_handledI) (cases ch; auto)+
next
  case (leader_response w0 l p i j res l' ch)
  from handle_append_entries_response_meta [OF _ leader_response(4)] ok leader_response(1-3)
  show ?thesis by (intro other_handledI) (cases ch; auto)+
next
  case (leader_client w0 l req tx l')
  from handle_client_request_meta [OF _ leader_client(4)] ok leader_client(1-3)
  show ?thesis by (intro other_handledI) (auto simp: term_step_def)
next
  case (leader_timer l l')
  with ok heartbeat_no_votes show ?thesis by (intro other_handledI) auto
next
  case (peer p)
  with ok handle_new_peer_meta show ?thesis
    by (auto simp: other_handled_def other_step_def term_step_def newly_known_def)
next
  case (lost p)
  with ok connection_lost_meta show ?thesis
    by (auto simp: other_handled_def other_step_def term_step_def newly_known_def)
qed (use ok no in \<open>auto simp: election_event_def intro: other_handledI\<close>)

lemma step_other:
  assumes "node_ok (inner_of st)" and "\<not> election_event st ev" and "worker_step env st ev = Inr (st', out)"
  shows "role_of st' = FollowerRole \<or> stays st st'" and "no_votes out"
    and "other_step (inner_of st) (inner_of st') (newly_known ev)"
proof -
  from worker_step_parts [OF assms(3)] obtain w o1 o2 where h: "handled env st ev w o1 (role_of st')"
    and q: "out = o1 @ o2" "quiet w (inner_of st')" "all_local o2" .
  from handled_other [OF assms(1,2) h] have o: "other_handled st w (role_of st') o1 (newly_known ev)" .
  then show "role_of st' = FollowerRole \<or> stays st st'" "no_votes out"
    "other_step (inner_of st) (inner_of st') (newly_known ev)"
    using q all_local_no_votes [OF q(3)] other_step_quiet [OF _ q(2)]
    by (auto simp: other_handled_def stays_def quiet_def)
qed

end
