(* ===== verification/Voting.thy ===== *)
theory Voting
  imports Prelude
begin

text \<open>
  The abstract specification of elections: nodes with a term, a vote and a role, and three sets of
  tokens, one per phase of a vote between a candidate and a peer: called, granted, counted.
  \<open>ballot\<close> and \<open>elected\<close> are histories, which no step reads. The theory proves that a term has at
  most one leader, from the single fact that two quorums intersect.
\<close>

section \<open>Quorums\<close>

text \<open>What a quorum has to promise: any two of them share a member.\<close>

locale quorum_system =
  fixes members :: "'n set" and is_quorum :: "'n set \<Rightarrow> bool"
  assumes intersect: "is_quorum A \<Longrightarrow> is_quorum B \<Longrightarrow> A \<subseteq> members \<Longrightarrow> B \<subseteq> members \<Longrightarrow> A \<inter> B \<noteq> {}"
begin

text \<open>Two candidates with a quorum of ballots each, one ballot per member, are the same.\<close>

lemma one_winner:
  assumes "is_quorum A" and "is_quorum B" and "A \<subseteq> members" and "B \<subseteq> members"
    and "\<And>p. p \<in> A \<Longrightarrow> ballot p = Some c" and "\<And>p. p \<in> B \<Longrightarrow> ballot p = Some d"
  shows "c = d"
  using intersect [OF assms(1-4)] assms(5,6) by fastforce

end

text \<open>The quorum of the source: more than half of \<open>n\<close> nodes.\<close>

definition majority :: "nat \<Rightarrow> nat" where
  "majority n = n div 2 + 1"

lemma majorities_intersect:
  assumes "finite M" and "majority (card M) \<le> card A" and "majority (card M) \<le> card B"
    and "A \<subseteq> M" and "B \<subseteq> M"
  shows "A \<inter> B \<noteq> {}"
proof
  assume "A \<inter> B = {}"
  then have "card A + card B = card (A \<union> B)"
    using assms by (metis card_Un_disjoint rev_finite_subset)
  also have "\<dots> \<le> card M" using assms by (intro card_mono) auto
  finally have le: "card A + card B \<le> card M" .
  have "card M = 2 * (card M div 2) + card M mod 2" "card M mod 2 < 2" by simp_all
  with le assms(2,3) show False unfolding majority_def by linarith
qed

interpretation majorities: quorum_system "set ms" "\<lambda>A. majority (card (set ms)) \<le> card A" for ms :: "'n list"
  by unfold_locales (use majorities_intersect [of "set ms"] in simp)

section \<open>The system\<close>

datatype vrole = VFollower | VCandidate nat | VLeader

type_synonym ('n, 't) token = "'n \<times> 't \<times> 'n"

record ('n, 't) vsys =
  v_term :: "'n \<Rightarrow> 't"
  v_vote :: "'n \<Rightarrow> 'n option"
  v_role :: "'n \<Rightarrow> vrole"
  called :: "('n, 't) token set"
  granted :: "('n, 't) token set"
  counted :: "('n, 't) token set"
  ballot :: "'n \<Rightarrow> 't \<Rightarrow> 'n option"
  elected :: "('t \<times> 'n) set"

text \<open>
  A token \<open>(c, t, p)\<close> is about the vote of \<open>p\<close> for the candidate \<open>c\<close> in term \<open>t\<close>. Steps name the
  members and the quorum size; terms are words, and an election never starts from the last one.
\<close>

inductive vstep :: "'n set \<Rightarrow> nat \<Rightarrow> ('n, 't::len word) vsys \<Rightarrow> ('n, 't word) vsys \<Rightarrow> bool"
  for M :: "'n set" and q :: nat where
  idle: "vstep M q s s"
| adopt: "v_term s p < t \<Longrightarrow>
    vstep M q s (s\<lparr>v_term := (v_term s)(p := t), v_vote := (v_vote s)(p := None),
                   v_role := (v_role s)(p := VFollower)\<rparr>)"
| step_down: "vstep M q s (s\<lparr>v_role := (v_role s)(p := VFollower)\<rparr>)"
| start: "v_term s c \<noteq> - 1 \<Longrightarrow> c \<in> M \<Longrightarrow> P \<subseteq> M - {c} \<Longrightarrow>
    vstep M q s (s\<lparr>v_term := (v_term s)(c := v_term s c + 1), v_vote := (v_vote s)(c := Some c),
                   v_role := (v_role s)(c := VCandidate 1),
                   called := called s \<union> {(c, v_term s c + 1, p) | p. p \<in> P},
                   ballot := (ballot s)(c := (ballot s c)(v_term s c + 1 := Some c))\<rparr>)"
| grant: "(c, t, p) \<in> called s \<Longrightarrow>
    v_term s p < t \<or> v_term s p = t \<and> v_vote s p \<in> {None, Some c} \<Longrightarrow>
    vstep M q s (s\<lparr>v_term := (v_term s)(p := t), v_vote := (v_vote s)(p := Some c),
                   v_role := (v_role s)(p := if v_term s p < t then VFollower else v_role s p),
                   called := called s - {(c, t, p)}, granted := insert (c, t, p) (granted s),
                   ballot := (ballot s)(p := (ballot s p)(t := Some c))\<rparr>)"
| count: "(c, v_term s c, p) \<in> granted s \<Longrightarrow> v_role s c = VCandidate v \<Longrightarrow>
    vstep M q s (s\<lparr>v_role := (v_role s)(c := if q \<le> v + 1 then VLeader else VCandidate (v + 1)),
                   granted := granted s - {(c, v_term s c, p)},
                   counted := insert (c, v_term s c, p) (counted s),
                   elected := (if q \<le> v + 1 then insert (v_term s c, c) (elected s) else elected s)\<rparr>)"

inductive_cases vstepE: "vstep M q s s'"

section \<open>The invariant\<close>

definition voters :: "('n, 't) vsys \<Rightarrow> 'n \<Rightarrow> 't \<Rightarrow> 'n set" where
  "voters s c t = {p. (c, t, p) \<in> counted s}"

text \<open>
  A node has never cast a ballot in a term that it has not reached, and its vote is its ballot of
  the term it is in. Tokens never mix: each vote is called at most once, granted at most once,
  counted at most once, and was cast as a ballot if it was granted.
\<close>

definition ballots_ok :: "('n, 't::len word) vsys \<Rightarrow> bool" where
  "ballots_ok s \<longleftrightarrow> (\<forall>p t c. ballot s p t = Some c \<longrightarrow> t \<le> v_term s p) \<and>
     (\<forall>p. ballot s p (v_term s p) = v_vote s p)"

definition tokens_ok :: "'n set \<Rightarrow> ('n, 't::len word) vsys \<Rightarrow> bool" where
  "tokens_ok M s \<longleftrightarrow>
     (\<forall>c t p. (c, t, p) \<in> called s \<union> granted s \<union> counted s \<longrightarrow> t \<le> v_term s c \<and> p \<in> M \<and> p \<noteq> c) \<and>
     (\<forall>c t p. (c, t, p) \<in> granted s \<union> counted s \<longrightarrow> ballot s p t = Some c) \<and>
     called s \<inter> granted s = {} \<and> called s \<inter> counted s = {} \<and> granted s \<inter> counted s = {}"

definition candidates_ok :: "'n set \<Rightarrow> ('n, 't::len word) vsys \<Rightarrow> bool" where
  "candidates_ok M s \<longleftrightarrow> (\<forall>c v. v_role s c = VCandidate v \<longrightarrow>
     c \<in> M \<and> v_vote s c = Some c \<and> v = Suc (card (voters s c (v_term s c))))"

definition elected_ok :: "'n set \<Rightarrow> nat \<Rightarrow> ('n, 't::len word) vsys \<Rightarrow> bool" where
  "elected_ok M q s \<longleftrightarrow>
     (\<forall>t c. (t, c) \<in> elected s \<longrightarrow>
        c \<in> M \<and> ballot s c t = Some c \<and> q \<le> Suc (card (voters s c t))) \<and>
     (\<forall>c. v_role s c = VLeader \<longrightarrow> (v_term s c, c) \<in> elected s)"

definition voting_ok :: "'n set \<Rightarrow> nat \<Rightarrow> ('n, 't::len word) vsys \<Rightarrow> bool" where
  "voting_ok M q s \<longleftrightarrow> finite M \<and> ballots_ok s \<and> tokens_ok M s \<and> candidates_ok M s \<and> elected_ok M q s"

lemma voters_finite: "finite M \<Longrightarrow> tokens_ok M s \<Longrightarrow> finite (voters s c t)"
  by (rule finite_subset [of _ M]) (auto simp: voters_def tokens_ok_def)

lemma ballots_fresh: "ballots_ok s \<Longrightarrow> v_term s p < t \<Longrightarrow> ballot s p t = None"
  by (cases "ballot s p t") (auto simp: ballots_ok_def dest: leD)

lemma ballots_mono: "ballots_ok s \<Longrightarrow> ballot s p t = Some c \<Longrightarrow> v_term s p < t' \<Longrightarrow> t \<le> t'"
  by (meson ballots_ok_def less_imp_le order_trans)

lemma tokens_fresh:
  assumes "tokens_ok M s" and "v_term s c < t"
  shows "(c, t, p) \<notin> called s" "(c, t, p) \<notin> granted s" "(c, t, p) \<notin> counted s"
  using assms by (auto simp: tokens_ok_def dest: leD)

text \<open>No step changes a ballot that was cast.\<close>

lemma vstep_ballot:
  assumes "ballots_ok s" and "vstep M q s s'" and "ballot s p t = Some c"
  shows "ballot s' p t = Some c"
  using assms(2,3)
proof cases
  case (start c' P)
  have "\<not> v_term s c' + 1 \<le> v_term s c'" using word_less_plus_one [OF start(2)] by simp
  then have "ballot s c' (v_term s c' + 1) \<noteq> Some c" using assms(1) by (auto simp: ballots_ok_def)
  with start assms(3) show ?thesis by auto
next
  case (grant c' t' p')
  have "ballot s p' t' \<in> {None, Some c'}"
  proof (cases "v_term s p' < t'")
    case True
    then show ?thesis using ballots_fresh [OF assms(1)] by simp
  next
    case False
    with grant(3) assms(1) show ?thesis by (auto simp: ballots_ok_def)
  qed
  with grant assms(3) show ?thesis by auto
qed (use assms(3) in auto)

lemma vstep_term: "vstep M q s s' \<Longrightarrow> v_term s p \<le> v_term s' p"
  by (erule vstepE) (auto simp: less_imp_le word_less_plus_one)

lemma vstep_ballots:
  assumes ok: "ballots_ok s" and step: "vstep M q s s'"
  shows "ballots_ok s'"
  using step
proof cases
  case (adopt p t)
  then show ?thesis using ok ballots_fresh [OF ok adopt(2)] ballots_mono [OF ok _ adopt(2)]
    by (auto simp: ballots_ok_def)
next
  case (start c P)
  then show ?thesis using ok ballots_mono [OF ok _ word_less_plus_one [OF start(2)]]
    by (auto simp: ballots_ok_def)
next
  case (grant c t p)
  then have le: "v_term s p \<le> t" by auto
  have "ballot s p t' = Some d \<Longrightarrow> t' \<le> t" for t' d
    using ok le by (auto simp: ballots_ok_def intro: order_trans)
  with grant ok show ?thesis by (auto simp: ballots_ok_def)
qed (use ok in \<open>auto simp: ballots_ok_def\<close>)

lemma vstep_tokens:
  assumes bal: "ballots_ok s" and ok: "tokens_ok M s" and step: "vstep M q s s'"
  shows "tokens_ok M s'"
proof -
  note keep = vstep_ballot [OF bal step] and mono = vstep_term [OF step]
  have t: "t \<le> v_term s' c \<and> p \<in> M \<and> p \<noteq> c"
    if "(c, t, p) \<in> called s \<union> granted s \<union> counted s" for c t p
  proof -
    from ok that have "t \<le> v_term s c \<and> p \<in> M \<and> p \<noteq> c" unfolding tokens_ok_def by blast
    then show ?thesis using mono by (meson order_trans)
  qed
  have b: "ballot s' p t = Some c" if "(c, t, p) \<in> granted s \<union> counted s" for c t p
    using ok that keep unfolding tokens_ok_def by blast
  from ok have d: "called s \<inter> granted s = {}" "called s \<inter> counted s = {}" "granted s \<inter> counted s = {}"
    by (simp_all add: tokens_ok_def)
  have goal: ?thesis if "called s' \<subseteq> called s \<union> C" and "granted s' \<subseteq> granted s \<union> G" and "counted s' \<subseteq> counted s \<union> N"
    and "\<And>c t p. (c, t, p) \<in> C \<union> G \<union> N \<Longrightarrow> t \<le> v_term s' c \<and> p \<in> M \<and> p \<noteq> c"
    and "\<And>c t p. (c, t, p) \<in> G \<union> N \<Longrightarrow> ballot s' p t = Some c"
    and "called s' \<inter> granted s' = {}" and "called s' \<inter> counted s' = {}" and "granted s' \<inter> counted s' = {}"
    for C G N
  proof -
    have "\<And>c t p. (c, t, p) \<in> called s' \<union> granted s' \<union> counted s' \<Longrightarrow> t \<le> v_term s' c \<and> p \<in> M \<and> p \<noteq> c"
      using that(1-4) t by blast
    moreover have "\<And>c t p. (c, t, p) \<in> granted s' \<union> counted s' \<Longrightarrow> ballot s' p t = Some c"
      using that(2,3,5) b by blast
    ultimately show ?thesis using that(6-8) unfolding tokens_ok_def by blast
  qed
  from step show ?thesis
  proof cases
    case (start c P)
    note new = tokens_fresh [OF ok word_less_plus_one [OF start(2)]]
    show ?thesis
      by (rule goal [of "{(c, v_term s c + 1, p) | p. p \<in> P}" "{}" "{}"])
        (use start d new in \<open>auto simp: disjoint_iff\<close>)
  next
    case (grant c t' p)
    have "(c, t', p) \<in> called s" by (rule grant(2))
    with t have "t' \<le> v_term s' c \<and> p \<in> M \<and> p \<noteq> c" by blast
    then show ?thesis
      by (intro goal [of "{}" "{(c, t', p)}" "{}"]) (use grant d in \<open>auto simp: disjoint_iff\<close>)
  next
    case (count c p v)
    then have "(c, v_term s c, p) \<in> granted s" by simp
    with t b have "v_term s c \<le> v_term s' c \<and> p \<in> M \<and> p \<noteq> c" "ballot s' p (v_term s c) = Some c" by blast+
    then show ?thesis
      by (intro goal [of "{}" "{}" "{(c, v_term s c, p)}"]) (use count d in \<open>auto simp: disjoint_iff\<close>)
  qed (use t b d in \<open>simp_all add: tokens_ok_def\<close>)
qed

lemma voters_count:
  assumes "finite M" and "tokens_ok M s" and "(c, t, p) \<in> granted s" and "counted s' = insert (c, t, p) (counted s)"
  shows "card (voters s' c t) = Suc (card (voters s c t))"
proof -
  have "voters s' c t = insert p (voters s c t)" by (auto simp: voters_def assms(4))
  moreover have "p \<notin> voters s c t" using assms(2,3) by (auto simp: voters_def tokens_ok_def)
  ultimately show ?thesis using voters_finite [OF assms(1,2)] by simp
qed

lemma vstep_candidates:
  assumes M: "finite M" and tok: "tokens_ok M s" and ok: "candidates_ok M s" and step: "vstep M q s s'"
  shows "candidates_ok M s'"
  using step
proof cases
  case (start c P)
  have "voters s c (v_term s c + 1) = {}"
    using tokens_fresh(3) [OF tok word_less_plus_one [OF start(2)]] by (auto simp: voters_def)
  with start ok show ?thesis by (auto simp: candidates_ok_def voters_def)
next
  case (grant c t p)
  have "p \<noteq> c" using tok grant(2) by (auto simp: tokens_ok_def)
  with grant ok show ?thesis by (auto simp: candidates_ok_def voters_def)
next
  case (count c p v)
  then have "card (voters s' c (v_term s c)) = Suc (card (voters s c (v_term s c)))"
    by (intro voters_count [OF M tok]) auto
  moreover have "voters s' d t = voters s d t" if "d \<noteq> c" for d t
    using count that by (auto simp: voters_def)
  ultimately show ?thesis using count ok by (auto simp: candidates_ok_def)
qed (use ok in \<open>auto simp: candidates_ok_def voters_def\<close>)

lemma vstep_voters_mono:
  assumes "finite M" and "tokens_ok M s'" and "vstep M q s s'"
  shows "card (voters s c t) \<le> card (voters s' c t)"
  by (rule card_mono [OF voters_finite [OF assms(1,2)]])
    (use assms(3) in \<open>auto simp: voters_def elim!: vstepE\<close>)

lemma vstep_elected_mono: "vstep M q s s' \<Longrightarrow> elected s \<subseteq> elected s'"
  by (erule vstepE) auto

lemma vstep_elected:
  assumes ok: "voting_ok M q s" and tok': "tokens_ok M s'" and step: "vstep M q s s'"
  shows "elected_ok M q s'"
proof -
  from ok have M: "finite M" and bal: "ballots_ok s" and tok: "tokens_ok M s" and cand: "candidates_ok M s"
    and el: "elected_ok M q s" by (simp_all add: voting_ok_def)
  have old: "c \<in> M \<and> ballot s' c t = Some c \<and> q \<le> Suc (card (voters s' c t))" if "(t, c) \<in> elected s" for t c
  proof -
    from that el have "c \<in> M \<and> ballot s c t = Some c \<and> q \<le> Suc (card (voters s c t))"
      by (auto simp: elected_ok_def)
    with vstep_ballot [OF bal step] vstep_voters_mono [OF M tok' step, of c t] show ?thesis
      by (meson Suc_le_mono order_trans)
  qed
  from el have lead: "\<And>c. v_role s c = VLeader \<Longrightarrow> (v_term s c, c) \<in> elected s"
    by (simp add: elected_ok_def)
  from step show ?thesis
  proof cases
    case (count c p v)
    then have n: "card (voters s' c (v_term s c)) = Suc (card (voters s c (v_term s c)))"
      by (intro voters_count [OF M tok]) auto
    from cand count have "c \<in> M" "v_vote s c = Some c" "v = Suc (card (voters s c (v_term s c)))"
      by (auto simp: candidates_ok_def)
    with n bal count have new: "c \<in> M \<and> ballot s' c (v_term s c) = Some c"
        "q \<le> v + 1 \<Longrightarrow> q \<le> Suc (card (voters s' c (v_term s c)))"
      by (auto simp: ballots_ok_def)
    have e: "elected s' = (if q \<le> v + 1 then insert (v_term s c, c) (elected s) else elected s)"
      and r: "v_role s' = (v_role s)(c := if q \<le> v + 1 then VLeader else VCandidate (v + 1))"
      and t: "v_term s' = v_term s" by (simp_all add: count)
    show ?thesis unfolding elected_ok_def e r t using old new lead by auto
  qed (use old lead in \<open>auto simp: elected_ok_def\<close>)
qed

theorem vstep_ok:
  assumes "voting_ok M q s" and "vstep M q s s'"
  shows "voting_ok M q s'"
proof -
  from assms(1) have "finite M" "ballots_ok s" "tokens_ok M s" "candidates_ok M s"
    by (simp_all add: voting_ok_def)
  note t = vstep_tokens [OF this(2,3) assms(2)]
  show ?thesis
    using vstep_ballots [OF \<open>ballots_ok s\<close> assms(2)] t
      vstep_candidates [OF \<open>finite M\<close> \<open>tokens_ok M s\<close> \<open>candidates_ok M s\<close> assms(2)]
      vstep_elected [OF assms(1) t assms(2)] \<open>finite M\<close>
    by (simp add: voting_ok_def)
qed

section \<open>At most one leader in a term\<close>

theorem one_leader_per_term:
  assumes ok: "voting_ok (set ms) (majority (card (set ms))) s"
    and "(t, c) \<in> elected s" and "(t, d) \<in> elected s"
  shows "c = d"
proof -
  let ?q = "majority (card (set ms))"
  from ok have tok: "tokens_ok (set ms) s" by (simp add: voting_ok_def)
  have b: "?q \<le> card (insert x (voters s x t)) \<and> insert x (voters s x t) \<subseteq> set ms
      \<and> (\<forall>p \<in> insert x (voters s x t). ballot s p t = Some x)" if "(t, x) \<in> elected s" for x
  proof -
    from ok that have e: "x \<in> set ms" "ballot s x t = Some x" "?q \<le> Suc (card (voters s x t))"
      by (auto simp: voting_ok_def elected_ok_def)
    have "x \<notin> voters s x t" using tok by (auto simp: voters_def tokens_ok_def)
    with e tok voters_finite [OF _ tok, of x t] show ?thesis by (auto simp: voters_def tokens_ok_def)
  qed
  from b [OF assms(2)] b [OF assms(3)] show ?thesis
    by (intro majorities.one_winner [where ballot = "\<lambda>p. ballot s p t" and A = "insert c (voters s c t)"
          and B = "insert d (voters s d t)"]) auto
qed

text \<open>
  A candidate has not won its term yet; so a node that becomes the leader leads a term that no node
  led before.
\<close>

definition fresh_ok :: "('n, 't::len word) vsys \<Rightarrow> bool" where
  "fresh_ok s \<longleftrightarrow> (\<forall>c v. v_role s c = VCandidate v \<longrightarrow> (v_term s c, c) \<notin> elected s)"

lemma elected_term: "voting_ok M q s \<Longrightarrow> (t, c) \<in> elected s \<Longrightarrow> t \<le> v_term s c"
  by (auto simp: voting_ok_def elected_ok_def ballots_ok_def)

lemma vstep_fresh:
  assumes ok: "voting_ok M q s" and fresh: "fresh_ok s" and step: "vstep M q s s'"
  shows "fresh_ok s'"
  using step
proof cases
  case (start c P)
  then have "(v_term s c + 1, c) \<notin> elected s"
    using elected_term [OF ok, of "v_term s c + 1" c] word_less_plus_one [of "v_term s c"] by (auto simp: not_le [symmetric])
  with start fresh show ?thesis by (simp add: fresh_ok_def)
qed (use fresh in \<open>auto simp: fresh_ok_def\<close>)

lemma vstep_new_leader:
  assumes fresh: "fresh_ok s" and step: "vstep M q s s'" and lead: "v_role s' c = VLeader"
    and new: "\<not> (v_role s c = VLeader \<and> v_term s c = v_term s' c)"
  shows "(v_term s' c, c) \<notin> elected s"
  using step lead new fresh by cases (auto simp: fresh_ok_def split: if_splits)

definition v_init :: "('n \<Rightarrow> 't::len word) \<Rightarrow> ('n \<Rightarrow> 'n option) \<Rightarrow> ('n, 't word) vsys" where
  "v_init tm vt = \<lparr>v_term = tm, v_vote = vt, v_role = (\<lambda>_. VFollower), called = {}, granted = {},
     counted = {}, ballot = (\<lambda>p. (\<lambda>_. None)(tm p := vt p)), elected = {}\<rparr>"

lemma v_init_ok: "voting_ok (set ms) q (v_init tm vt)"
  by (simp add: voting_ok_def v_init_def ballots_ok_def tokens_ok_def candidates_ok_def elected_ok_def)

lemma v_init_fresh: "fresh_ok (v_init tm vt)"
  by (simp add: fresh_ok_def v_init_def)

end
