(* ===== verification/Cluster.thy ===== *)
theory Cluster
  imports Election Voting
begin

text \<open>
  Several nodes and the network between them. A schedule of actions drives the nodes of theory
  Node: timers, clients' requests, connections, the delivery, failure or loss of a call or of its
  answer, and a reload of a page, which restarts its node from what the browser holds. Calls are
  those of theory Transport, each answered at most once; how they travel is the schedule's choice.
\<close>

section \<open>State\<close>

text \<open>
  What the task that made a call does with the outcome: report a vote to the election, or a
  response to the leadership, of the given term; or answer the client of a forwarded request.
\<close>

datatype tag = VoteTag TermIndex | AppendTag TermIndex NodeId LogIndex LogIndex | ForwardTag nat

text \<open>A call's origin: the caller, the number of its page load, the node called, and the task.\<close>

record origin =
  o_from :: NodeId
  o_boot :: nat
  o_to :: NodeId
  o_tag :: tag

datatype 'cmd packet =
    Call origin "'cmd RpcRequest"
  | Answer origin "TransportError + 'cmd RpcResponse"

text \<open>
  \<open>nodes\<close> is \<^const>\<open>None\<close> for a node whose worker has panicked. \<open>pending\<close> holds the RPCs that
  a node is serving, by the number of their response channel; \<open>answers\<close> and \<open>applied\<close> collect
  what clients and state machines got.
\<close>

record 'cmd cluster =
  nodes :: "NodeId \<Rightarrow> RaftWorkerState option"
  boots :: "NodeId \<Rightarrow> nat"
  net :: "'cmd packet list"
  pending :: "(nat \<times> origin) list"
  next_tx :: nat
  answers :: "(NodeId \<times> nat \<times> 'cmd ClientResult) list"
  applied :: "NodeId \<Rightarrow> 'cmd list"

section \<open>Steps\<close>

definition respond :: "nat \<Rightarrow> 'cmd RpcResponse \<Rightarrow> 'cmd cluster \<Rightarrow> 'cmd cluster" where
  "respond tx resp cl =
     (case map_of (pending cl) tx of
        Some orig \<Rightarrow> cl\<lparr>net := net cl @ [Answer orig (Inr resp)], pending := AList.delete tx (pending cl)\<rparr>
      | None \<Rightarrow> cl)"

definition send :: "NodeId \<Rightarrow> NodeId \<Rightarrow> tag \<Rightarrow> 'cmd RpcRequest \<Rightarrow> 'cmd cluster \<Rightarrow> 'cmd cluster" where
  "send n p tg req cl =
     cl\<lparr>net := net cl @ [Call \<lparr>o_from = n, o_boot = boots cl n, o_to = p, o_tag = tg\<rparr> req]\<rparr>"

fun emit :: "NodeId \<Rightarrow> 'cmd cluster \<Rightarrow> 'cmd effect \<Rightarrow> 'cmd cluster" where
  "emit n cl (RpcReply tx resp) = respond tx resp cl"
| "emit n cl (ClientReply (ClientTx k) res) = cl\<lparr>answers := answers cl @ [(n, k, res)]\<rparr>"
| "emit n cl (ClientReply (RelayTx tx) res) = respond tx (ForwardClientRequestR res) cl"
| "emit n cl (ApplyCmd c) = cl\<lparr>applied := (applied cl)(n := applied cl n @ [c])\<rparr>"
| "emit n cl (CallVote p req) = send n p (VoteTag (rv_term req)) (RequestVote req) cl"
| "emit n cl (CallAppend p i j req) = send n p (AppendTag (ae_term req) p i j) (AppendEntries req) cl"
| "emit n cl (CallForward p req k) = send n p (ForwardTag k) (ForwardClientRequest req) cl"
| "emit n cl ResetElectionTimeout = cl"
| "emit n cl ResetHeartbeat = cl"

definition set_node :: "NodeId \<Rightarrow> RaftWorkerState option \<Rightarrow> 'cmd cluster \<Rightarrow> 'cmd cluster" where
  "set_node n st cl = cl\<lparr>nodes := (nodes cl)(n := st)\<rparr>"

text \<open>A node takes an event, or halts if its worker panics.\<close>

definition finish :: "NodeId \<Rightarrow> (RaftWorkerState \<times> 'cmd effect list) result \<Rightarrow> 'cmd cluster \<Rightarrow> 'cmd cluster" where
  "finish n r cl =
     (case r of
        Inl _ \<Rightarrow> set_node n None cl
      | Inr (st, out) \<Rightarrow> foldl (emit n) (set_node n (Some st) cl) out)"

definition run_event :: "'cmd env \<Rightarrow> NodeId \<Rightarrow> 'cmd event \<Rightarrow> 'cmd cluster \<Rightarrow> 'cmd cluster" where
  "run_event env n ev cl =
     (case nodes cl n of None \<Rightarrow> cl | Some st \<Rightarrow> finish n (worker_step env st ev) cl)"

text \<open>The channels of an election or a leadership live as long as the node is in that term and role.\<close>

definition is_candidate_in :: "'cmd cluster \<Rightarrow> NodeId \<Rightarrow> TermIndex \<Rightarrow> bool" where
  "is_candidate_in cl n t =
     (case nodes cl n of Some (RaftWorkerState.Candidate w _) \<Rightarrow> term_of w = t | _ \<Rightarrow> False)"

definition is_leader_in :: "'cmd cluster \<Rightarrow> NodeId \<Rightarrow> TermIndex \<Rightarrow> bool" where
  "is_leader_in cl n t =
     (case nodes cl n of Some (RaftWorkerState.Leader w _) \<Rightarrow> term_of w = t | _ \<Rightarrow> False)"

definition call_outcome ::
  "'cmd env \<Rightarrow> origin \<Rightarrow> TransportError + 'cmd RpcResponse \<Rightarrow> 'cmd cluster \<Rightarrow> 'cmd cluster" where
  "call_outcome env orig res cl =
     (let n = o_from orig
      in if boots cl n \<noteq> o_boot orig then cl
         else case o_tag orig of
                VoteTag t \<Rightarrow>
                  if vote_outcome res = Inr True \<and> is_candidate_in cl n t
                  then run_event env n VoteEvent cl else cl
              | AppendTag t p i j \<Rightarrow>
                  if is_leader_in cl n t then run_event env n (AppendResponse p i j res) cl else cl
              | ForwardTag k \<Rightarrow>
                  (case forward_outcome res k of Inl _ \<Rightarrow> cl | Inr out \<Rightarrow> foldl (emit n) cl out))"

datatype 'cmd action =
    Tick NodeId
  | Request NodeId "'cmd ClientRequest" nat
  | Connect NodeId NodeId
  | Lose NodeId NodeId
  | Deliver nat
  | Fail nat TransportError
  | Drop nat
  | Expire nat TransportError
  | Restart NodeId

definition take_packet :: "nat \<Rightarrow> 'cmd cluster \<Rightarrow> 'cmd cluster" where
  "take_packet k cl = cl\<lparr>net := take k (net cl) @ drop (Suc k) (net cl)\<rparr>"

definition serve :: "'cmd env \<Rightarrow> origin \<Rightarrow> 'cmd RpcRequest \<Rightarrow> 'cmd cluster \<Rightarrow> 'cmd cluster" where
  "serve env orig req cl =
     (let tx = next_tx cl
      in run_event env (o_to orig) (RpcEvent req tx)
           (cl\<lparr>pending := (tx, orig) # pending cl, next_tx := tx + 1\<rparr>))"

fun packet_origin :: "'cmd packet \<Rightarrow> origin" where
  "packet_origin (Call orig _) = orig"
| "packet_origin (Answer orig _) = orig"

definition restart :: "'cmd env \<Rightarrow> NodeId \<Rightarrow> 'cmd cluster \<Rightarrow> 'cmd cluster" where
  "restart env n cl =
     (case nodes cl n of
        None \<Rightarrow> cl
      | Some st \<Rightarrow>
          let w = inner_of st
          in finish n (rbind (worker_new (node_id w) (inner_session_key w) (peers w) [] (storage (store w)))
                        (to_follower env))
               (cl\<lparr>boots := (boots cl)(n := boots cl n + 1), applied := (applied cl)(n := [])\<rparr>))"

fun act :: "'cmd env \<Rightarrow> 'cmd cluster \<Rightarrow> 'cmd action \<Rightarrow> 'cmd cluster" where
  "act env cl (Tick n) = run_event env n TimerEvent cl"
| "act env cl (Request n req k) = run_event env n (ClientEvent req k) cl"
| "act env cl (Connect n p) = run_event env n (PeerEvent p) cl"
| "act env cl (Lose n p) = run_event env n (ConnectionLost p) cl"
| "act env cl (Deliver k) =
     (if k < length (net cl)
      then case net cl ! k of
             Call orig req \<Rightarrow> serve env orig req (take_packet k cl)
           | Answer orig res \<Rightarrow> call_outcome env orig res (take_packet k cl)
      else cl)"
| "act env cl (Fail k err) =
     (if k < length (net cl)
      then call_outcome env (packet_origin (net cl ! k)) (Inl err) (take_packet k cl) else cl)"
| "act env cl (Drop k) = take_packet k cl"
| "act env cl (Expire tx err) =
     (case map_of (pending cl) tx of
        None \<Rightarrow> cl
      | Some orig \<Rightarrow> call_outcome env orig (Inl err) (cl\<lparr>pending := AList.delete tx (pending cl)\<rparr>))"
| "act env cl (Restart n) = restart env n cl"

definition run :: "'cmd env \<Rightarrow> 'cmd cluster \<Rightarrow> 'cmd action list \<Rightarrow> 'cmd cluster" where
  "run env cl as = foldl (act env) cl as"

text \<open>The cluster \<open>ms\<close> at its first start, with nothing in the browsers and nobody connected.\<close>

definition first_start :: "'cmd env \<Rightarrow> u128 \<Rightarrow> NodeId list \<Rightarrow> NodeId \<Rightarrow> RaftWorkerState option" where
  "first_start env sk ms n =
     (if n \<in> set ms
      then case rbind (worker_new n sk (remove1 n ms) [] (\<lambda>_. None)) (to_follower env) of
             Inl _ \<Rightarrow> None | Inr (st, _) \<Rightarrow> Some st
      else None)"

definition cluster_init :: "'cmd env \<Rightarrow> u128 \<Rightarrow> NodeId list \<Rightarrow> 'cmd cluster" where
  "cluster_init env sk ms =
     \<lparr> nodes = first_start env sk ms, boots = (\<lambda>_. 0), net = [], pending = [], next_tx = 0,
       answers = [], applied = (\<lambda>_. []) \<rparr>"

text \<open>Connections join members of the cluster.\<close>

fun member_action :: "NodeId list \<Rightarrow> 'cmd action \<Rightarrow> bool" where
  "member_action ms (Connect n p) = (p \<in> set ms \<and> p \<noteq> n)"
| "member_action ms _ = True"

end
