(* ===== verification/Simulation.thy ===== *)
theory Simulation
  imports Cluster
begin

text \<open>
  The cluster (theory Cluster) is simulated by the abstract election system (theory Voting): every
  action on the cluster is one step of the system. The lemmas on the steps of a node (theory
  Election) are all that the simulation uses of the code.
\<close>

section \<open>Tokens on the wire\<close>

fun call_token :: "'cmd packet \<Rightarrow> (NodeId \<times> TermIndex \<times> NodeId) option" where
  "call_token (Call orig (RequestVote req)) = Some (o_from orig, rv_term req, o_to orig)"
| "call_token _ = None"

fun grant_token :: "'cmd packet \<Rightarrow> (NodeId \<times> TermIndex \<times> NodeId) option" where
  "grant_token (Answer orig (Inr (RequestVoteR resp))) =
     (case o_tag orig of
        VoteTag t \<Rightarrow> if rvr_vote_granted resp then Some (o_from orig, t, o_to orig) else None
      | _ \<Rightarrow> None)"
| "grant_token _ = None"

definition tokens :: "('a \<Rightarrow> 'b option) \<Rightarrow> 'a list \<Rightarrow> 'b list" where
  "tokens f xs = List.map_filter f xs"

lemma tokens_simps [simp]:
  "tokens f [] = []"
  "tokens f (x # xs) = (case f x of None \<Rightarrow> tokens f xs | Some y \<Rightarrow> y # tokens f xs)"
  "tokens f (xs @ ys) = tokens f xs @ tokens f ys"
  by (auto simp: tokens_def List.map_filter_def split: option.splits)

text \<open>A vote call belongs to the election of its term, and asks for the caller.\<close>

fun packet_ok :: "'cmd packet \<Rightarrow> bool" where
  "packet_ok (Call orig (RequestVote req)) =
     (o_tag orig = VoteTag (rv_term req) \<and> rv_candidate req = o_from orig)"
| "packet_ok _ = True"

lemma respond_frame [simp]:
  "nodes (respond tx resp cl) = nodes cl" "boots (respond tx resp cl) = boots cl"
  by (simp_all add: respond_def split: option.splits)

lemma send_frame [simp]:
  "nodes (send n p tg req cl) = nodes cl" "boots (send n p tg req cl) = boots cl"
  by (simp_all add: send_def)

lemma emit_frame [simp]: "nodes (emit n cl e) = nodes cl" "boots (emit n cl e) = boots cl"
proof -
  have "nodes (emit n cl e) = nodes cl \<and> boots (emit n cl e) = boots cl"
    by (cases "(n, cl, e)" rule: emit.cases) auto
  then show "nodes (emit n cl e) = nodes cl" "boots (emit n cl e) = boots cl" by auto
qed

lemma emits_frame [simp]:
  "nodes (foldl (emit n) cl out) = nodes cl" "boots (foldl (emit n) cl out) = boots cl"
  by (induction out arbitrary: cl) auto

text \<open>What the effects of a step put on the wire, as far as votes go.\<close>

lemma emit_no_vote:
  assumes "no_vote e"
  shows "tokens call_token (net (emit n cl e)) = tokens call_token (net cl)"
    and "tokens grant_token (net (emit n cl e)) = tokens grant_token (net cl)"
    and "list_all packet_ok (net cl) \<Longrightarrow> list_all packet_ok (net (emit n cl e))"
proof -
  have "tokens call_token (net (emit n cl e)) = tokens call_token (net cl)
    \<and> tokens grant_token (net (emit n cl e)) = tokens grant_token (net cl)
    \<and> (list_all packet_ok (net cl) \<longrightarrow> list_all packet_ok (net (emit n cl e)))"
    using assms by (cases "(n, cl, e)" rule: emit.cases)
      (auto simp: respond_def send_def no_vote_def split: option.splits RpcResponse.splits)
  then show "tokens call_token (net (emit n cl e)) = tokens call_token (net cl)"
    "tokens grant_token (net (emit n cl e)) = tokens grant_token (net cl)"
    "list_all packet_ok (net cl) \<Longrightarrow> list_all packet_ok (net (emit n cl e))" by auto
qed

lemma emits_no_votes:
  assumes "no_votes out"
  shows "tokens call_token (net (foldl (emit n) cl out)) = tokens call_token (net cl)
    \<and> tokens grant_token (net (foldl (emit n) cl out)) = tokens grant_token (net cl)
    \<and> (list_all packet_ok (net cl) \<longrightarrow> list_all packet_ok (net (foldl (emit n) cl out)))"
  using assms by (induction out arbitrary: cl) (auto simp: emit_no_vote)

lemma emits_calls:
  assumes "rv_candidate req = n"
  shows "tokens call_token (net (foldl (emit n) cl (map (\<lambda>p. CallVote p req) ps)))
      = tokens call_token (net cl) @ map (\<lambda>p. (n, rv_term req, p)) ps
    \<and> tokens grant_token (net (foldl (emit n) cl (map (\<lambda>p. CallVote p req) ps))) = tokens grant_token (net cl)
    \<and> (list_all packet_ok (net cl) \<longrightarrow>
        list_all packet_ok (net (foldl (emit n) cl (map (\<lambda>p. CallVote p req) ps))))"
  using assms by (induction ps arbitrary: cl) (auto simp: send_def)

section \<open>The simulation relation\<close>

fun vrole_of :: "role \<Rightarrow> vrole" where
  "vrole_of FollowerRole = VFollower"
| "vrole_of (CandidateRole v) = VCandidate v"
| "vrole_of LeaderRole = VLeader"

definition sized :: "Inner \<Rightarrow> bool" where
  "sized w \<longleftrightarrow> cluster_size w = length (peers w) + 1"

definition node_rel :: "NodeId list \<Rightarrow> NodeId \<Rightarrow> RaftWorkerState \<Rightarrow> (NodeId, u64) vsys \<Rightarrow> bool" where
  "node_rel ms n st vs \<longleftrightarrow>
     (let w = inner_of st in
      node_id w = n \<and> node_ok w \<and> clients_ok w \<and> known w \<subseteq> set ms - {n} \<and>
      cluster_size w = length ms \<and> sized w \<and> v_term vs n = term_of w \<and> v_vote vs n = vote_of w \<and>
      v_role vs n = vrole_of (role_of st))"

definition wire_rel :: "'cmd packet list \<Rightarrow> (NodeId, u64) vsys \<Rightarrow> bool" where
  "wire_rel pks vs \<longleftrightarrow> list_all packet_ok pks \<and>
     distinct (tokens call_token pks) \<and> set (tokens call_token pks) \<subseteq> called vs \<and>
     distinct (tokens grant_token pks) \<and> set (tokens grant_token pks) \<subseteq> granted vs"

definition sim :: "NodeId list \<Rightarrow> 'cmd cluster \<Rightarrow> (NodeId, u64) vsys \<Rightarrow> bool" where
  "sim ms cl vs \<longleftrightarrow>
     (\<forall>n st. nodes cl n = Some st \<longrightarrow> n \<in> set ms \<and> node_rel ms n st vs) \<and> wire_rel (net cl) vs"

text \<open>A step of one node leaves the others related if their part of the system stays.\<close>

definition others_same :: "NodeId \<Rightarrow> (NodeId, u64) vsys \<Rightarrow> (NodeId, u64) vsys \<Rightarrow> bool" where
  "others_same n vs vs' \<longleftrightarrow>
     (\<forall>m. m \<noteq> n \<longrightarrow> v_term vs' m = v_term vs m \<and> v_vote vs' m = v_vote vs m \<and> v_role vs' m = v_role vs m \<and>
        ballot vs' m = ballot vs m)"

text \<open>A node that has halted casts no ballot.\<close>

definition frozen :: "'cmd cluster \<Rightarrow> (NodeId, u64) vsys \<Rightarrow> (NodeId, u64) vsys \<Rightarrow> bool" where
  "frozen cl vs vs' \<longleftrightarrow> (\<forall>p. nodes cl p = None \<longrightarrow> ballot vs' p = ballot vs p)"

lemma frozen_refl [simp]: "frozen cl vs vs"
  by (simp add: frozen_def)

lemma frozen_set_node: "others_same n vs vs' \<Longrightarrow> nodes cl' = (nodes cl)(n := Some st) \<Longrightarrow> frozen cl' vs vs'"
  by (auto simp: frozen_def others_same_def)

lemma sim_set_node:
  assumes "sim ms cl vs" and "others_same n vs vs'" and "n \<in> set ms"
    and "nodes cl' = (nodes cl)(n := st)" and "\<And>s. st = Some s \<Longrightarrow> node_rel ms n s vs'"
    and "wire_rel (net cl') vs'"
  shows "sim ms cl' vs'"
  using assms by (auto simp: sim_def others_same_def node_rel_def Let_def)


section \<open>The steps of a node, simulated\<close>

lemma simD:
  assumes "sim ms cl vs" and "nodes cl n = Some st"
  shows "n \<in> set ms" and "node_rel ms n st vs" and "wire_rel (net cl) vs"
  using assms by (auto simp: sim_def)

lemma sim_other:
  assumes sim: "sim ms cl vs" and st: "nodes cl n = Some st"
    and role: "role_of st' = FollowerRole \<or> stays st st'" and out: "no_votes out"
    and step: "other_step (inner_of st) (inner_of st') new" and new: "new \<subseteq> set ms - {n}"
  shows "\<exists>vs'. vstep M q vs vs' \<and> sim ms (foldl (emit n) (set_node n (Some st') cl) out) vs'
    \<and> frozen (foldl (emit n) (set_node n (Some st') cl) out) vs vs'"
proof -
  note d = simD [OF sim st]
  let ?w = "inner_of st" and ?w' = "inner_of st'"
  let ?cl = "foldl (emit n) (set_node n (Some st') cl) out"
  have nodes: "nodes ?cl = (nodes cl)(n := Some st')" by (simp add: set_node_def)
  have wire: "wire_rel (net ?cl) vs' \<longleftrightarrow> wire_rel (net cl) vs'"
    if "list_all packet_ok (net cl)" for vs'
    using emits_no_votes [OF out, where n = n and cl = "set_node n (Some st') cl"] that
    by (simp add: wire_rel_def set_node_def)
  have pk: "list_all packet_ok (net cl)" using d(3) by (simp add: wire_rel_def)
  have base: "node_id ?w' = n \<and> node_ok ?w' \<and> clients_ok ?w' \<and> known ?w' \<subseteq> set ms - {n}
      \<and> cluster_size ?w' = length ms \<and> sized ?w'"
    using d(2) step new by (auto simp: node_rel_def Let_def other_step_def same_node_def sized_def)
  have go: ?thesis if "vstep M q vs vs'" and "others_same n vs vs'" and "called vs' = called vs"
      and "granted vs' = granted vs" and "v_term vs' n = term_of ?w'" and "v_vote vs' n = vote_of ?w'"
      and "v_role vs' n = vrole_of (role_of st')" for vs'
  proof (intro exI conjI)
    show "sim ms ?cl vs'"
    proof (rule sim_set_node [OF sim that(2) d(1) nodes])
      show "wire_rel (net ?cl) vs'" using d(3) that(3,4) by (simp add: wire [OF pk]) (simp add: wire_rel_def)
    qed (use base that(5-7) in \<open>auto simp: node_rel_def Let_def\<close>)
  qed (use that(1) frozen_set_node [OF that(2) nodes] in simp_all)
  from d(2) have v: "v_term vs n = term_of ?w" "v_vote vs n = vote_of ?w"
    "v_role vs n = vrole_of (role_of st)" by (simp_all add: node_rel_def Let_def)
  from step have ts: "term_step ?w ?w'" by (simp add: other_step_def)
  show ?thesis
  proof (cases "term_of ?w < term_of ?w'")
    case True
    with role ts have "role_of st' = FollowerRole" "vote_of ?w' = None"
      by (auto simp: stays_def term_step_def)
    then show ?thesis using True v
      by (intro go [OF vstep.adopt [of vs n "term_of ?w'"]]) (auto simp: others_same_def)
  next
    case False
    with ts have same: "term_of ?w' = term_of ?w" "vote_of ?w' = vote_of ?w" by (auto simp: term_step_def)
    show ?thesis
    proof (cases "role_of st' = FollowerRole")
      case True
      with same v show ?thesis
        by (intro go [OF vstep.step_down [of M q vs n]]) (auto simp: others_same_def)
    next
      case False
      with role same v show ?thesis
        by (intro go [OF vstep.idle [of M q vs]]) (auto simp: others_same_def stays_def)
    qed
  qed
qed

lemma sim_start:
  assumes sim: "sim ms cl vs" and st: "nodes cl n = Some st" and ok: "tokens_ok M vs"
    and el: "starts_election (inner_of st) (inner_of st') out" and role: "role_of st' = CandidateRole 1"
    and max: "term_of (inner_of st) \<noteq> - 1"
  shows "\<exists>vs'. vstep (set ms) q vs vs' \<and> sim ms (foldl (emit n) (set_node n (Some st') cl) out) vs'
    \<and> frozen (foldl (emit n) (set_node n (Some st') cl) out) vs vs'"
proof -
  note d = simD [OF sim st]
  let ?w = "inner_of st" and ?w' = "inner_of st'"
  let ?cl = "foldl (emit n) (set_node n (Some st') cl) out"
  from d(2) have rel: "node_id ?w = n" "clients_ok ?w" "known ?w \<subseteq> set ms - {n}"
    "cluster_size ?w = length ms" "v_term vs n = term_of ?w" "sized ?w" by (simp_all add: node_rel_def Let_def)
  define ps where "ps = map fst (filter (\<lambda>(p, c). connected c) (peer_clients ?w))"
  from el obtain req rest where out: "out = map (\<lambda>p. CallVote p req) ps @ rest" and rest: "all_local rest"
    and req': "rv_term req = term_of ?w'" "rv_candidate req = node_id ?w"
    unfolding starts_election_def ps_def by blast
  have req: "rv_term req = term_of ?w'" "rv_candidate req = n" using req' rel(1) by simp_all
  have t: "term_of ?w' = term_of ?w + 1" using el by (simp add: starts_election_def)
  have ps: "distinct ps" "set ps \<subseteq> set ms - {n}"
    using rel(2,3) by (auto simp: ps_def clients_ok_def known_def intro: distinct_map_filter)
  let ?vs = "vs\<lparr>v_term := (v_term vs)(n := v_term vs n + 1), v_vote := (v_vote vs)(n := Some n),
                v_role := (v_role vs)(n := VCandidate 1),
                called := called vs \<union> {(n, v_term vs n + 1, p) | p. p \<in> set ps},
                ballot := (ballot vs)(n := (ballot vs n)(v_term vs n + 1 := Some n))\<rparr>"
  have step: "vstep (set ms) q vs ?vs" using max rel(5) d(1) ps(2) by (intro vstep.start) auto
  have nodes: "nodes ?cl = (nodes cl)(n := Some st')" by (simp add: set_node_def)
  have fresh: "(n, v_term vs n + 1, p) \<notin> called vs" for p
    using tokens_fresh(1) [OF ok, of n "v_term vs n + 1"] word_less_plus_one max rel(5) by metis
  have wire: "wire_rel (net ?cl) ?vs"
    using emits_calls [OF req(2), where cl = "set_node n (Some st') cl" and ps = ps]
      emits_no_votes [OF all_local_no_votes [OF rest], of n
        "foldl (emit n) (set_node n (Some st') cl) (map (\<lambda>p. CallVote p req) ps)"] d(3) fresh rel(5) ps(1) t req(1)
    by (auto simp: wire_rel_def out set_node_def distinct_map inj_on_def)
  have "sim ms ?cl ?vs"
  proof (rule sim_set_node [OF sim _ d(1) nodes _ wire])
    show "others_same n vs ?vs" by (simp add: others_same_def)
  next
    fix s assume "Some st' = Some s"
    then show "node_rel ms n s ?vs" using el role rel t
      by (auto simp: node_rel_def Let_def starts_election_def same_node_def sized_def known_def clients_ok_def)
  qed
  moreover have "frozen ?cl vs ?vs" by (rule frozen_set_node [OF _ nodes]) (simp add: others_same_def)
  ultimately show ?thesis using step by blast
qed


text \<open>Taking a packet off the wire.\<close>

lemma take_packet_split:
  assumes "k < length (net cl)"
  obtains as bs where "net cl = as @ net cl ! k # bs" and "net (take_packet k cl) = as @ bs"
  using that [of "take k (net cl)" "drop (Suc k) (net cl)"] id_take_nth_drop [OF assms]
  by (simp add: take_packet_def)

lemma take_packet_frame [simp]:
  "nodes (take_packet k cl) = nodes cl" "boots (take_packet k cl) = boots cl"
  "pending (take_packet k cl) = pending cl" "next_tx (take_packet k cl) = next_tx cl"
  by (simp_all add: take_packet_def)

lemma wire_rel_take:
  assumes "wire_rel (as @ x # bs) vs"
  shows "wire_rel (as @ bs) vs" and "packet_ok x"
    and "call_token x = Some tk \<Longrightarrow> tk \<in> called vs \<and> wire_rel (as @ bs) (vs\<lparr>called := called vs - {tk}\<rparr>)"
    and "grant_token x = Some tk \<Longrightarrow> tk \<in> granted vs \<and> wire_rel (as @ bs) (vs\<lparr>granted := granted vs - {tk}\<rparr>)"
  using assms by (auto simp: wire_rel_def split: option.splits)

lemma sim_take:
  assumes "sim ms cl vs" and "k < length (net cl)"
  shows "sim ms (take_packet k cl) vs"
  using assms(1) wire_rel_take(1) take_packet_split [OF assms(2)] unfolding sim_def by (metis take_packet_frame(1))

text \<open>Serving a vote call.\<close>

lemma sim_vote:
  assumes sim: "sim ms cl vs" and st: "nodes cl n = Some st"
    and called: "(c, rv_term req, n) \<in> called vs" and wire: "wire_rel (net cl) (vs\<lparr>called := called vs - {(c, rv_term req, n)}\<rparr>)"
    and fresh: "(c, rv_term req, n) \<notin> granted vs" and cand: "rv_candidate req = c"
    and pend: "map_of (pending cl) tx = Some orig" and orig: "o_from orig = c" "o_to orig = n" "o_tag orig = VoteTag (rv_term req)"
    and ans: "vote_answered (role_of st = LeaderRole) req (inner_of st) (inner_of st') resp"
    and role: "role_of st' = (if term_of (inner_of st) < rv_term req then FollowerRole else role_of st)"
    and out: "out = RpcReply tx (RequestVoteR resp) # rest" "all_local rest"
  shows "\<exists>vs'. vstep M q vs vs' \<and> sim ms (foldl (emit n) (set_node n (Some st') cl) out) vs'
    \<and> frozen (foldl (emit n) (set_node n (Some st') cl) out) vs vs'"
proof -
  note d = simD [OF sim st]
  let ?w = "inner_of st" and ?w' = "inner_of st'" and ?t = "rv_term req"
  let ?cl = "foldl (emit n) (set_node n (Some st') cl) out"
  have nodes: "nodes ?cl = (nodes cl)(n := Some st')" by (simp add: set_node_def)
  from d(2) have rel: "node_id ?w = n" "v_term vs n = term_of ?w" "v_vote vs n = vote_of ?w"
    "v_role vs n = vrole_of (role_of st)" by (simp_all add: node_rel_def Let_def)
  have base: "node_id ?w' = n \<and> node_ok ?w' \<and> clients_ok ?w' \<and> known ?w' \<subseteq> set ms - {n}
      \<and> cluster_size ?w' = length ms \<and> sized ?w'"
    using d(2) ans by (auto simp: node_rel_def Let_def vote_answered_def same_node_def sized_def known_def clients_ok_def)
  have reply: "net (emit n (set_node n (Some st') cl) (RpcReply tx (RequestVoteR resp)))
      = net cl @ [Answer orig (Inr (RequestVoteR resp))]"
    using pend by (simp add: set_node_def respond_def)
  have wire': "wire_rel (net ?cl) vs' \<longleftrightarrow> wire_rel (net cl @ [Answer orig (Inr (RequestVoteR resp))]) vs'" for vs'
    using emits_no_votes [OF all_local_no_votes [OF out(2)], of n
        "emit n (set_node n (Some st') cl) (RpcReply tx (RequestVoteR resp))"] d(3)
    by (simp add: wire_rel_def out(1) reply del: emit.simps)
  have go: ?thesis if "vstep M q vs vs'" and "others_same n vs vs'" and "v_term vs' n = term_of ?w'"
      and "v_vote vs' n = vote_of ?w'" and "v_role vs' n = vrole_of (role_of st')"
      and "wire_rel (net cl @ [Answer orig (Inr (RequestVoteR resp))]) vs'" for vs'
  proof (intro exI conjI)
    show "sim ms ?cl vs'"
      by (rule sim_set_node [OF sim that(2) d(1) nodes])
        (use that base in \<open>auto simp: node_rel_def Let_def wire'\<close>)
  qed (use that(1) frozen_set_node [OF that(2) nodes] in simp_all)
  have refused: "wire_rel (net cl @ [Answer orig (Inr (RequestVoteR resp))]) vs'"
    if "\<not> rvr_vote_granted resp" "called vs' = called vs" "granted vs' = granted vs" for vs'
    using d(3) that orig(3) by (simp add: wire_rel_def)
  show ?thesis
  proof (cases "rvr_vote_granted resp")
    case True
    let ?vs = "vs\<lparr>v_term := (v_term vs)(n := ?t), v_vote := (v_vote vs)(n := Some c),
                  v_role := (v_role vs)(n := if v_term vs n < ?t then VFollower else v_role vs n),
                  called := called vs - {(c, ?t, n)}, granted := insert (c, ?t, n) (granted vs),
                  ballot := (ballot vs)(n := (ballot vs n)(?t := Some c))\<rparr>"
    have "v_term vs n < ?t \<or> v_term vs n = ?t \<and> v_vote vs n \<in> {None, Some c}"
      using ans True rel cand by (auto simp: vote_answered_def)
    then have "vstep M q vs ?vs" by (rule vstep.grant [OF called])
    moreover have "wire_rel (net cl @ [Answer orig (Inr (RequestVoteR resp))]) ?vs"
      using wire fresh True orig d(3) by (auto simp: wire_rel_def)
    moreover have "term_of ?w' = ?t" "vote_of ?w' = Some c" "term_of ?w \<le> ?t"
      using ans True cand by (auto simp: vote_answered_def max_def)
    ultimately show ?thesis using role rel by (intro go [of ?vs]) (auto simp: others_same_def)
  next
    case False
    show ?thesis
    proof (cases "term_of ?w < ?t")
      case True
      with False ans role rel show ?thesis
        by (intro go [OF vstep.adopt [of vs n ?t]] refused) (auto simp: others_same_def vote_answered_def max_def)
    next
      case low: False
      with False ans role rel show ?thesis
        by (intro go [OF vstep.idle [of M q vs]] refused) (auto simp: others_same_def vote_answered_def max_def not_less)
    qed
  qed
qed


text \<open>A vote that is counted.\<close>

lemma sim_count:
  assumes sim: "sim ms cl vs" and st: "nodes cl n = Some (RaftWorkerState.Candidate w v)"
    and tok: "(n, term_of w, p) \<in> granted vs"
    and wire: "wire_rel (net cl) (vs\<lparr>granted := granted vs - {(n, term_of w, p)}\<rparr>)"
    and q: "quiet w (inner_of st')" and out: "all_local out"
    and role: "role_of st' = (if quorum w \<le> v + 1 then LeaderRole else CandidateRole (v + 1))"
  shows "\<exists>vs'. vstep M (majority (length ms)) vs vs' \<and> sim ms (foldl (emit n) (set_node n (Some st') cl) out) vs'
    \<and> frozen (foldl (emit n) (set_node n (Some st') cl) out) vs vs'"
proof -
  note d = simD [OF sim st]
  let ?cl = "foldl (emit n) (set_node n (Some st') cl) out"
  have nodes: "nodes ?cl = (nodes cl)(n := Some st')" by (simp add: set_node_def)
  from d(2) have rel: "node_id w = n" "v_term vs n = term_of w" "v_vote vs n = vote_of w"
    "v_role vs n = VCandidate v" "cluster_size w = length ms" by (simp_all add: node_rel_def Let_def)
  have base: "node_id (inner_of st') = n \<and> node_ok (inner_of st') \<and> clients_ok (inner_of st')
      \<and> known (inner_of st') \<subseteq> set ms - {n} \<and> cluster_size (inner_of st') = length ms
      \<and> sized (inner_of st')"
    using d(2) q quiet_known [OF q] quiet_node_ok [OF q]
    by (auto simp: node_rel_def Let_def quiet_def same_node_def sized_def)
  let ?q = "majority (length ms)"
  let ?vs = "vs\<lparr>v_role := (v_role vs)(n := if ?q \<le> v + 1 then VLeader else VCandidate (v + 1)),
                granted := granted vs - {(n, v_term vs n, p)},
                counted := insert (n, v_term vs n, p) (counted vs),
                elected := (if ?q \<le> v + 1 then insert (v_term vs n, n) (elected vs) else elected vs)\<rparr>"
  have step: "vstep M ?q vs ?vs" by (rule vstep.count) (use tok rel in auto)
  have "wire_rel (net ?cl) ?vs"
    using emits_no_votes [OF all_local_no_votes [OF out], of n "set_node n (Some st') cl"] wire rel(2)
    by (simp add: wire_rel_def set_node_def)
  moreover have "quorum w = ?q" by (simp add: quorum_def majority_def rel(5))
  ultimately have "sim ms ?cl ?vs"
    by (intro sim_set_node [OF sim _ d(1) nodes])
      (use base rel role q in \<open>auto simp: others_same_def node_rel_def Let_def quiet_def\<close>)
  moreover have "frozen ?cl vs ?vs" by (rule frozen_set_node [OF _ nodes]) (simp add: others_same_def)
  ultimately show ?thesis using step by blast
qed

text \<open>A worker that panics, and a page that is loaded again.\<close>

lemma sim_halt:
  assumes "sim ms cl vs"
  shows "sim ms (set_node n None cl) vs"
  using assms by (auto simp: sim_def set_node_def)

lemma sim_frame:
  assumes "sim ms cl vs" and "nodes cl' = nodes cl" and "net cl' = net cl"
  shows "sim ms cl' vs"
  using assms by (simp add: sim_def)

lemma worker_new_recovers:
  assumes "node_ok w" and "worker_new (node_id w) (inner_session_key w) (peers w) [] (storage (store w)) = Inr w'"
  shows "store w' = store w \<and> node_ok w' \<and> node_id w' = node_id w \<and> peers w' = peers w \<and> peer_clients w' = []
    \<and> inner_session_key w' = inner_session_key w \<and> cluster_size w' = length (peers w) + 1"
  using assms Storage_new_recovers [of "store w"] by (auto simp: node_ok_def worker_new_def rbind_eq_Inr)

lemma restart_other_step:
  assumes "node_ok w" and "sized w"
    and "rbind (worker_new (node_id w) (inner_session_key w) (peers w) [] (storage (store w))) (to_follower env)
      = Inr (st', out)"
  shows "role_of st' = FollowerRole \<and> no_votes out \<and> other_step w (inner_of st') {}"
proof -
  from assms(3) obtain w1
    where n: "worker_new (node_id w) (inner_session_key w) (peers w) [] (storage (store w)) = Inr w1"
      and f: "to_follower env w1 = Inr (st', out)" by (auto simp: rbind_eq_Inr)
  note r = worker_new_recovers [OF assms(1) n]
  from to_follower_quiet [OF f] obtain w' where w': "st' = RaftWorkerState.Follower w'" "quiet w1 w'" "all_local out"
    by auto
  with r assms(2) quiet_node_ok [OF w'(2)] show ?thesis
    by (auto simp: other_step_def quiet_def same_node_def term_step_def known_def clients_ok_def sized_def
        intro: all_local_no_votes)
qed

section \<open>The simulation\<close>

text \<open>
  The simulation needs that no term has reached the last value of a \<^verbatim>\<open>u64\<close>; the next section
  bounds terms by the number of timeouts.
\<close>

definition below_max :: "'cmd cluster \<Rightarrow> bool" where
  "below_max cl \<longleftrightarrow> (\<forall>n st. nodes cl n = Some st \<longrightarrow> term_of (inner_of st) \<noteq> - 1)"

abbreviation simulated :: "NodeId list \<Rightarrow> 'cmd cluster \<Rightarrow> (NodeId, u64) vsys \<Rightarrow> bool" where
  "simulated ms cl' vs \<equiv> \<exists>vs'. vstep (set ms) (majority (length ms)) vs vs' \<and> sim ms cl' vs' \<and> frozen cl' vs vs'"

lemma simulated_idle: "sim ms cl' vs \<Longrightarrow> simulated ms cl' vs"
  using vstep.idle frozen_refl by blast

text \<open>Every event but a vote request and a counted vote, on one node.\<close>

lemma sim_run_event:
  assumes sim: "sim ms cl vs" and tok: "tokens_ok (set ms) vs" and max: "below_max cl"
    and new: "newly_known ev \<subseteq> set ms - {n}"
    and no: "\<And>st. nodes cl n = Some st \<Longrightarrow> election_event st ev \<Longrightarrow> ev = TimerEvent"
  shows "simulated ms (run_event env n ev cl) vs"
proof (cases "nodes cl n")
  case None
  then show ?thesis using sim by (auto simp: run_event_def intro: simulated_idle)
next
  case (Some st)
  note d = simD [OF sim Some]
  from d(2) have ok: "node_ok (inner_of st)" by (simp add: node_rel_def Let_def)
  show ?thesis
  proof (cases "worker_step env st ev")
    case (Inl e)
    then show ?thesis using sim_halt [OF sim] Some
      by (auto simp: run_event_def finish_def intro: simulated_idle)
  next
    case (Inr r)
    obtain st' out where r: "r = (st', out)" by force
    have run: "run_event env n ev cl = foldl (emit n) (set_node n (Some st') cl) out"
      using Some Inr r by (simp add: run_event_def finish_def)
    show ?thesis
    proof (cases "election_event st ev")
      case False
      note o = step_other [OF ok False Inr [unfolded r]]
      from sim_other [OF sim Some o new] show ?thesis by (simp add: run)
    next
      case True
      then have ev: "ev = TimerEvent" by (rule no [OF Some])
      then have "role_of st \<noteq> LeaderRole" using True by (simp add: election_event_def)
      from step_timer [OF ok this] Inr ev r
      have "starts_election (inner_of st) (inner_of st') out" "role_of st' = CandidateRole 1" by auto
      from sim_start [OF sim Some tok this] max Some show ?thesis by (auto simp: run below_max_def)
    qed
  qed
qed


lemma sim_serve:
  assumes sim: "sim ms cl vs" and tok: "tokens_ok (set ms) vs" and max: "below_max cl"
    and pk: "packet_ok (Call orig req)"
    and wire: "\<And>tk. call_token (Call orig req) = Some tk \<Longrightarrow>
      tk \<in> called vs \<and> wire_rel (net cl) (vs\<lparr>called := called vs - {tk}\<rparr>)"
  shows "simulated ms (serve env orig req cl) vs"
proof -
  let ?tx = "next_tx cl" and ?n = "o_to orig"
  let ?cl = "cl\<lparr>pending := (?tx, orig) # pending cl, next_tx := ?tx + 1\<rparr>"
  have simc: "sim ms ?cl vs" by (rule sim_frame [OF sim]) simp_all
  have serve: "serve env orig req cl = run_event env ?n (RpcEvent req ?tx) ?cl"
    by (simp add: serve_def Let_def)
  show ?thesis
  proof (cases "\<exists>rv. req = RequestVote rv")
    case False
    then have "\<not> election_event st (RpcEvent req ?tx)" for st
      by (auto simp: election_event_def split: RpcRequest.splits)
    then show ?thesis using max unfolding serve
      by (intro sim_run_event [OF simc tok]) (auto simp: below_max_def newly_known_def)
  next
    case True
    then obtain rv where req: "req = RequestVote rv" ..
    with pk have tag: "o_tag orig = VoteTag (rv_term rv)" and cand: "rv_candidate rv = o_from orig" by auto
    let ?tk = "(o_from orig, rv_term rv, ?n)"
    from wire [of ?tk] have w: "?tk \<in> called vs" "wire_rel (net cl) (vs\<lparr>called := called vs - {?tk}\<rparr>)"
      by (auto simp: req)
    have fresh: "?tk \<notin> granted vs" using tok w(1) by (auto simp: tokens_ok_def)
    show ?thesis
    proof (cases "nodes cl ?n")
      case None
      then show ?thesis using simc by (auto simp: serve run_event_def intro: simulated_idle)
    next
      case (Some st)
      then have Some': "nodes ?cl ?n = Some st" by simp
      from simD(2) [OF simc Some'] have ok: "node_ok (inner_of st)" by (simp add: node_rel_def Let_def)
      show ?thesis
      proof (cases "worker_step env st (RpcEvent req ?tx)")
        case (Inl e)
        then show ?thesis using sim_halt [OF simc] Some
          by (auto simp: serve run_event_def finish_def intro: simulated_idle)
      next
        case (Inr r)
        obtain st' out where r: "r = (st', out)" by force
        have run: "serve env orig req cl = foldl (emit ?n) (set_node ?n (Some st') ?cl) out"
          using Some Inr r by (simp add: serve run_event_def finish_def)
        from step_vote_request [OF ok Inr [unfolded r req]] obtain resp rest
          where v: "out = RpcReply ?tx (RequestVoteR resp) # rest" "all_local rest"
            "vote_answered (role_of st = LeaderRole) rv (inner_of st) (inner_of st') resp"
            "role_of st' = (if term_of (inner_of st) < rv_term rv then FollowerRole else role_of st)" .
        have "wire_rel (net ?cl) (vs\<lparr>called := called vs - {?tk}\<rparr>)" using w(2) by simp
        from sim_vote [OF simc Some' w(1) this fresh cand _ refl refl tag v(3,4,1,2)] show ?thesis
          by (simp add: run)
      qed
    qed
  qed
qed

lemma vote_outcome_True: "vote_outcome res = Inr True \<Longrightarrow> \<exists>resp. res = Inr (RequestVoteR resp) \<and> rvr_vote_granted resp"
  by (auto simp: vote_outcome_def split: sum.splits RpcResponse.splits)

lemma sim_emits:
  assumes "sim ms cl vs" and "no_votes out"
  shows "sim ms (foldl (emit n) cl out) vs"
  using assms emits_no_votes [OF assms(2), of n cl] by (simp add: sim_def wire_rel_def)

lemma sim_call_outcome:
  assumes sim: "sim ms cl vs" and tok: "tokens_ok (set ms) vs" and max: "below_max cl"
    and wire: "\<And>tk. grant_token (Answer orig res) = Some tk \<Longrightarrow>
      tk \<in> granted vs \<and> wire_rel (net cl) (vs\<lparr>granted := granted vs - {tk}\<rparr>)"
  shows "simulated ms (call_outcome env orig res cl) vs"
proof -
  let ?n = "o_from orig"
  show ?thesis
  proof (cases "boots cl ?n = o_boot orig")
    case False
    then show ?thesis using sim by (simp add: call_outcome_def Let_def simulated_idle)
  next
    case boot: True
    show ?thesis
    proof (cases "o_tag orig")
      case (VoteTag t)
      show ?thesis
      proof (cases "vote_outcome res = Inr True \<and> is_candidate_in cl ?n t")
        case False
        then show ?thesis using sim boot VoteTag by (auto simp: call_outcome_def Let_def intro: simulated_idle)
      next
        case True
        then obtain resp where res: "res = Inr (RequestVoteR resp)" "rvr_vote_granted resp"
          using vote_outcome_True by blast
        from True obtain w v where st: "nodes cl ?n = Some (RaftWorkerState.Candidate w v)" "term_of w = t"
          by (auto simp: is_candidate_in_def split: option.splits RaftWorkerState.splits)
        have run: "call_outcome env orig res cl = run_event env ?n VoteEvent cl"
          using boot VoteTag True by (simp add: call_outcome_def Let_def)
        from wire res VoteTag have w: "(?n, t, o_to orig) \<in> granted vs"
          "wire_rel (net cl) (vs\<lparr>granted := granted vs - {(?n, t, o_to orig)}\<rparr>)" by auto
        show ?thesis
        proof (cases "worker_step env (RaftWorkerState.Candidate w v) VoteEvent")
          case (Inl e)
          then show ?thesis using sim_halt [OF sim] st
            by (auto simp: run run_event_def finish_def intro: simulated_idle)
        next
          case (Inr r)
          obtain st' out where r: "r = (st', out)" by force
          have "node_ok w" using simD(2) [OF sim st(1)] by (simp add: node_rel_def Let_def)
          from step_vote [OF this Inr [unfolded r]] have q: "quiet w (inner_of st')" "all_local out"
            "role_of st' = (if quorum w \<le> v + 1 then LeaderRole else CandidateRole (v + 1))" by simp_all
          have "run_event env ?n VoteEvent cl = foldl (emit ?n) (set_node ?n (Some st') cl) out"
            using st Inr r by (simp add: run_event_def finish_def)
          with sim_count [OF sim st(1) _ _ q, of "o_to orig"] w st(2) show ?thesis by (simp add: run)
        qed
      qed
    next
      case (AppendTag t p i j)
      show ?thesis
      proof (cases "is_leader_in cl ?n t")
        case False
        then show ?thesis using sim boot AppendTag by (simp add: call_outcome_def Let_def simulated_idle)
      next
        case True
        have "simulated ms (run_event env ?n (AppendResponse p i j res) cl) vs"
          by (rule sim_run_event [OF sim tok max]) (auto simp: newly_known_def election_event_def)
        then show ?thesis using True boot AppendTag by (simp add: call_outcome_def Let_def)
      qed
    next
      case (ForwardTag k)
      have "no_votes out" if "forward_outcome res k = Inr out" for out :: "'a effect list"
        using that by (auto simp: forward_outcome_def split: sum.splits RpcResponse.splits)
      then show ?thesis using sim_emits [OF sim] sim boot ForwardTag
        by (auto simp: call_outcome_def Let_def simulated_idle split: sum.splits)
    qed
  qed
qed

lemma sim_restart:
  assumes sim: "sim ms cl vs"
  shows "simulated ms (restart env n cl) vs"
proof (cases "nodes cl n")
  case None
  then show ?thesis using sim by (simp add: restart_def simulated_idle)
next
  case (Some st)
  let ?w = "inner_of st"
  let ?cl = "cl\<lparr>boots := (boots cl)(n := boots cl n + 1), applied := (applied cl)(n := [])\<rparr>"
  let ?r = "rbind (worker_new (node_id ?w) (inner_session_key ?w) (peers ?w) [] (storage (store ?w))) (to_follower env)"
  have simc: "sim ms ?cl vs" by (rule sim_frame [OF sim]) simp_all
  have run: "restart env n cl = finish n ?r ?cl" using Some by (simp add: restart_def Let_def)
  show ?thesis
  proof (cases ?r)
    case (Inl e)
    then show ?thesis using sim_halt [OF simc] by (simp add: run finish_def simulated_idle)
  next
    case (Inr r)
    obtain st' out where r: "r = (st', out)" by force
    from simD(2) [OF sim Some] have ok: "node_ok ?w" and size: "sized ?w"
      by (simp_all add: node_rel_def Let_def)
    from restart_other_step [OF ok size Inr [unfolded r]] have o: "role_of st' = FollowerRole" "no_votes out"
      "other_step ?w (inner_of st') {}" by simp_all
    have Some': "nodes ?cl n = Some st" using Some by simp
    from sim_other [OF simc Some' _ o(2,3)] o(1)
    show ?thesis by (simp add: run finish_def Inr [unfolded r])
  qed
qed

lemma sim_act:
  assumes sim: "sim ms cl vs" and tok: "tokens_ok (set ms) vs" and max: "below_max cl"
    and mem: "member_action ms a"
  shows "simulated ms (act env cl a) vs"
proof (cases a)
  case (Tick n)
  then show ?thesis using sim_run_event [OF sim tok max, of TimerEvent n env] by (simp add: newly_known_def)
next
  case (Request n req k)
  then show ?thesis using sim_run_event [OF sim tok max, of "ClientEvent req k" n env]
    by (simp add: newly_known_def election_event_def)
next
  case (Connect n p)
  then show ?thesis using sim_run_event [OF sim tok max, of "PeerEvent p" n env] mem
    by (simp add: newly_known_def election_event_def)
next
  case (Lose n p)
  then show ?thesis using sim_run_event [OF sim tok max, of "ConnectionLost p" n env]
    by (simp add: newly_known_def election_event_def)
next
  case (Deliver k)
  show ?thesis
  proof (cases "k < length (net cl)")
    case False
    then show ?thesis using sim Deliver by (simp add: simulated_idle)
  next
    case True
    note simc = sim_take [OF sim True]
    obtain as bs where split: "net cl = as @ net cl ! k # bs" "net (take_packet k cl) = as @ bs"
      by (rule take_packet_split [OF True])
    have wire: "wire_rel (as @ net cl ! k # bs) vs" using sim split(1) by (simp add: sim_def)
    note w = wire_rel_take [OF wire]
    have maxc: "below_max (take_packet k cl)" using max by (simp add: below_max_def)
    show ?thesis
    proof (cases "net cl ! k")
      case (Call orig req)
      with w(2,3) split have "simulated ms (serve env orig req (take_packet k cl)) vs"
        by (intro sim_serve [OF simc tok maxc]) simp_all
      then show ?thesis using Deliver True Call by simp
    next
      case (Answer orig res)
      with w(4) split have "simulated ms (call_outcome env orig res (take_packet k cl)) vs"
        by (intro sim_call_outcome [OF simc tok maxc]) simp_all
      then show ?thesis using Deliver True Answer by simp
    qed
  qed
next
  case (Fail k err)
  show ?thesis
  proof (cases "k < length (net cl)")
    case False
    then show ?thesis using sim Fail by (simp add: simulated_idle)
  next
    case True
    have "simulated ms (call_outcome env (packet_origin (net cl ! k)) (Inl err) (take_packet k cl)) vs"
      by (rule sim_call_outcome [OF sim_take [OF sim True] tok]) (use max in \<open>auto simp: below_max_def\<close>)
    then show ?thesis using Fail True by simp
  qed
next
  case (Drop k)
  show ?thesis
  proof (cases "k < length (net cl)")
    case True
    then show ?thesis using sim_take [OF sim True] Drop by (simp add: simulated_idle)
  next
    case False
    then have "net (take_packet k cl) = net cl" by (simp add: take_packet_def)
    then have "sim ms (take_packet k cl) vs" by (intro sim_frame [OF sim]) simp_all
    then show ?thesis using Drop by (simp add: simulated_idle)
  qed
next
  case (Expire tx err)
  show ?thesis
  proof (cases "map_of (pending cl) tx")
    case None
    then show ?thesis using sim Expire by (simp add: simulated_idle)
  next
    case (Some orig)
    have "sim ms (cl\<lparr>pending := AList.delete tx (pending cl)\<rparr>) vs" by (rule sim_frame [OF sim]) simp_all
    then have "simulated ms (call_outcome env orig (Inl err) (cl\<lparr>pending := AList.delete tx (pending cl)\<rparr>)) vs"
      by (rule sim_call_outcome [OF _ tok]) (use max in \<open>auto simp: below_max_def\<close>)
    then show ?thesis using Expire Some by simp
  qed
next
  case (Restart n)
  then show ?thesis using sim_restart [OF sim] by simp
qed

end
