(* ===== verification/ClusterInvariant.thy ===== *)
theory ClusterInvariant
  imports Cluster
begin

text \<open>
  What must be shown of a property of the cluster for every action to keep it. The properties of
  the following theories (the bound on the terms, the replicated logs) are instances.
\<close>

text \<open>The RPCs and answers that an event carries come from the packets \<open>N\<close>.\<close>

definition sourced :: "'cmd packet set \<Rightarrow> 'cmd event \<Rightarrow> bool" where
  "sourced N ev \<longleftrightarrow>
     (case ev of
        RpcEvent req tx \<Rightarrow> \<exists>orig. Call orig req \<in> N
      | AppendResponse p i j (Inr resp) \<Rightarrow> \<exists>orig. Answer orig (Inr resp) \<in> N
      | _ \<Rightarrow> True)"

lemma sourced_simps [simp]:
  "sourced N (ClientEvent req k)" "sourced N (PeerEvent p)" "sourced N TimerEvent" "sourced N VoteEvent"
  "sourced N (ConnectionLost p)" "sourced N (AppendResponse p i j (Inl err))"
  "sourced N (RpcEvent rpc tx) \<longleftrightarrow> (\<exists>orig. Call orig rpc \<in> N)"
  "sourced N (AppendResponse p i j (Inr resp)) \<longleftrightarrow> (\<exists>orig. Answer orig (Inr resp) \<in> N)"
  by (simp_all add: sourced_def)

text \<open>
  \<open>P\<close> holds before an action and \<open>Q\<close> after it: \<open>P\<close> depends on the nodes, their page loads, on what the
  state machines got and monotonically on the network, and each event of a node, each answer to a forwarded request and each restart leads
  from \<open>P\<close> to \<open>Q\<close>.
\<close>

locale preserved =
  fixes env :: "'cmd env" and N :: "'cmd packet set" and P Q :: "'cmd cluster \<Rightarrow> bool"
  assumes weaken: "P cl \<Longrightarrow> Q cl"
    and frame: "P cl \<Longrightarrow> nodes cl' = nodes cl \<Longrightarrow> boots cl' = boots cl \<Longrightarrow> applied cl' = applied cl \<Longrightarrow>
      set (net cl') \<subseteq> set (net cl) \<Longrightarrow> P cl'"
    and event: "P cl \<Longrightarrow> sourced N ev \<Longrightarrow> Q (run_event env n ev cl)"
    and forwarded: "P cl \<Longrightarrow> forward_outcome res k = Inr out \<Longrightarrow> Q (foldl (emit n) cl out)"
    and restarted: "P cl \<Longrightarrow> Q (restart env n cl)"
begin

lemma take: "P cl \<Longrightarrow> P (take_packet k cl)"
  by (erule frame) (auto simp: take_packet_def dest: in_set_takeD in_set_dropD)

lemma outcome:
  assumes "P cl" and "\<And>resp. res = Inr resp \<Longrightarrow> \<exists>orig. Answer orig (Inr resp) \<in> N"
  shows "Q (call_outcome env orig res cl)"
proof -
  have "sourced N (AppendResponse p i j res)" for p i j using assms(2) by (cases res) simp_all
  then show ?thesis using assms(1)
    by (auto simp: call_outcome_def Let_def intro: weaken event forwarded split: tag.splits sum.splits)
qed

lemma delivered:
  assumes "P cl" and "set (net cl) \<subseteq> N"
  shows "Q (act env cl (Deliver k))"
proof (cases "k < length (net cl)")
  case True
  then have mem: "net cl ! k \<in> N" using assms(2) by auto
  show ?thesis
  proof (cases "net cl ! k")
    case (Call orig req)
    let ?cl = "take_packet k cl"
    have "P (?cl\<lparr>pending := (next_tx ?cl, orig) # pending ?cl, next_tx := next_tx ?cl + 1\<rparr>)"
      by (rule frame [OF take [OF assms(1)]]) (auto simp: take_packet_def)
    from event [OF this, of "RpcEvent req (next_tx ?cl)"] Call mem True show ?thesis
      by (auto simp: serve_def Let_def)
  next
    case (Answer orig res)
    have "Q (call_outcome env orig res (take_packet k cl))"
      by (rule outcome [OF take [OF assms(1)]]) (use mem Answer in auto)
    with Answer True show ?thesis by simp
  qed
qed (use assms weaken in simp)

lemma step:
  assumes "P cl" and "set (net cl) \<subseteq> N"
  shows "Q (act env cl a)"
proof (cases a)
  case (Deliver k)
  with delivered [OF assms] show ?thesis by simp
next
  case (Expire tx err)
  have "P (cl\<lparr>pending := AList.delete tx (pending cl)\<rparr>)" by (rule frame [OF assms(1)]) simp_all
  from outcome [OF this, of "Inl err"] assms(1) Expire weaken show ?thesis by (auto split: option.splits)
next
  case (Fail k err)
  have "Q (call_outcome env orig (Inl err) (take_packet k cl))" for orig
    by (rule outcome [OF take [OF assms(1)]]) simp
  with Fail assms(1) weaken show ?thesis by simp
qed (use assms(1) event weaken restarted take in auto)

end

end
