(* ===== verification/Terms.thy ===== *)
theory Terms
  imports Simulation ClusterInvariant
begin

text \<open>
  How fast terms grow: a node's term never exceeds what it had, what a message brought and, when
  an election starts, one more; and no message carries more than its sender's term. Hence no term
  exceeds the number of timeouts, and a \<^verbatim>\<open>u64\<close> does not wrap around.
\<close>

section \<open>Terms in one step\<close>

fun effect_term :: "'cmd effect \<Rightarrow> TermIndex" where
  "effect_term (CallVote p req) = rv_term req"
| "effect_term (CallAppend p i j req) = ae_term req"
| "effect_term (RpcReply tx (AppendEntriesR resp)) = aer_term resp"
| "effect_term _ = 0"

fun request_term :: "'cmd RpcRequest \<Rightarrow> TermIndex" where
  "request_term (RequestVote req) = rv_term req"
| "request_term (AppendEntries req) = ae_term req"
| "request_term (ForwardClientRequest _) = 0"

fun response_term :: "TransportError + 'cmd RpcResponse \<Rightarrow> TermIndex" where
  "response_term (Inr (AppendEntriesR resp)) = aer_term resp"
| "response_term _ = 0"

fun event_term :: "'cmd event \<Rightarrow> TermIndex" where
  "event_term (RpcEvent req tx) = request_term req"
| "event_term (AppendResponse p i j res) = response_term res"
| "event_term _ = 0"

abbreviation carries :: "TermIndex \<Rightarrow> 'cmd effect list \<Rightarrow> bool" where
  "carries t out \<equiv> list_all (\<lambda>e. effect_term e \<le> t) out"

lemma local_carries: "all_local out \<Longrightarrow> carries t out"
  by (induction out) (auto simp: is_local_def split: effect.splits)

lemma handle_append_entries_resp_term:
  "handle_append_entries env w req = Inr (w', resp) \<Longrightarrow> aer_term resp = term_of w"
  by (auto simp: handle_append_entries_def Let_def rbind_eq_Inr split: if_splits)

lemma append_entries_carries:
  "append_entries env w l p = Inr (l', out) \<Longrightarrow> carries (term_of w) out"
  by (auto simp: append_entries_def Let_def rbind_eq_Inr split: option.splits if_splits)

lemma append_entries_all_carries:
  "append_entries_all env w l ps = Inr (l', out) \<Longrightarrow> carries (term_of w) out"
  by (induction ps arbitrary: l l' out)
    (auto simp: rbind_eq_Inr dest: append_entries_carries split: prod.splits)

definition bounded_step :: "Inner \<Rightarrow> TermIndex \<Rightarrow> Inner \<Rightarrow> 'cmd effect list \<Rightarrow> bool" where
  "bounded_step w t w' out \<longleftrightarrow> term_of w' \<le> max (term_of w) t \<and> carries (term_of w') out"

lemma bounded_quiet:
  "bounded_step w t w1 o1 \<Longrightarrow> quiet w1 w' \<Longrightarrow> all_local o2 \<Longrightarrow> bounded_step w t w' (o1 @ o2)"
  using local_carries by (auto simp: bounded_step_def quiet_def)

lemma bounded_refl [simp]: "bounded_step w t w []"
  by (simp add: bounded_step_def)

lemma handle_client_request_bounded:
  assumes "node_ok w" and "handle_client_request env w l req tx = Inr (w', l', out)"
  shows "bounded_step w t w' out"
proof (cases req)
  case (Apply cmd)
  with assms(2) obtain o1 where h: "handle_log_update env w l cmd tx = Inr (w', l', o1)"
    and out: "out = o1 @ [ResetHeartbeat]"
    by (auto simp: handle_client_request_def rbind_eq_Inr)
  from h have "carries (term_of w') o1"
    by (auto simp: handle_log_update_def Let_def rbind_eq_Inr dest: append_entries_all_carries)
  with handle_log_update_meta [OF assms(1) h] out show ?thesis by (simp add: bounded_step_def)
qed (use assms in \<open>auto simp: handle_client_request_def handle_debug_def bounded_step_def\<close>)

lemma handle_append_entries_response_bounded:
  assumes ok: "node_ok w" and h: "handle_append_entries_response env w l p i j res = Inr (w', l', out, ch)"
  shows "bounded_step w (response_term res) w' out"
proof (cases "\<exists>resp. res = Inr (AppendEntriesR resp)")
  case True
  then obtain resp where res: "res = Inr (AppendEntriesR resp)" ..
  with h obtain s b where s: "update_term env (store w) (aer_term resp) = Inr (s, b)"
    by (auto simp: handle_append_entries_response_def Let_def rbind_eq_Inr)
  note u = update_term_node [OF ok s]
  have "w' = w\<lparr>store := s\<rparr> \<and> carries (term_of w') out"
    using h res s append_entries_carries [of env "w\<lparr>store := s\<rparr>"]
    by (auto simp: handle_append_entries_response_def Let_def rbind_eq_Inr
        split: if_splits option.splits)
  moreover from this u(3) have "term_of w' = max (term_of w) (aer_term resp)" by simp
  ultimately show ?thesis using res by (simp add: bounded_step_def del: max.bounded_iff)
next
  case False
  with h show ?thesis
    by (auto simp: handle_append_entries_response_def Let_def bounded_step_def
        split: sum.splits RpcResponse.splits)
qed

lemma appended_bounded:
  assumes "node_ok w" and "update_term env (store w) (ae_term req) = Inr (s, b)"
    and "handle_append_entries env (w\<lparr>store := s, leader_id := l\<rparr>) req = Inr (w', resp)"
  shows "bounded_step w (ae_term req) w' [RpcReply tx (AppendEntriesR resp)]"
    and "bounded_step w (ae_term req) w' [RpcReply tx (AppendEntriesR resp), ResetElectionTimeout]"
proof -
  from assms(1) have "node_ok (w\<lparr>leader_id := l\<rparr>)" by (simp add: node_ok_def)
  note u = update_then_append [OF assms]
  have "term_of w' = current_term s"
    using handle_append_entries_meta [OF _ assms(3)] update_term_node(1) [OF assms(1,2)]
    by (simp add: node_ok_def)
  with u handle_append_entries_resp_term [OF assms(3)]
  show "bounded_step w (ae_term req) w' [RpcReply tx (AppendEntriesR resp)]"
    "bounded_step w (ae_term req) w' [RpcReply tx (AppendEntriesR resp), ResetElectionTimeout]"
    by (simp_all add: bounded_step_def)
qed

text \<open>The three handlers of RPCs other than vote requests.\<close>

lemma follower_rpc_bounded:
  assumes "node_ok w" and "follower_handle_rpc env w rpc tx = Inr (w', out)" and "\<And>req. rpc \<noteq> RequestVote req"
  shows "bounded_step w (request_term rpc) w' out"
proof (cases rpc)
  case (AppendEntries req)
  with assms(2) obtain s b resp where "update_term env (store w) (ae_term req) = Inr (s, b)"
    "handle_append_entries env (w\<lparr>store := s, leader_id := Some (ae_leader_id req)\<rparr>) req = Inr (w', resp)"
    "out = [RpcReply tx (AppendEntriesR resp), ResetElectionTimeout]"
    by (auto simp: follower_handle_rpc_def rbind_eq_Inr)
  with appended_bounded(2) [OF assms(1) this(1,2)] AppendEntries show ?thesis by simp
qed (use assms in \<open>auto simp: follower_handle_rpc_def bounded_step_def\<close>)

lemma candidate_rpc_bounded:
  assumes "node_ok w" and "candidate_handle_rpc env w rpc tx = Inr (w', out, ch)"
    and "\<And>req. rpc \<noteq> RequestVote req"
  shows "bounded_step w (request_term rpc) w' out"
proof (cases rpc)
  case (AppendEntries req)
  with assms(2) obtain s b resp where "update_term env (store w) (ae_term req) = Inr (s, b)"
    "handle_append_entries env (w\<lparr>store := s, leader_id := leader_id w\<rparr>) req = Inr (w', resp)"
    "out = [RpcReply tx (AppendEntriesR resp)]"
    by (auto simp: candidate_handle_rpc_def rbind_eq_Inr)
  with appended_bounded(1) [OF assms(1) this(1,2)] AppendEntries show ?thesis by simp
qed (use assms in \<open>auto simp: candidate_handle_rpc_def bounded_step_def\<close>)

lemma leader_rpc_bounded:
  assumes ok: "node_ok w" and h: "leader_handle_rpc env w l rpc tx = Inr (w', l', out, ch)"
    and "\<And>req. rpc \<noteq> RequestVote req"
  shows "bounded_step w (request_term rpc) w' out"
proof (cases rpc)
  case (AppendEntries req)
  with h obtain s b where s: "update_term env (store w) (ae_term req) = Inr (s, b)"
    by (auto simp: leader_handle_rpc_def Let_def rbind_eq_Inr)
  show ?thesis
  proof (cases b)
    case True
    with h AppendEntries s obtain resp
      where "handle_append_entries env (w\<lparr>store := s, leader_id := leader_id w\<rparr>) req = Inr (w', resp)"
        "out = [RpcReply tx (AppendEntriesR resp)]"
      by (auto simp: leader_handle_rpc_def Let_def rbind_eq_Inr)
    with appended_bounded(1) [OF ok s this(1)] AppendEntries show ?thesis by simp
  next
    case False
    with h AppendEntries s update_term_node(5) [OF ok s] show ?thesis
      by (auto simp: leader_handle_rpc_def Let_def bounded_step_def)
  qed
next
  case (ForwardClientRequest req)
  with h have "handle_client_request env w l req (RelayTx tx) = Inr (w', l', out)"
    by (auto simp: leader_handle_rpc_def Let_def rbind_eq_Inr)
  from handle_client_request_bounded [OF ok this] show ?thesis .
qed (use assms(3) in auto)

lemma clients_carry [simp]:
  "carries t (follower_handle_client w req tx)" "carries t (candidate_handle_client w req tx)"
  by (auto simp: follower_handle_client_def candidate_handle_client_def handle_debug_def
      forward_client_request_def split: ClientRequest.splits option.splits)

lemma heartbeat_carries: "leader_heartbeat env w l = Inr (l', out) \<Longrightarrow> carries (term_of w) out"
  using append_entries_all_carries by (fastforce simp: leader_heartbeat_def rbind_eq_Inr)

lemma handled_bounded:
  assumes ok: "node_ok (inner_of st)" and no: "\<not> election_event st ev" and h: "handled env st ev w out r"
  shows "bounded_step (inner_of st) (event_term ev) w out"
  using h
proof cases
  case (follower_rpc w0 rpc tx)
  then have "\<And>req. rpc \<noteq> RequestVote req" using no by (auto simp: election_event_def)
  from follower_rpc_bounded [OF _ follower_rpc(4) this] ok follower_rpc(1,2) show ?thesis by simp
next
  case (candidate_rpc w0 rpc tx ch v)
  then have "\<And>req. rpc \<noteq> RequestVote req" using no by (auto simp: election_event_def)
  from candidate_rpc_bounded [OF _ candidate_rpc(4) this] ok candidate_rpc(1,2) show ?thesis by simp
next
  case (leader_rpc w0 l rpc tx l' ch)
  then have "\<And>req. rpc \<noteq> RequestVote req" using no by (auto simp: election_event_def)
  from leader_rpc_bounded [OF _ leader_rpc(4) this] ok leader_rpc(1,2) show ?thesis by simp
next
  case (leader_response w0 l p i j res l' ch)
  from handle_append_entries_response_bounded [OF _ leader_response(4)] ok leader_response(1,2) show ?thesis by simp
next
  case (leader_client w0 l req tx l')
  from handle_client_request_bounded [OF _ leader_client(4)] ok leader_client(1,2) show ?thesis by simp
next
  case (leader_timer l l')
  from heartbeat_carries [OF leader_timer(4)] leader_timer(1) show ?thesis by (simp add: bounded_step_def)
qed (use no in \<open>auto simp: bounded_step_def election_event_def handle_new_peer_meta connection_lost_meta\<close>)

lemma step_bounded_other:
  assumes "node_ok (inner_of st)" and "\<not> election_event st ev" and step: "worker_step env st ev = Inr (st', out)"
  shows "bounded_step (inner_of st) (event_term ev) (inner_of st') out"
proof -
  from worker_step_parts [OF step] obtain w o1 o2 where h: "handled env st ev w o1 (role_of st')"
    and q: "out = o1 @ o2" "quiet w (inner_of st')" "all_local o2" .
  from bounded_quiet [OF handled_bounded [OF assms(1,2) h] q(2,3)] show ?thesis by (simp add: q(1))
qed

lemma event_cases [case_names other vote timer count]:
  obtains (other) "\<not> election_event st ev" | (vote) req tx where "ev = RpcEvent (RequestVote req) tx"
  | (timer) "ev = TimerEvent" "role_of st \<noteq> LeaderRole"
  | (count) w v where "ev = VoteEvent" "st = RaftWorkerState.Candidate w v"
proof (cases ev)
  case (RpcEvent rpc tx)
  then show ?thesis using that by (cases rpc) (auto simp: election_event_def)
next
  case VoteEvent
  then show ?thesis using that by (cases st) (auto simp: election_event_def)
qed (use that in \<open>auto simp: election_event_def\<close>)

lemma step_terms:
  assumes ok: "node_ok (inner_of st)" and step: "worker_step env st ev = Inr (st', out)"
    and "unat (term_of (inner_of st)) \<le> b" and "unat (event_term ev) \<le> b"
  shows "unat (term_of (inner_of st')) \<le> Suc b \<and> carries (term_of (inner_of st')) out"
proof -
  have bounded: ?thesis if "bounded_step (inner_of st) (event_term ev) (inner_of st') out"
    using that assms(3,4) by (auto simp: bounded_step_def le_max_iff_disj word_le_nat_alt)
  show ?thesis
  proof (cases st ev rule: event_cases)
    case other
    from bounded [OF step_bounded_other [OF ok other step]] show ?thesis .
  next
    case (vote req tx)
    from step_vote_request [OF ok step [unfolded vote]] obtain resp rest
      where "out = RpcReply tx (RequestVoteR resp) # rest" "all_local rest"
        "vote_answered (role_of st = LeaderRole) req (inner_of st) (inner_of st') resp" .
    then show ?thesis using vote
      by (intro bounded) (auto simp: bounded_step_def vote_answered_def intro: local_carries)
  next
    case timer
    from step_timer [OF ok timer(2) step [unfolded timer(1)]]
    have el: "starts_election (inner_of st) (inner_of st') out" by simp
    then have t: "term_of (inner_of st') = term_of (inner_of st) + 1" by (simp add: starts_election_def)
    have "unat (term_of (inner_of st) + 1) \<le> Suc (unat (term_of (inner_of st)))"
      by (cases "term_of (inner_of st) = - 1") (simp_all add: unat_plus_one)
    moreover from el have "carries (term_of (inner_of st')) out"
      using local_carries by (auto simp: starts_election_def list.pred_map comp_def list.pred_True)
    ultimately show ?thesis using t assms(3) by simp
  next
    case (count w v)
    from step_vote [of w env v st' out] step ok count have "quiet w (inner_of st')" "all_local out" by simp_all
    then show ?thesis using count by (intro bounded) (auto simp: bounded_step_def quiet_def intro: local_carries)
  qed
qed

section \<open>Terms in the cluster\<close>

fun packet_term :: "'cmd packet \<Rightarrow> TermIndex" where
  "packet_term (Call orig req) = request_term req"
| "packet_term (Answer orig res) = response_term res"

definition terms_upto :: "nat \<Rightarrow> 'cmd cluster \<Rightarrow> bool" where
  "terms_upto b cl \<longleftrightarrow>
     (\<forall>n st. nodes cl n = Some st \<longrightarrow> node_ok (inner_of st) \<and> unat (term_of (inner_of st)) \<le> b) \<and>
     list_all (\<lambda>pk. unat (packet_term pk) \<le> b) (net cl)"

lemma emit_terms:
  assumes "list_all (\<lambda>pk. unat (packet_term pk) \<le> b) (net cl)" and "unat (effect_term e) \<le> b"
  shows "list_all (\<lambda>pk. unat (packet_term pk) \<le> b) (net (emit n cl e))"
  using assms
proof (cases "(n, cl, e)" rule: emit.cases)
  case (1 n cl tx resp)
  with assms show ?thesis by (cases resp) (auto simp: respond_def split: option.splits)
qed (auto simp: respond_def send_def split: option.splits)

lemma emits_terms:
  assumes "list_all (\<lambda>pk. unat (packet_term pk) \<le> b) (net cl)" and "carries t out" and "unat t \<le> b"
  shows "list_all (\<lambda>pk. unat (packet_term pk) \<le> b) (net (foldl (emit n) cl out))"
  using assms(1,2)
proof (induction out arbitrary: cl)
  case (Cons e out)
  then have "unat (effect_term e) \<le> b" using assms(3) by (auto simp: word_le_nat_alt)
  from emit_terms [OF Cons.prems(1) this] Cons show ?case by simp
qed simp

lemma terms_upto_mono: "terms_upto b cl \<Longrightarrow> b \<le> b' \<Longrightarrow> terms_upto b' cl"
  by (fastforce simp: terms_upto_def list_all_iff)

text \<open>Node invariant of a step: \<^const>\<open>node_ok\<close>.\<close>

lemma step_node_ok:
  assumes ok: "node_ok (inner_of st)" and step: "worker_step env st ev = Inr (st', out)"
  shows "node_ok (inner_of st') \<and> same_node (inner_of st) (inner_of st')"
proof (cases st ev rule: event_cases)
    case other
    from step_other(3) [OF ok other step] show ?thesis by (simp add: other_step_def)
  next
    case (vote req tx)
    from step_vote_request [OF ok step [unfolded vote]] show ?thesis by (auto simp: vote_answered_def)
  next
    case timer
    from step_timer [OF ok timer(2) step [unfolded timer(1)]] show ?thesis by (simp add: starts_election_def)
  next
    case (count w v)
    from step_vote [of w env v st' out] step ok count quiet_node_ok [of w "inner_of st'"] show ?thesis
      by (simp add: quiet_def)
qed

lemma terms_finish:
  assumes "terms_upto b cl" and "\<And>st' out. r = Inr (st', out) \<Longrightarrow>
      node_ok (inner_of st') \<and> unat (term_of (inner_of st')) \<le> Suc b \<and> carries (term_of (inner_of st')) out"
  shows "terms_upto (Suc b) (finish n r cl)"
proof (cases r)
  case (Inl e)
  with terms_upto_mono [OF assms(1), of "Suc b"] show ?thesis
    by (auto simp: finish_def set_node_def terms_upto_def)
next
  case (Inr x)
  obtain st' out where x: "x = (st', out)" by force
  note a = assms(2) [OF Inr [unfolded x]]
  have "list_all (\<lambda>pk. unat (packet_term pk) \<le> Suc b) (net (set_node n (Some st') cl))"
    using terms_upto_mono [OF assms(1), of "Suc b"] by (simp add: terms_upto_def set_node_def)
  from emits_terms [OF this, of "term_of (inner_of st')" out n] a terms_upto_mono [OF assms(1), of "Suc b"]
  show ?thesis by (auto simp: finish_def Inr x terms_upto_def set_node_def)
qed

lemma terms_run_event:
  assumes "terms_upto b cl" and "unat (event_term ev) \<le> b"
  shows "terms_upto (Suc b) (run_event env n ev cl)"
proof (cases "nodes cl n")
  case None
  then show ?thesis using terms_upto_mono [OF assms(1), of "Suc b"] by (simp add: run_event_def)
next
  case (Some st)
  with assms(1) have "node_ok (inner_of st)" "unat (term_of (inner_of st)) \<le> b" by (auto simp: terms_upto_def)
  note st = this
  have "terms_upto (Suc b) (finish n (worker_step env st ev) cl)"
    by (rule terms_finish [OF assms(1)]) (use step_terms [OF st(1) _ st(2) assms(2)] step_node_ok [OF st(1)] in blast)
  then show ?thesis by (simp add: run_event_def Some)
qed


lemma terms_frame:
  assumes "terms_upto b cl" and "nodes cl' = nodes cl" and "set (net cl') \<subseteq> set (net cl)"
  shows "terms_upto b cl'"
  using assms by (auto simp: terms_upto_def list_all_iff)

lemma terms_forwarded:
  assumes "terms_upto b cl" and "forward_outcome res k = Inr out"
  shows "terms_upto (Suc b) (foldl (emit n) cl out)"
proof -
  have "carries 0 out" using assms(2) by (auto simp: forward_outcome_def split: sum.splits RpcResponse.splits)
  with emits_terms [of "Suc b" cl 0 out n] terms_upto_mono [OF assms(1), of "Suc b"] show ?thesis
    by (simp add: terms_upto_def)
qed

lemma terms_restart:
  assumes "terms_upto b cl"
  shows "terms_upto (Suc b) (restart env n cl)"
proof (cases "nodes cl n")
  case None
  then show ?thesis using terms_upto_mono [OF assms, of "Suc b"] by (simp add: restart_def)
next
  case (Some st)
  let ?w = "inner_of st"
  let ?cl = "cl\<lparr>boots := (boots cl)(n := boots cl n + 1), applied := (applied cl)(n := [])\<rparr>"
  let ?r = "rbind (worker_new (node_id ?w) (inner_session_key ?w) (peers ?w) [] (storage (store ?w))) (to_follower env)"
  from Some assms have ok: "node_ok ?w" and le: "unat (term_of ?w) \<le> b" by (auto simp: terms_upto_def)
  have t: "node_ok (inner_of st') \<and> unat (term_of (inner_of st')) \<le> Suc b \<and> carries (term_of (inner_of st')) out"
    if r: "?r = Inr (st', out)" for st' out
  proof -
    from r obtain w1
      where n: "worker_new (node_id ?w) (inner_session_key ?w) (peers ?w) [] (storage (store ?w)) = Inr w1"
      and f: "to_follower env w1 = Inr (st', out)" by (auto simp: rbind_eq_Inr)
    from to_follower_quiet [OF f] obtain w' where q: "st' = RaftWorkerState.Follower w'" "quiet w1 w'" "all_local out"
      by auto
    with worker_new_recovers [OF ok n] quiet_node_ok [OF q(2)] le local_carries [OF q(3)] show ?thesis
      by (simp add: quiet_def)
  qed
  have "terms_upto b ?cl" by (rule terms_frame [OF assms]) simp_all
  from terms_finish [OF this t] Some show ?thesis by (simp add: restart_def Let_def)
qed

text \<open>The bound is preserved in the sense of theory ClusterInvariant, raised by one per action.\<close>

definition term_packets :: "nat \<Rightarrow> 'cmd packet set" where
  "term_packets b = {pk. unat (packet_term pk) \<le> b}"

lemma sourced_term: "sourced (term_packets b) ev \<Longrightarrow> unat (event_term ev) \<le> b"
  by (cases ev) (auto simp: sourced_def term_packets_def split: sum.splits)

interpretation term_bound: preserved env "term_packets b" "terms_upto b" "terms_upto (Suc b)"
  for env :: "'cmd env" and b
proof
  show "terms_upto b cl \<Longrightarrow> terms_upto (Suc b) cl" for cl :: "'cmd cluster" by (erule terms_upto_mono) simp
qed (use terms_frame terms_run_event sourced_term terms_forwarded terms_restart in blast)+

lemma terms_act:
  assumes up: "terms_upto b cl"
  shows "terms_upto (Suc b) (act env cl a)"
  by (rule term_bound.step [OF up]) (use up in \<open>auto simp: terms_upto_def term_packets_def list_all_iff\<close>)

lemma terms_below_max:
  assumes "terms_upto b cl" and "b < 2 ^ 64 - 1"
  shows "below_max cl"
  using assms by (force simp: terms_upto_def below_max_def unat_minus_1)

section \<open>The start\<close>

lemma worker_new_first:
  "\<exists>w. worker_new n sk ps [] (\<lambda>_. None) = Inr w \<and> node_ok w \<and> node_id w = n \<and> term_of w = 0 \<and> vote_of w = None
     \<and> peers w = ps \<and> peer_clients w = [] \<and> sized w \<and> last_applied w = 0 \<and> commit_index w = 0
     \<and> last_log_index (store w) = 0 \<and> inner_session_key w = sk"
proof -
  obtain s where s: "Storage_new sk (\<lambda>_. None) = Inr s"
    by (simp add: Storage_new_def Let_def load_number_def get_persistent_def)
  from Storage_new_meta [OF s] s show ?thesis
    by (simp add: worker_new_def node_ok_def sized_def)
qed

lemma first_start_node:
  assumes "first_start env sk ms n = Some st"
  shows "n \<in> set ms \<and> (\<exists>w. st = RaftWorkerState.Follower w \<and> node_ok w \<and> node_id w = n \<and> term_of w = 0
    \<and> vote_of w = None \<and> peers w = remove1 n ms \<and> peer_clients w = [] \<and> sized w)"
proof -
  from assms have n: "n \<in> set ms" by (auto simp: first_start_def split: if_splits)
  obtain w where w: "worker_new n sk (remove1 n ms) [] (\<lambda>_. None) = Inr w" "node_ok w" "node_id w = n"
    "term_of w = 0" "vote_of w = None" "peers w = remove1 n ms" "peer_clients w = []" "sized w"
    using worker_new_first [of n sk "remove1 n ms"] by blast
  with assms n obtain out where f: "to_follower env w = Inr (st, out)"
    by (auto simp: first_start_def split: sum.splits)
  from to_follower_quiet [OF f] obtain w' where w': "st = RaftWorkerState.Follower w'" "quiet w w'" by auto
  have "node_ok w'" using quiet_node_ok [OF w'(2)] w(2) by simp
  with w' w n show ?thesis by (simp add: quiet_def same_node_def sized_def)
qed

lemma init_terms: "terms_upto 0 (cluster_init env sk ms)"
  using first_start_node [of env sk ms] by (fastforce simp: terms_upto_def cluster_init_def)

lemma init_sim:
  assumes "distinct ms"
  shows "sim ms (cluster_init env sk ms) (v_init (\<lambda>_. 0) (\<lambda>_. None))"
proof -
  have "node_rel ms n st (v_init (\<lambda>_. 0) (\<lambda>_. None))" if "first_start env sk ms n = Some st" for n st
  proof -
    from first_start_node [OF that] obtain w where w: "n \<in> set ms" "st = RaftWorkerState.Follower w" "node_ok w"
      "node_id w = n" "term_of w = 0" "vote_of w = None" "peers w = remove1 n ms" "peer_clients w = []" "sized w" by auto
    from w(1) have "length (remove1 n ms) + 1 = length ms"
      using length_remove1 [of n ms] length_pos_if_in_set [OF w(1)] by simp
    with w show ?thesis by (simp add: node_rel_def Let_def v_init_def sized_def known_def clients_ok_def)
  qed
  then show ?thesis using first_start_node [of env sk ms]
    by (auto simp: sim_def cluster_init_def wire_rel_def)
qed

section \<open>Election safety\<close>

text \<open>Along every schedule the simulation holds, and the histories of the system only grow.\<close>

lemma run_snoc: "run env cl (as @ [a]) = act env (run env cl as) a"
  by (simp add: run_def)

definition elects :: "NodeId list \<Rightarrow> nat \<Rightarrow> 'cmd cluster \<Rightarrow> (NodeId, u64) vsys \<Rightarrow> bool" where
  "elects ms b cl vs \<longleftrightarrow> sim ms cl vs \<and> voting_ok (set ms) (majority (length ms)) vs \<and> fresh_ok vs \<and> terms_upto b cl"

lemma elects_init: "distinct ms \<Longrightarrow> elects ms 0 (cluster_init env sk ms) (v_init (\<lambda>_. 0) (\<lambda>_. None))"
  by (simp add: elects_def init_sim v_init_ok v_init_fresh init_terms)

lemma elects_act:
  assumes "elects ms b cl vs" and "member_action ms a" and "b < 2 ^ 64 - 1"
  obtains vs' where "vstep (set ms) (majority (length ms)) vs vs'" and "elects ms (Suc b) (act env cl a) vs'"
    and "frozen (act env cl a) vs vs'"
proof -
  from assms(1) have sim: "sim ms cl vs" and ok: "voting_ok (set ms) (majority (length ms)) vs"
    and fresh: "fresh_ok vs" and terms: "terms_upto b cl" by (simp_all add: elects_def)
  have tok: "tokens_ok (set ms) vs" using ok by (simp add: voting_ok_def)
  from sim_act [OF sim tok terms_below_max [OF terms assms(3)] assms(2), of env] obtain vs' where
    step: "vstep (set ms) (majority (length ms)) vs vs'" and sim': "sim ms (act env cl a) vs'"
      and "frozen (act env cl a) vs vs'" by auto
  from that [OF step _ this(3)] sim' vstep_ok [OF ok step] vstep_fresh [OF ok fresh step] terms_act [OF terms]
  show ?thesis by (simp add: elects_def)
qed

text \<open>The leaders of the cluster are elected in the voting system.\<close>

lemma leader_role:
  assumes "elects ms b cl vs" and "is_leader_in cl n t"
  shows "v_role vs n = VLeader" and "v_term vs n = t" and "(t, n) \<in> elected vs"
proof -
  from assms(2) obtain w l where st: "nodes cl n = Some (RaftWorkerState.Leader w l)" "term_of w = t"
    by (auto simp: is_leader_in_def split: option.splits RaftWorkerState.splits)
  from assms(1) have "sim ms cl vs" by (simp add: elects_def)
  from simD(2) [OF this st(1)] st(2) show r: "v_role vs n = VLeader" "v_term vs n = t"
    by (simp_all add: node_rel_def Let_def)
  then show "(t, n) \<in> elected vs" using assms(1) by (auto simp: elects_def voting_ok_def elected_ok_def)
qed

lemma run_elects:
  assumes ms: "distinct ms" and mem: "list_all (member_action ms) as" and len: "length as < 2 ^ 64 - 1"
  shows "\<exists>vs. (vstep (set ms) (majority (length ms)))\<^sup>*\<^sup>* (v_init (\<lambda>_. 0) (\<lambda>_. None)) vs
    \<and> elects ms (length as) (run env (cluster_init env sk ms) as) vs
    \<and> (\<forall>i \<le> length as. \<forall>t n. is_leader_in (run env (cluster_init env sk ms) (take i as)) n t \<longrightarrow> (t, n) \<in> elected vs)"
  using mem len
proof (induction as rule: rev_induct)
  case Nil
  from leader_role(3) [OF elects_init [OF ms]] elects_init [OF ms] show ?case
    by (intro exI [of _ "v_init (\<lambda>_. 0) (\<lambda>_. None)"]) (auto simp: run_def)
next
  case (snoc a as)
  let ?cl = "run env (cluster_init env sk ms) as"
  from snoc obtain vs where reach: "(vstep (set ms) (majority (length ms)))\<^sup>*\<^sup>* (v_init (\<lambda>_. 0) (\<lambda>_. None)) vs"
    and el: "elects ms (length as) ?cl vs"
    and led: "\<And>i t n. i \<le> length as \<Longrightarrow> is_leader_in (run env (cluster_init env sk ms) (take i as)) n t \<Longrightarrow> (t, n) \<in> elected vs"
    by fastforce
  obtain vs' where step: "vstep (set ms) (majority (length ms)) vs vs'"
    and el': "elects ms (length (as @ [a])) (act env ?cl a) vs'"
    using elects_act [OF el, of a env] snoc.prems by auto
  have "(t, n) \<in> elected vs'"
    if "i \<le> length (as @ [a])" "is_leader_in (run env (cluster_init env sk ms) (take i (as @ [a]))) n t" for i t n
    using that led [of i n t] vstep_elected_mono [OF step] leader_role(3) [OF el']
    by (cases "i \<le> length as") (auto simp: le_Suc_eq run_snoc)
  with el' rtranclp.rtrancl_into_rtrancl [OF reach step] show ?case by (auto simp: run_snoc)
qed

end
