(* ===== verification/Bootstrap.thy ===== *)
theory Bootstrap
  imports Worker
begin

text \<open>
  Starting a node (\<^verbatim>\<open>Raft::start\<close>, raft/mod.rs): its id, the members of its cluster, found by
  meeting the other browsers once and read back from the local storage from then on, and its
  worker.
\<close>

section \<open>The node's id\<close>

text \<open>
  \<^verbatim>\<open>DefaultHasher\<close> hashes bytes: those of the host name and a terminator, and those of the key in
  the order of the (little-endian) machine. \<open>hash_bytes\<close> is the hash function.
\<close>

definition hash_input :: "8 word list \<Rightarrow> u128 \<Rightarrow> 8 word list" where
  "hash_input hostname sk =
     hostname @ [255] @ map (\<lambda>i. ucast (drop_bit (8 * i) sk)) [0 ..< 16]"

definition generate_node_id :: "(8 word list \<Rightarrow> NodeId) \<Rightarrow> 8 word list \<Rightarrow> u128 \<Rightarrow> NodeId" where
  "generate_node_id hash_bytes hostname sk = hash_bytes (hash_input hostname sk)"

text \<open>Two members are given the same id only if the hash function collides.\<close>

lemma bytes_inj:
  assumes "map (\<lambda>i. ucast (drop_bit (8 * i) v) :: 8 word) [0 ..< 16] = map (\<lambda>i. ucast (drop_bit (8 * i) w)) [0 ..< 16]"
  shows "v = (w :: u128)"
proof (rule bit_word_eqI)
  fix n assume "n < LENGTH(128)"
  then have n: "n div 8 < 16" "n mod 8 < 8" "8 * (n div 8) + n mod 8 = n" by auto
  from assms n(1) have "(ucast (drop_bit (8 * (n div 8)) v) :: 8 word) = ucast (drop_bit (8 * (n div 8)) w)" by simp
  from arg_cong [OF this, of "\<lambda>b. bit b (n mod 8)"] n show "bit v n = bit w n"
    by (simp add: bit_simps)
qed

lemma hash_input_inj:
  assumes "hash_input h sk = hash_input h' sk'"
  shows "h = h' \<and> sk = sk'"
proof -
  from assms have "h = h'" and "map (\<lambda>i. ucast (drop_bit (8 * i) sk) :: 8 word) [0 ..< 16] =
      map (\<lambda>i. ucast (drop_bit (8 * i) sk')) [0 ..< 16]"
    by (simp_all add: hash_input_def)
  with bytes_inj show ?thesis by blast
qed

section \<open>The members of the cluster\<close>

text \<open>The codec of the member list: bincode in base64, which reads back what it wrote.\<close>

record peer_codec =
  encode_peers :: "NodeId list \<Rightarrow> string"
  decode_peers :: "string \<Rightarrow> NodeId list option"

definition peer_codec_ok :: "peer_codec \<Rightarrow> bool" where
  "peer_codec_ok pc \<longleftrightarrow> (\<forall>ps. decode_peers pc (encode_peers pc ps) = Some ps)"

definition peer_configuration_key :: "u128 \<Rightarrow> string" where
  "peer_configuration_key sk = ''peer-configuration-'' @ to_string sk"

definition load_peer_configuration ::
  "peer_codec \<Rightarrow> u128 \<Rightarrow> (string \<rightharpoonup> string) \<Rightarrow> NodeId list option result" where
  "load_peer_configuration pc sk local_storage =
     (case local_storage (peer_configuration_key sk) of
        Some s \<Rightarrow> (case decode_peers pc s of None \<Rightarrow> Inl UnwrapErr | Some conf \<Rightarrow> Inr (Some conf))
      | None \<Rightarrow> Inr None)"

definition store_peer_configuration ::
  "'cmd env \<Rightarrow> peer_codec \<Rightarrow> u128 \<Rightarrow> NodeId list \<Rightarrow> (string \<rightharpoonup> string) \<Rightarrow> (string \<rightharpoonup> string) result" where
  "store_peer_configuration env pc sk ps local_storage =
     (let key = peer_configuration_key sk; data = encode_peers pc ps
      in if fits env local_storage key data then Inr (local_storage(key \<mapsto> data)) else Inl UnwrapErr)"

text \<open>
  Waiting for the cluster: \<open>arrivals\<close> are the peers that \<^verbatim>\<open>introduce\<close> has handed over so far, and
  \<open>closed\<close> tells whether its channel is closed after them. The loop counts the servers.
\<close>

datatype 'a outcome =
    StillWaiting
  | NotEnoughPeers
  | Ready 'a

fun wait_for_peers ::
  "usize \<Rightarrow> usize \<Rightarrow> (NodeId \<times> RpcClient) list \<Rightarrow> NodeId list \<Rightarrow> bool \<Rightarrow>
   ((NodeId \<times> RpcClient) list \<times> NodeId list) outcome" where
  "wait_for_peers target servers clients [] closed =
     (if servers < target then if closed then NotEnoughPeers else StillWaiting else Ready (clients, []))"
| "wait_for_peers target servers clients (peer_id # arrivals) closed =
     (if servers < target
      then wait_for_peers target (servers + 1)
             (AList.update peer_id (peer_transport_start peer_id) clients) arrivals closed
      else Ready (clients, peer_id # arrivals))"

section \<open>Starting\<close>

text \<open>
  What \<^verbatim>\<open>start\<close> leads to: the worker with its storage, and the peers that it has yet to be told of.
\<close>

definition start_worker ::
  "NodeId \<Rightarrow> u128 \<Rightarrow> NodeId list \<Rightarrow> (NodeId \<times> RpcClient) list \<Rightarrow> NodeId list \<Rightarrow> (string \<rightharpoonup> string) \<Rightarrow>
   (Inner \<times> NodeId list) outcome result" where
  "start_worker nid sk ps clients rest local_storage =
     rbind (worker_new nid sk ps clients local_storage) (\<lambda>w. Inr (Ready (w, rest)))"

definition raft_start ::
  "'cmd env \<Rightarrow> peer_codec \<Rightarrow> (8 word list \<Rightarrow> NodeId) \<Rightarrow> 8 word list \<Rightarrow> u128 \<Rightarrow> usize \<Rightarrow>
   (string \<rightharpoonup> string) \<Rightarrow> NodeId list \<Rightarrow> bool \<Rightarrow> (Inner \<times> NodeId list) outcome result" where
  "raft_start env pc hash_bytes hostname sk members local_storage arrivals closed =
     (let nid = generate_node_id hash_bytes hostname sk
      in rbind (load_peer_configuration pc sk local_storage) (\<lambda>conf.
           case conf of
             Some ps \<Rightarrow> start_worker nid sk ps [] arrivals local_storage
           | None \<Rightarrow>
               let target_size = members - 1
               in (case wait_for_peers target_size 0 [] arrivals closed of
                     StillWaiting \<Rightarrow> Inr StillWaiting
                   | NotEnoughPeers \<Rightarrow> Inr NotEnoughPeers
                   | Ready (clients, rest) \<Rightarrow>
                       let ps = map fst clients
                       in rbind (store_peer_configuration env pc sk ps local_storage) (\<lambda>local_storage.
                            start_worker nid sk ps clients rest local_storage))))"

section \<open>The first start\<close>

text \<open>The loop takes the first \<open>target\<close> peers, and keeps each once.\<close>

lemma wait_for_peers_spec:
  "servers \<le> target \<Longrightarrow> wait_for_peers target servers clients arrivals closed =
     (let k = unat target - unat servers
      in if k \<le> length arrivals
         then Ready (foldl (\<lambda>cs p. AList.update p (peer_transport_start p) cs) clients (take k arrivals), drop k arrivals)
         else if closed then NotEnoughPeers else StillWaiting)"
proof (induction arrivals arbitrary: servers clients)
  case Nil
  then show ?case by (auto simp: Let_def word_less_nat_alt word_le_nat_alt)
next
  case (Cons p ps)
  show ?case
  proof (cases "servers < target")
    case True
    then have "servers \<noteq> - 1" using word_order.extremum_strict by auto
    then have u: "unat (servers + 1) = Suc (unat servers)" by (rule unat_plus_one)
    then have "servers + 1 \<le> target" using True by (simp add: word_le_nat_alt word_less_nat_alt)
    from Cons.IH [OF this] True show ?thesis
      by (auto simp: Let_def u word_less_nat_alt Suc_diff_Suc split: nat_diff_split)
  next
    case False
    with Cons.prems show ?thesis by simp
  qed
qed

lemma clients_distinct:
  assumes "distinct (map fst cs @ ps)"
  shows "foldl (\<lambda>cs p. AList.update p (peer_transport_start p) cs) cs ps =
    cs @ map (\<lambda>p. (p, peer_transport_start p)) ps"
  using assms
proof (induction ps arbitrary: cs)
  case (Cons p ps)
  have "AList.update p (peer_transport_start p) cs = cs @ [(p, peer_transport_start p)]"
    using Cons.prems by (induction cs) auto
  with Cons.IH [of "cs @ [(p, peer_transport_start p)]"] Cons.prems show ?case by simp
qed simp

lemma first_start_stores:
  assumes "local_storage (peer_configuration_key sk) = None"
    and "raft_start env pc hash_bytes hostname sk members local_storage arrivals closed = Inr (Ready (w, rest))"
  shows "Storage_new sk (local_storage(peer_configuration_key sk \<mapsto> encode_peers pc (peers w))) = Inr (store w)"
    and "cluster_size w = length (peers w) + 1" and "node_id w = generate_node_id hash_bytes hostname sk"
  using assms by (auto simp: raft_start_def load_peer_configuration_def store_peer_configuration_def Let_def
      start_worker_def worker_new_def rbind_eq_Inr split: outcome.splits if_splits)

lemma first_start_ready:
  assumes "local_storage (peer_configuration_key sk) = None" and "members \<noteq> 0"
    and "unat members \<le> Suc (length arrivals)" and "distinct (take (unat members - 1) arrivals)"
    and "raft_start env pc hash_bytes hostname sk members local_storage arrivals closed = Inr r"
  obtains w where "r = Ready (w, drop (unat members - 1) arrivals)" and "peers w = take (unat members - 1) arrivals"
    and "cluster_size w = unat members" and "node_id w = generate_node_id hash_bytes hostname sk"
    and "peer_clients w = map (\<lambda>p. (p, peer_transport_start p)) (peers w)"
    and "Storage_new sk (local_storage(peer_configuration_key sk \<mapsto> encode_peers pc (peers w))) = Inr (store w)"
proof -
  let ?k = "unat members - 1"
  have k: "unat (members - 1) = ?k" using assms(2) by (rule unat_minus_one_nz)
  have "wait_for_peers (members - 1) 0 [] arrivals closed =
      Ready (map (\<lambda>p. (p, peer_transport_start p)) (take ?k arrivals), drop ?k arrivals)"
    using assms(3,4) by (auto simp: wait_for_peers_spec k clients_distinct Let_def)
  moreover have z: "Suc ?k = unat members" using assms(2) by (simp add: unat_gt_0)
  ultimately obtain t where t: "Storage_new sk (local_storage(peer_configuration_key sk \<mapsto>
      encode_peers pc (take ?k arrivals))) = Inr t"
    and r: "r = Ready (\<lparr>leader_id = None, node_id = generate_node_id hash_bytes hostname sk,
      inner_session_key = sk, cluster_size = unat members, peers = take ?k arrivals,
      peer_clients = map (\<lambda>p. (p, peer_transport_start p)) (take ?k arrivals),
      commit_index = 0, last_applied = 0, store = t\<rparr>, drop ?k arrivals)"
    using assms(1,3,5)
    by (auto simp: raft_start_def load_peer_configuration_def store_peer_configuration_def start_worker_def
        worker_new_def rbind_eq_Inr o_def Let_def split: if_splits)
  show ?thesis by (rule that [OF r]) (simp_all add: t del: One_nat_def)
qed

section \<open>Restarting\<close>

lemma peer_configuration_not_session: "peer_configuration_key sk \<notin> session_keys sk'"
  by (auto simp: peer_configuration_key_def session_keys_def)

text \<open>A node that has started before comes back with the members of its configuration.\<close>

lemma restart_members:
  assumes "local_storage (peer_configuration_key sk) = Some (encode_peers pc ps)" and "peer_codec_ok pc"
  shows "raft_start env pc hash_bytes hostname sk members local_storage arrivals closed =
    start_worker (generate_node_id hash_bytes hostname sk) sk ps [] arrivals local_storage"
  using assms by (simp add: raft_start_def load_peer_configuration_def peer_codec_ok_def Let_def)

end
