(* ===== verification/Demo.thy ===== *)
theory Demo
  imports Terms Bootstrap
begin

text \<open>
  A concrete environment, in which the code runs by rewriting: log entries are written as three
  decimal numbers, and the browser never refuses a write. Concrete runs are examples of what the
  theorems say, and show what the code does where it leaves the Raft protocol.
\<close>

definition demo_encode :: "u64 LogEntry \<Rightarrow> string" where
  "demo_encode e = to_string (le_cmd e) @ CHR ''-'' # to_string (le_term e) @ CHR ''-'' # to_string (le_idx e)"

definition demo_decode :: "string \<Rightarrow> u64 LogEntry option" where
  "demo_decode s =
     (let c = takeWhile (\<lambda>x. x \<noteq> CHR ''-'') s; r = tl (dropWhile (\<lambda>x. x \<noteq> CHR ''-'') s);
          t = takeWhile (\<lambda>x. x \<noteq> CHR ''-'') r; i = tl (dropWhile (\<lambda>x. x \<noteq> CHR ''-'') r)
      in case (parse c, parse t, parse i) of
           (Some c, Some t, Some i) \<Rightarrow> Some \<lparr>le_cmd = c, le_term = t, le_idx = i\<rparr>
         | _ \<Rightarrow> None)"

definition demo_env :: "u64 env" where
  "demo_env = \<lparr>encode = demo_encode, decode = demo_decode, fits = (\<lambda>_ _ _. True)\<rparr>"

lemma takeWhile_hyphen: "takeWhile (\<lambda>x. x \<noteq> CHR ''-'') (to_string w @ CHR ''-'' # s) = to_string w"
  and dropWhile_hyphen: "dropWhile (\<lambda>x. x \<noteq> CHR ''-'') (to_string w @ CHR ''-'' # s) = CHR ''-'' # s"
  using no_hyphen [of w] by (subst takeWhile_append2, auto) (subst dropWhile_append2, auto)

lemma demo_codec [simp]: "decode demo_env (encode demo_env e) = Some e"
  by (simp add: demo_env_def demo_encode_def demo_decode_def takeWhile_hyphen dropWhile_hyphen Let_def)

lemma demo_fits [simp]: "fits demo_env m k v"
  by (simp add: demo_env_def)

lemma demo_env_ok: "codec_ok demo_env" "roomy demo_env"
  by (simp_all add: codec_ok_def roomy_def)

text \<open>Small numbers in decimal.\<close>

lemma digit_char_values [simp]:
  "digit_char 0 = CHR ''0''" "digit_char 1 = CHR ''1''" "digit_char (Suc 0) = CHR ''1''" "digit_char 2 = CHR ''2''"
  "digit_char 3 = CHR ''3''" "digit_char 4 = CHR ''4''" "digit_char 5 = CHR ''5''"
  "digit_char 6 = CHR ''6''" "digit_char 7 = CHR ''7''"
  by code_simp+

lemma to_string_values [simp]:
  "to_string (0 :: 'a::len word) = ''0''" "to_string (1 :: u64) = ''1''" "to_string (2 :: u64) = ''2''"
  "to_string (3 :: u64) = ''3''" "to_string (4 :: u64) = ''4''" "to_string (5 :: u64) = ''5''"
  "to_string (6 :: u64) = ''6''" "to_string (7 :: u64) = ''7''" "to_string (1 :: u128) = ''1''"
  by (simp_all add: to_string_def show_radix_def radix_digits.simps)

text \<open>Member lists are written as decimal numbers, each followed by a hyphen.\<close>

fun encode_members :: "NodeId list \<Rightarrow> string" where
  "encode_members [] = []"
| "encode_members (p # ps) = to_string p @ CHR ''-'' # encode_members ps"

function decode_members :: "string \<Rightarrow> NodeId list option" where
  "decode_members s =
     (if s = [] then Some []
      else case parse (takeWhile (\<lambda>x. x \<noteq> CHR ''-'') s) of
             None \<Rightarrow> None
           | Some p \<Rightarrow> map_option ((#) p) (decode_members (tl (dropWhile (\<lambda>x. x \<noteq> CHR ''-'') s))))"
  by pat_completeness auto

termination
proof (relation "measure length")
  fix s :: string assume "s \<noteq> []"
  moreover have "length (dropWhile (\<lambda>x. x \<noteq> CHR ''-'') s) \<le> length s" by (rule length_dropWhile_le)
  ultimately show "(tl (dropWhile (\<lambda>x. x \<noteq> CHR ''-'') s), s) \<in> measure length"
    by (cases s) (auto simp: less_Suc_eq_le)
qed simp

declare decode_members.simps [simp del]

definition demo_peers :: peer_codec where
  "demo_peers = \<lparr>encode_peers = encode_members, decode_peers = decode_members\<rparr>"

lemma demo_peers_ok: "peer_codec_ok demo_peers"
proof -
  have "decode_members (encode_members ps) = Some ps" for ps
    by (induction ps) (auto simp: decode_members.simps takeWhile_hyphen dropWhile_hyphen)
  then show ?thesis by (simp add: peer_codec_ok_def demo_peers_def)
qed

section \<open>Running by rewriting\<close>

text \<open>Ranges and slices are unfolded one index at a time, and no further than the log reaches.\<close>

lemma range_excl_Cons: "a < b \<Longrightarrow> range_excl a b = a # range_excl (a + 1) b" for a b :: "'a::len word"
proof -
  assume a: "a < b"
  then have "unat (a + 1) = Suc (unat a)" by (rule unat_succ_below)
  moreover have "unat a < unat b" using a by (simp add: word_less_nat_alt)
  ultimately show ?thesis by (simp add: range_excl_def upt_conv_Cons)
qed
lemma range_excl_empty: "\<not> a < b \<Longrightarrow> range_excl a b = []" for a b :: "'a::len word"
  by (simp add: range_excl_def word_less_nat_alt)

lemma sublog_beyond:
  assumes "last_log_index s < a"
  shows "sublog env s (range_excl a b) = Inr []"
proof -
  have "get_log env s i = Inr None" if "i \<in> set (range_excl a b)" for i
  proof -
    from that obtain k where k: "i = word_of_nat k" "unat a \<le> k" "k < unat b" by (auto simp: range_excl_def)
    then have "unat i = k" using unat_of_nat_le [of k b] by simp
    then have "last_log_index s < i" using k assms by (simp add: word_less_nat_alt)
    then show ?thesis by (simp add: get_log_def)
  qed
  then have "collect_some (get_log env s) (range_excl a b) = Inr []"
    by (induction "range_excl a b") (auto simp: collect_some_total [where h = "\<lambda>_. None"] List.map_filter_def)
  then show ?thesis by (simp add: sublog_def)
qed

lemma sublog_next:
  assumes "a \<le> last_log_index s" and "a < b"
  shows "sublog env s (range_excl a b) = rbind (get_log env s a) (\<lambda>x.
    rbind (sublog env s (range_excl (a + 1) b)) (\<lambda>xs. Inr (case x of None \<Rightarrow> xs | Some y \<Rightarrow> y # xs)))"
  using assms(2) by (simp add: sublog_def range_excl_Cons)

lemma sublog_incl_eval:
  "sublog env s [] = Inr []"
  "sublog env s (i # is) = rbind (get_log env s i) (\<lambda>x.
    rbind (sublog env s is) (\<lambda>xs. Inr (case x of None \<Rightarrow> xs | Some y \<Rightarrow> y # xs)))"
  by (simp_all add: sublog_def)

lemma word_max_facts:
  "(0 :: u64) < - 1" "(1 :: u64) < - 1" "\<not> (- 1 :: u64) \<le> 1" "\<not> (- 1 :: u64) \<le> 2"
  "\<not> (2 :: u64) \<le> 1" "\<not> (3 :: u64) \<le> 1" "\<not> (3 :: u64) \<le> 2"
  by (simp_all add: word_less_nat_alt word_le_nat_alt unat_minus_1)

text \<open>The definitions that a run unfolds, by component.\<close>

lemmas storage_run = worker_new_def Storage_new_def load_number_def get_persistent_def set_persistent_def
  remove_persistent_def set_voted_for_def set_current_term_def update_term_def increment_term_def
  append_log_def increment_last_log_index_def set_last_log_index_def overwrite_log_def get_log_def
  log_key_def last_log_term_def

lemmas worker_run = quorum_def handle_request_vote_def put_entry_def handle_append_entries_def apply_log_def
  handle_new_peer_def candidate_start_def vote_for_self_def request_votes_def vote_outcome_def
  candidate_handle_rpc_def follower_handle_rpc_def leader_handle_rpc_def follower_wait_def
  candidate_wait_def leader_wait_def after_def to_follower_def to_candidate_def to_leader_def
  follower_step_def candidate_step_def leader_step_def worker_step_def become_leader_def
  advance_commit_index_def ack_requests_def agree_def append_entries_def
  handle_append_entries_response_def handle_log_update_def handle_client_request_def leader_heartbeat_def

lemmas cluster_run = run_def run_event_def finish_def set_node_def respond_def send_def serve_def
  call_outcome_def restart_def take_packet_def is_candidate_in_def is_leader_in_def cluster_init_def
  first_start_def Let_def

lemmas runs = storage_run worker_run cluster_run sublog_next sublog_beyond sublog_incl_eval
  range_incl_Cons range_incl_empty MAX_BATCH_SIZE_def word_max_facts

abbreviation demo :: "u64 cluster" where
  "demo \<equiv> cluster_init demo_env 1 [1, 2, 3]"

text \<open>Node 1 wins an election with the vote of node 2.\<close>

abbreviation election :: "u64 action list" where
  "election \<equiv> [Connect 1 2, Tick 1, Deliver 0, Deliver 0]"

section \<open>Concrete nodes\<close>

text \<open>Node 1 of a cluster of three, at its first start and with one entry of term 1 in its log.\<close>

definition demo_store :: Storage where
  "demo_store = \<lparr>session_key = 1, last_log_index = 0, last_log_index_key = ''last-log-index-1'',
     current_term = 0, current_term_key = ''current-term-1'', voted_for = None,
     voted_for_key = ''voted-for-1'', storage = (\<lambda>_. None)\<rparr>"

definition entry :: "u64 \<Rightarrow> TermIndex \<Rightarrow> LogIndex \<Rightarrow> u64 LogEntry" where
  "entry c t i = \<lparr>le_cmd = c, le_term = t, le_idx = i\<rparr>"

definition demo_store1 :: Storage where
  "demo_store1 = demo_store\<lparr>last_log_index := 1, current_term := 1,
     storage := [''last-log-index-1'' \<mapsto> ''1'', ''current-term-1'' \<mapsto> ''1'',
                 ''log-1-1'' \<mapsto> encode demo_env (entry 7 1 1)]\<rparr>"

definition demo_inner :: "Storage \<Rightarrow> Inner" where
  "demo_inner s = \<lparr>leader_id = None, node_id = 1, inner_session_key = 1, cluster_size = 3,
     peers = [2, 3], peer_clients = [(2, \<lparr>client_node_id = 2, connected = True\<rparr>)], commit_index = 0,
     last_applied = 0, store = s\<rparr>"

lemma demo_store_ok: "storage_ok demo_env demo_store"
  by (simp add: storage_ok_def demo_env_ok demo_store_def keys_ok_def cache_ok_def number_cell_def
      entries_ok_def word_le_nonzero_iff)

lemma demo_store1_ok: "storage_ok demo_env demo_store1"
proof -
  have "1 \<le> i \<and> i \<le> 1 \<Longrightarrow> i = 1" for i :: u64 by auto
  then show ?thesis
    by (auto simp: storage_ok_def demo_env_ok demo_store1_def demo_store_def keys_ok_def cache_ok_def
        number_cell_def entries_ok_def log_key_def entry_def)
qed

lemma demo_logs: "log_of demo_env demo_store = []" "log_of demo_env demo_store1 = [entry 7 1 1]"
  by (simp_all add: log_of_def demo_store_def demo_store1_def range_incl_Cons range_incl_empty entry_at_def
      log_key_def)

lemma demo_inner_ok: "inner_ok demo_env (demo_inner demo_store)" "inner_ok demo_env (demo_inner demo_store1)"
  using demo_store_ok demo_store1_ok
  by (simp_all add: inner_ok_def demo_inner_def) (simp_all add: demo_store_def demo_store1_def)

lemmas demo_defs = demo_inner_def demo_store_def demo_store1_def entry_def

text \<open>
  While it waits for its cluster, a node counts the connections it gets and not the peers: here a
  node of a cluster of three that meets node 2 twice starts a cluster of two, for good, since the
  list is stored.
\<close>

lemma bootstrap_counts_twice:
  "\<exists>w. raft_start demo_env demo_peers (\<lambda>bs. 1) [] 1 3 (\<lambda>_. None) [2, 2, 3] False = Inr (Ready (w, [3]))
     \<and> peers w = [2] \<and> cluster_size w = 2
     \<and> load_peer_configuration demo_peers 1 (storage (store w)) = Inr (Some [2])"
proof -
  have "encode_members [2] = ''2-''" by simp
  moreover have "decode_members (encode_members [2]) = Some [2]"
    using demo_peers_ok unfolding peer_codec_ok_def demo_peers_def peer_codec.simps by blast
  ultimately have "decode_members ''2-'' = Some [2]" by (simp only:)
  then show ?thesis
    by (simp add: raft_start_def load_peer_configuration_def store_peer_configuration_def start_worker_def
        runs peer_configuration_key_def demo_peers_def)
qed

end
