(* ===== verification/RaftInit.thy ===== *)
theory RaftInit
  imports Radix
begin

text \<open>
  The start page, raft_init.rs with \<^verbatim>\<open>get_session_key\<close> of lib.rs: how a browser window starts or joins
  a cluster, and the links it shows for the other members. The page's DOM, its random numbers and
  its task that starts Raft are outside: an \<open>init_effect\<close> says what a message asks of them.
\<close>

section \<open>The page's state and messages\<close>

text \<open>
  \<^verbatim>\<open>RaftWrapper\<close> is a shared cell that holds the started Raft until the application's component
  takes it.
\<close>

type_synonym 'r RaftWrapper = "'r option"

definition RaftWrapper_new :: "'r \<Rightarrow> 'r RaftWrapper" where
  "RaftWrapper_new raft = Some raft"

definition RaftWrapper_take :: "'r RaftWrapper \<Rightarrow> 'r option \<times> 'r RaftWrapper" where
  "RaftWrapper_take cell = (cell, None)"

datatype 'r InitMsg =
    UpdateSessionKey string
  | StartCluster
  | JoinCluster
  | ClearStorage
  | ClusterStarted "'r RaftWrapper"

datatype 'r InitState =
    Setup
  | Waiting u128
  | Running "'r RaftWrapper"

record 'r InitModel =
  init_key :: string
  init_state :: "'r InitState"

definition CLUSTER_SIZE :: usize where
  "CLUSTER_SIZE = 3"

datatype init_effect =
    StartRaft u128 usize
  | Alert string
  | ClearLocalStorage

section \<open>Operations\<close>

definition start_raft :: "u128 \<Rightarrow> init_effect list" where
  "start_raft session_key = [StartRaft session_key CLUSTER_SIZE]"

definition init_create :: "u128 option \<Rightarrow> 'r InitModel \<times> init_effect list" where
  "init_create props =
     (case props of
        Some session_key \<Rightarrow>
          (\<lparr>init_key = '''', init_state = Waiting session_key\<rparr>, start_raft session_key)
      | None \<Rightarrow> (\<lparr>init_key = '''', init_state = Setup\<rparr>, []))"

text \<open>\<open>generated\<close> is what \<^verbatim>\<open>generate_session_key\<close> draws; the last component asks for a redraw.\<close>

definition init_update ::
  "u128 \<Rightarrow> 'r InitModel \<Rightarrow> 'r InitMsg \<Rightarrow> 'r InitModel \<times> init_effect list \<times> bool" where
  "init_update generated m msg =
     (case msg of
        UpdateSessionKey key \<Rightarrow> (m\<lparr>init_key := key\<rparr>, [], True)
      | StartCluster \<Rightarrow> (m\<lparr>init_state := Waiting generated\<rparr>, start_raft generated, True)
      | JoinCluster \<Rightarrow>
          (case from_str_radix (init_key m) 16 of
             Some session_key \<Rightarrow> (m\<lparr>init_state := Waiting session_key\<rparr>, start_raft session_key, True)
           | None \<Rightarrow> (m, [Alert ''Invalid session key!''], False))
      | ClearStorage \<Rightarrow> (m, [ClearLocalStorage, Alert ''Storage cleared successfully!''], True)
      | ClusterStarted raft \<Rightarrow> (m\<lparr>init_state := Running raft\<rparr>, [], True))"

definition strip_prefix :: "char \<Rightarrow> string \<Rightarrow> string option" where
  "strip_prefix c s = (case s of [] \<Rightarrow> None | d # cs \<Rightarrow> if d = c then Some cs else None)"

text \<open>The window's location hash, where reading it may fail.\<close>

definition get_session_key :: "string option \<Rightarrow> u128 option" where
  "get_session_key hash =
     (case hash of
        None \<Rightarrow> None
      | Some h \<Rightarrow>
          (case strip_prefix CHR ''#'' h of
             None \<Rightarrow> None
           | Some s \<Rightarrow> from_str_radix s 16))"

definition split_once :: "char \<Rightarrow> string \<Rightarrow> (string \<times> string) option" where
  "split_once c s =
     (if c \<in> set s then Some (takeWhile (\<lambda>d. d \<noteq> c) s, tl (dropWhile (\<lambda>d. d \<noteq> c) s)) else None)"

definition all_targets :: "string list" where
  "all_targets = [''wraft0'', ''wraft1'', ''wraft2'']"

definition member_url :: "string \<Rightarrow> string \<Rightarrow> string \<Rightarrow> u128 \<Rightarrow> string" where
  "member_url t domain path session_key =
     ''https://'' @ t @ ''.'' @ domain @ path @ ''#'' @ format_032x session_key"

definition other_cluster_members :: "string \<Rightarrow> string \<Rightarrow> u128 \<Rightarrow> string list" where
  "other_cluster_members hostname path session_key =
     (let (me, domain) = (case split_once CHR ''.'' hostname of Some p \<Rightarrow> p | None \<Rightarrow> (hostname, ''''))
      in map (\<lambda>t. member_url t domain path session_key) (filter (\<lambda>t. t \<noteq> me) all_targets))"

section \<open>Links\<close>

text \<open>The fragment that a browser shows as the location's hash.\<close>

definition url_hash :: "string \<Rightarrow> string" where
  "url_hash url = dropWhile (\<lambda>c. c \<noteq> CHR ''#'') url"

lemma url_hash_append: "CHR ''#'' \<notin> set u \<Longrightarrow> url_hash (u @ CHR ''#'' # f) = CHR ''#'' # f"
  by (induction u) (auto simp: url_hash_def)

lemma get_session_key_link: "get_session_key (Some (CHR ''#'' # format_032x sk)) = Some sk"
  by (simp add: get_session_key_def strip_prefix_def from_str_radix_format_032x)

lemma split_once_parts:
  "split_once c s = Some (a, b) \<Longrightarrow> set a \<union> set b \<subseteq> set s \<and> s = a @ c # b \<and> c \<notin> set a"
proof (induction s arbitrary: a b)
  case (Cons d s)
  show ?case
  proof (cases "d = c")
    case False
    with Cons.prems obtain a' where "a = d # a'" "split_once c s = Some (a', b)"
      by (auto simp: split_once_def split: if_splits)
    with Cons.IH [of a' b] False show ?thesis by auto
  qed (use Cons.prems in \<open>auto simp: split_once_def\<close>)
qed (simp add: split_once_def)

lemma member_link_parts:
  assumes "CHR ''#'' \<notin> set hostname" and "CHR ''#'' \<notin> set path"
    and "url \<in> set (other_cluster_members hostname path sk)"
  shows "\<exists>u. CHR ''#'' \<notin> set u \<and> url = u @ CHR ''#'' # format_032x sk"
proof -
  obtain me domain where p: "(case split_once CHR ''.'' hostname of Some p \<Rightarrow> p | None \<Rightarrow> (hostname, '''')) = (me, domain)"
    by force
  then have d: "CHR ''#'' \<notin> set domain"
    using assms(1) split_once_parts [of "CHR ''.''" hostname me domain] by (auto split: option.splits)
  from assms(3) p obtain t where t: "t \<in> set all_targets" and u: "url = member_url t domain path sk"
    by (auto simp: other_cluster_members_def)
  have "CHR ''#'' \<notin> set t" using t by (auto simp: all_targets_def)
  then have "CHR ''#'' \<notin> set (''https://'' @ t @ ''.'' @ domain @ path)" using d assms(2) by simp
  then show ?thesis by (intro exI [of _ "''https://'' @ t @ ''.'' @ domain @ path"]) (simp add: u member_url_def)
qed

lemma member_link_opens:
  assumes "CHR ''#'' \<notin> set hostname" and "CHR ''#'' \<notin> set path"
    and "url \<in> set (other_cluster_members hostname path sk)"
  shows "get_session_key (Some (url_hash url)) = Some sk"
proof -
  from member_link_parts [OF assms] obtain u where "CHR ''#'' \<notin> set u" "url = u @ CHR ''#'' # format_032x sk" by blast
  then show ?thesis by (simp add: url_hash_append get_session_key_link)
qed

text \<open>A member's page links to the two others; a page that is no member's links to all three.\<close>

lemma member_links:
  assumes "split_once CHR ''.'' hostname = Some (me, domain)"
  shows "other_cluster_members hostname path sk =
    map (\<lambda>t. member_url t domain path sk) (filter (\<lambda>t. t \<noteq> me) all_targets)"
  using assms by (simp add: other_cluster_members_def)

section \<open>Runs of the page\<close>

fun init_run :: "'r InitModel \<Rightarrow> (u128 \<times> 'r InitMsg) list \<Rightarrow> 'r InitModel \<times> init_effect list" where
  "init_run m [] = (m, [])"
| "init_run m ((g, msg) # msgs) =
     (let (m', out, _) = init_update g m msg; (m'', out') = init_run m' msgs in (m'', out @ out'))"

definition started :: "init_effect list \<Rightarrow> u128 list" where
  "started out = List.map_filter (\<lambda>e. case e of StartRaft k _ \<Rightarrow> Some k | _ \<Rightarrow> None) out"

lemma started_simps [simp]:
  "started [] = []" "started (StartRaft k n # out) = k # started out"
  "started (Alert s # out) = started out" "started (ClearLocalStorage # out) = started out"
  "started (out @ out') = started out @ started out'"
  by (simp_all add: started_def List.map_filter_def)

text \<open>
  What the page says it waits for is the session it started last, and it only leaves the setup by
  starting one.
\<close>

definition setup_ok :: "'r InitModel \<Rightarrow> u128 list \<Rightarrow> bool" where
  "setup_ok m ks \<longleftrightarrow>
     (case init_state m of
        Setup \<Rightarrow> ks = []
      | Waiting k \<Rightarrow> ks \<noteq> [] \<and> last ks = k
      | Running _ \<Rightarrow> True)"

lemma init_update_ok:
  assumes "setup_ok m ks" and "init_update g m msg = (m', out, r)"
  shows "setup_ok m' (ks @ started out)"
  using assms
  by (cases msg) (auto simp: setup_ok_def init_update_def start_raft_def split: option.splits InitState.splits)

lemma init_run_ok:
  "setup_ok m ks \<Longrightarrow> init_run m msgs = (m', out) \<Longrightarrow> setup_ok m' (ks @ started out)"
proof (induction msgs arbitrary: m ks out)
  case (Cons x msgs)
  obtain g msg where x: "x = (g, msg)" by force
  obtain m1 o1 r where u: "init_update g m msg = (m1, o1, r)" using prod_cases3 by blast
  obtain o2 where i: "init_run m1 msgs = (m', o2)" and out: "out = o1 @ o2"
    using Cons.prems(2) by (auto simp: x u split: prod.splits)
  from Cons.IH [OF init_update_ok [OF Cons.prems(1) u] i] out show ?case by simp
qed simp

lemma init_create_ok: "init_create props = (m, out) \<Longrightarrow> setup_ok m (started out)"
  by (auto simp: init_create_def setup_ok_def start_raft_def split: option.splits)

text \<open>
  What the page waits for is the session it last asked Raft to start, and as long as it shows the
  setup it has started none.
\<close>

lemma page_waits_for_started:
  assumes "init_create props = (m, out)" and "init_run m msgs = (m', out')"
  shows "setup_ok m' (started (out @ out'))"
  using init_run_ok [OF init_create_ok [OF assms(1)] assms(2)] by simp

end
