(* ===== verification/Replication.thy ===== *)
theory Replication
  imports Steps
begin

text \<open>
  What one step of a node does to its log, whatever else it does: nothing, or the merge of a
  leader's entries, or (on a leader) one new entry at the end; and what a leader sends: always a
  segment of its own log. The cluster's log matching property rests on nothing more.
\<close>

section \<open>Segments of a log\<close>

text \<open>The entries of a request follow position \<open>prev\<close> of the log, and the term there is theirs.\<close>

definition segment :: "'cmd LogEntry list \<Rightarrow> 'cmd AppendEntriesRequest \<Rightarrow> bool" where
  "segment l q \<longleftrightarrow> unat (ae_prev_log_index q) \<le> length l \<and>
     (ae_prev_log_index q \<noteq> 0 \<longrightarrow> ae_prev_log_term q = le_term (l ! (unat (ae_prev_log_index q) - 1))) \<and>
     (\<exists>k. ae_entries q = take k (drop (unat (ae_prev_log_index q)) l))"

definition well_indexed :: "'cmd LogEntry list \<Rightarrow> bool" where
  "well_indexed l \<longleftrightarrow> (\<forall>i < length l. unat (le_idx (l ! i)) = Suc i)"

lemma indexed_from_nth:
  "(\<And>i. i < length es \<Longrightarrow> unat (le_idx (es ! i)) = Suc (p + i)) \<Longrightarrow> indexed_from le_idx p es"
proof (induction es arbitrary: p)
  case (Cons e es)
  from Cons.prems [of 0] have "unat (le_idx e) = Suc p" by simp
  moreover have "indexed_from le_idx (Suc p) es"
  proof (rule Cons.IH)
    fix i assume "i < length es"
    then show "unat (le_idx (es ! i)) = Suc (Suc p + i)" using Cons.prems [of "Suc i"] by simp
  qed
  ultimately show ?case by simp
qed simp

lemma segment_indexed:
  assumes "well_indexed l" and "segment l q"
  shows "indexed_from le_idx (unat (ae_prev_log_index q)) (ae_entries q)"
  using assms by (intro indexed_from_nth) (auto simp: segment_def well_indexed_def)

lemma storage_well_indexed: "storage_ok env s \<Longrightarrow> well_indexed (log_of env s)"
  using log_of_le_idx(2) [of env s] by (auto simp: well_indexed_def)

section \<open>What a leader sends\<close>

definition calls_ok :: "'cmd LogEntry list \<Rightarrow> 'cmd effect list \<Rightarrow> bool" where
  "calls_ok l out \<longleftrightarrow> (\<forall>p i j q. CallAppend p i j q \<in> set out \<longrightarrow> segment l q)"

lemma calls_ok_simps [simp]:
  "calls_ok l []" "calls_ok l (out @ out') \<longleftrightarrow> calls_ok l out \<and> calls_ok l out'"
  "calls_ok l (RpcReply tx resp # out) = calls_ok l out"
  "calls_ok l (ResetElectionTimeout # out) = calls_ok l out"
  "calls_ok l (ResetHeartbeat # out) = calls_ok l out"
  "calls_ok l (ClientReply rt res # out) = calls_ok l out"
  "calls_ok l (CallForward p cr n # out) = calls_ok l out"
  "calls_ok l (CallVote p rv # out) = calls_ok l out"
  "calls_ok l (CallAppend p i j q # out) \<longleftrightarrow> segment l q \<and> calls_ok l out"
  by (auto simp: calls_ok_def)

lemma local_calls: "all_local out \<Longrightarrow> calls_ok l out"
  by (auto simp: calls_ok_def list_all_iff)

text \<open>A call of the leader, if it returns, carries a segment of its log.\<close>

lemma append_entries_call:
  assumes ok: "storage_ok env (store w)" and bound: "last_log_index (store w) \<noteq> - 1"
    and h: "append_entries env w l p = Inr (l', out)" and out: "out \<noteq> []"
  obtains i j q nxt where "out = [CallAppend p i j q]" and "nxt \<noteq> 0" and "ae_prev_log_index q = nxt - 1"
    and "unat nxt - 1 \<le> length (entries_of env w)"
    and "nxt - 1 \<noteq> 0 \<Longrightarrow> ae_prev_log_term q = le_term (entries_of env w ! (unat (nxt - 1) - 1))"
    and "ae_entries q = drop (unat nxt - 1) (take (unat (nxt + MAX_BATCH_SIZE) - 1) (entries_of env w))"
    and "ae_leader_commit q = commit_index w"
    and "j = (if ae_entries q = [] then last_log_index (store w) else le_idx (last (ae_entries q)))"
proof -
  from h out obtain client where c: "map_of (peer_clients w) p = Some client" "connected client"
    "p \<notin> set (in_flight_peers l)"
    by (auto simp: append_entries_def split: option.splits if_splits)
  with h obtain nxt where nxt: "map_of (next_indices l) p = Some nxt"
    by (cases "map_of (next_indices l) p") (simp_all add: append_entries_def)
  obtain pt where
    pt: "(if 0 < nxt - 1 then rbind (get_log env (store w) (nxt - 1)) (\<lambda>x.
               case x of None \<Rightarrow> Inl UnwrapNone | Some e \<Rightarrow> Inr (le_term e)) else Inr 0) = Inr pt"
    using h c nxt by (simp add: append_entries_def Let_def rbind_eq_Inr del: word_neq_0_conv) blast
  with h c nxt obtain es where es: "sublog env (store w) (range_excl nxt (nxt + MAX_BATCH_SIZE)) = Inr es"
    by (simp add: append_entries_def Let_def rbind_eq_Inr) blast
  define q where "q = \<lparr>ae_term = current_term (store w), ae_leader_id = node_id w,
    ae_prev_log_index = nxt - 1, ae_prev_log_term = pt, ae_entries = es, ae_leader_commit = commit_index w\<rparr>"
  have q: "ae_prev_log_index q = nxt - 1" "ae_prev_log_term q = pt" "ae_entries q = es"
    "ae_leader_commit q = commit_index w"
    by (simp_all add: q_def)
  let ?j = "if es = [] then last_log_index (store w) else le_idx (last es)"
  have "\<exists>i. out = [CallAppend p i ?j q]"
    using h c nxt pt es by (auto simp: append_entries_def Let_def q_def)
  then obtain i where o: "out = [CallAppend p i ?j q]" by blast
  have prev: "unat (nxt - 1) \<le> length (entries_of env w)
      \<and> pt = le_term (entries_of env w ! (unat (nxt - 1) - 1))" if "nxt - 1 \<noteq> 0"
    using pt get_log_spec [OF ok, of "nxt - 1"] that
    by (auto simp: word_gt_0 log_nth_def split: if_splits)
  have nz: "nxt \<noteq> 0"
  proof
    assume "nxt = 0"
    with prev have "unat (- 1 :: u64) \<le> unat (last_log_index (store w))" by simp
    then have "- 1 \<le> last_log_index (store w)" by (simp only: word_le_nat_alt)
    with bound show False by (metis word_order.extremum_uniqueI)
  qed
  then have "unat (nxt - 1) = unat nxt - 1" by (rule unat_minus_one_nz)
  with prev have "unat nxt - 1 \<le> length (entries_of env w)" by (cases "nxt - 1 = 0") auto
  with o nz q prev es sublog_excl [OF ok nz, of "nxt + MAX_BATCH_SIZE"] show ?thesis
    by (intro that [of i ?j q nxt]) simp_all
qed

lemma append_entries_segment:
  assumes ok: "storage_ok env (store w)" and bound: "last_log_index (store w) \<noteq> - 1"
    and h: "append_entries env w l p = Inr (l', out)"
  shows "calls_ok (entries_of env w) out"
proof (cases "out = []")
  case False
  from append_entries_call [OF ok bound h False] obtain i j q nxt where out: "out = [CallAppend p i j q]"
    and nz: "nxt \<noteq> 0" and q: "ae_prev_log_index q = nxt - 1" "unat nxt - 1 \<le> length (entries_of env w)"
      "nxt - 1 \<noteq> 0 \<Longrightarrow> ae_prev_log_term q = le_term (entries_of env w ! (unat (nxt - 1) - 1))"
      "ae_entries q = drop (unat nxt - 1) (take (unat (nxt + MAX_BATCH_SIZE) - 1) (entries_of env w))"
    by metis
  have u: "unat (nxt - 1) = unat nxt - 1" using nz by (rule unat_minus_one_nz)
  have "segment (entries_of env w) q"
    unfolding segment_def q(1,4) u using q(2,3) u by (auto simp: drop_take)
  with out show ?thesis by simp
qed simp

lemma append_entries_all_segment:
  assumes "storage_ok env (store w)" and "last_log_index (store w) \<noteq> - 1"
  shows "append_entries_all env w l ps = Inr (l', out) \<Longrightarrow> calls_ok (entries_of env w) out"
  by (induction ps arbitrary: l l' out)
    (auto simp: rbind_eq_Inr dest: append_entries_segment [OF assms] split: prod.splits)

section \<open>What a step does to the log\<close>

datatype 'cmd log_change =
    SameLog
  | MergedLog "'cmd AppendEntriesRequest"
  | AppendedLog "'cmd LogEntry"

text \<open>
  The change of one step: \<open>w\<close> keeps a storage in order, the log changes as said, and what is sent
  is a segment of the new log.
\<close>

fun changed :: "'cmd log_change \<Rightarrow> 'cmd LogEntry list \<Rightarrow> 'cmd LogEntry list \<Rightarrow> bool" where
  "changed SameLog l l' = (l' = l)"
| "changed (MergedLog q) l l' = (prev_matches l (ae_prev_log_index q) (ae_prev_log_term q) \<and>
     l' = raft_merge le_term l (unat (ae_prev_log_index q)) (ae_entries q))"
| "changed (AppendedLog e) l l' = (l' = l @ [e])"

definition log_step ::
  "'cmd env \<Rightarrow> 'cmd log_change \<Rightarrow> Inner \<Rightarrow> Inner \<Rightarrow> 'cmd effect list \<Rightarrow> bool" where
  "log_step env ch w w' out \<longleftrightarrow>
     inner_ok env w' \<and> changed ch (entries_of env w) (entries_of env w') \<and> calls_ok (entries_of env w') out"

lemma quiet_inner_ok: "quiet w w' \<Longrightarrow> inner_ok env w' \<longleftrightarrow> inner_ok env w"
  by (auto simp: quiet_def inner_ok_def same_node_def)

lemma log_step_quiet:
  "log_step env ch w w1 o1 \<Longrightarrow> quiet w1 w' \<Longrightarrow> all_local o2 \<Longrightarrow> log_step env ch w w' (o1 @ o2)"
  using quiet_inner_ok [of w1 w' env] local_calls [of o2] by (auto simp: log_step_def quiet_def)

lemma log_step_same: "inner_ok env w \<Longrightarrow> calls_ok (entries_of env w) out \<Longrightarrow> log_step env SameLog w w out"
  by (simp add: log_step_def)

lemma update_term_inner:
  assumes "inner_ok env w" and "update_term env (store w) t = Inr (s, b)"
  shows "inner_ok env (w\<lparr>store := s, leader_id := l\<rparr>)" and "log_of env s = entries_of env w"
    and "inner_ok env (w\<lparr>store := s\<rparr>)" and "last_log_index s = last_log_index (store w)"
proof -
  from assms(1) have ok: "storage_ok env (store w)" "session_key (store w) = inner_session_key w"
    by (simp_all add: inner_ok_def)
  note u = update_term_spec [OF ok(1) assms(2)]
  from u(4) have l: "log_of env s = entries_of env w" by (simp add: abs_storage_def split: if_splits)
  then show "log_of env s = entries_of env w" .
  from arg_cong [OF l, of length] show "last_log_index s = last_log_index (store w)"
    by (simp add: unsigned_word_eqI)
  from u ok show "inner_ok env (w\<lparr>store := s, leader_id := l\<rparr>)" "inner_ok env (w\<lparr>store := s\<rparr>)"
    by (simp_all add: inner_ok_def)
qed

lemma handle_request_vote_log:
  assumes "inner_ok env w" and "update_term env (store w) t = Inr (s, b)"
    and "handle_request_vote env (w\<lparr>store := s\<rparr>) req = Inr (w', resp)"
  shows "log_step env SameLog w w' [RpcReply tx (RequestVoteR resp)]"
  using handle_request_vote_spec(1,4) [OF update_term_inner(3) [OF assms(1,2)] assms(3)]
    update_term_inner(2) [OF assms(1,2)]
  by (simp add: log_step_def)

lemma handle_append_entries_log:
  assumes ok: "inner_ok env w" and u: "update_term env (store w) t = Inr (s, b)"
    and h: "handle_append_entries env (w\<lparr>store := s, leader_id := l\<rparr>) req = Inr (w', resp)"
    and ix: "indexed_from le_idx (unat (ae_prev_log_index req)) (ae_entries req)"
  shows "\<exists>ch \<in> {SameLog, MergedLog req}. log_step env ch w w' [RpcReply tx (AppendEntriesR resp)]
    \<and> log_step env ch w w' [RpcReply tx (AppendEntriesR resp), ResetElectionTimeout]"
proof -
  note n = update_term_inner [OF ok u]
  from handle_append_entries_spec [OF n(1) h ix] n(2)
  have "inner_ok env w' \<and> (entries_of env w' = entries_of env w \<or>
      prev_matches (entries_of env w) (ae_prev_log_index req) (ae_prev_log_term req) \<and>
      entries_of env w' = raft_merge le_term (entries_of env w) (unat (ae_prev_log_index req)) (ae_entries req))"
    by (auto split: if_splits)
  then show ?thesis by (auto simp: log_step_def)
qed

section \<open>Each event\<close>

text \<open>
  When a step may change the log in each of these ways: entries are merged only on an
  append-entries request, and leave no leader; one is appended only by a leader that stays one.
\<close>

fun change_allowed :: "RaftWorkerState \<Rightarrow> 'cmd event \<Rightarrow> Inner \<Rightarrow> role \<Rightarrow> 'cmd log_change \<Rightarrow> bool" where
  "change_allowed st ev w r SameLog = True"
| "change_allowed st ev w r (MergedLog q) = ((\<exists>tx. ev = RpcEvent (AppendEntries q) tx) \<and> r \<noteq> LeaderRole)"
| "change_allowed st ev w r (AppendedLog e) =
     (role_of st = LeaderRole \<and> r = LeaderRole \<and> le_term e = term_of (inner_of st) \<and>
      term_of w = term_of (inner_of st) \<and>
      unat (le_idx e) = Suc (unat (last_log_index (store (inner_of st)))))"

definition event_indexed :: "'cmd event \<Rightarrow> bool" where
  "event_indexed ev \<longleftrightarrow> (\<forall>q tx. ev = RpcEvent (AppendEntries q) tx \<longrightarrow>
     indexed_from le_idx (unat (ae_prev_log_index q)) (ae_entries q))"

lemma append_entries_all_same:
  assumes "inner_ok env w" and "last_log_index (store w) \<noteq> - 1"
    and "append_entries_all env w l ps = Inr (l', out)"
  shows "log_step env SameLog w w out"
  using append_entries_all_segment [OF _ assms(2,3)] assms(1) by (intro log_step_same) (simp_all add: inner_ok_def)

lemma handle_log_update_log:
  assumes ok: "inner_ok env w" and bound: "unat (last_log_index (store w)) < 2 ^ 64 - 2"
    and h: "handle_log_update env w l cmd tx = Inr (w', l', out)"
  shows "\<exists>e. log_step env (AppendedLog e) w w' out \<and> le_term e = term_of w \<and> term_of w' = term_of w
    \<and> unat (le_idx e) = Suc (unat (last_log_index (store w)))"
proof -
  define e where "e = \<lparr>le_cmd = cmd, le_term = term_of w, le_idx = last_log_index (store w) + 1\<rparr>"
  from h obtain s l1 where s: "append_log env (store w) e = Inr s" and w': "w' = w\<lparr>store := s\<rparr>"
    and a: "append_entries_all env w' l1 (peers w') = Inr (l', out)"
    by (auto simp: handle_log_update_def e_def Let_def rbind_eq_Inr)
  have n: "last_log_index (store w) \<noteq> - 1" using bound by (auto simp: unat_minus_1)
  have ix: "unat (le_idx e) = Suc (unat (last_log_index (store w)))" by (simp add: e_def unat_plus_one [OF n])
  have sok: "storage_ok env (store w)" "session_key (store w) = inner_session_key w"
    using ok by (simp_all add: inner_ok_def)
  note sp = append_log_spec [OF sok(1) s, unfolded length_log_of, OF ix]
  have t: "term_of w' = term_of w" and lg: "entries_of env w' = entries_of env w @ [e]"
    using arg_cong [OF sp(4), of p_term] arg_cong [OF sp(4), of p_log] by (simp_all add: w')
  have ok': "inner_ok env w'" using sp sok by (simp add: inner_ok_def w')
  have "unat (last_log_index (store w')) \<noteq> 2 ^ 64 - 1" using sp(3) ix bound by (simp add: w')
  then have "last_log_index (store w') \<noteq> - 1" by (auto simp: unat_minus_1)
  from append_entries_all_same [OF ok' this a] have "log_step env (AppendedLog e) w w' out"
    by (simp add: log_step_def lg)
  then show ?thesis using ix t by (auto simp: e_def)
qed

lemma quiet_log_step: "inner_ok env w \<Longrightarrow> quiet w w' \<Longrightarrow> all_local out \<Longrightarrow> log_step env SameLog w w' out"
  using log_step_quiet [OF log_step_same [of env w "[]"], of w' out] by simp

lemma candidate_start_log:
  assumes ok: "inner_ok env w" and h: "candidate_start env w = Inr (w', v, out)"
  shows "log_step env SameLog w w' out"
proof -
  from h obtain s s' calls where s: "increment_term env (store w) = Inr s"
    and s': "set_voted_for env s (Some (node_id w)) = Inr s'" and w': "w' = w\<lparr>store := s'\<rparr>"
    and c: "request_votes env w' = Inr calls" and out: "out = calls @ [ResetElectionTimeout]"
    by (auto simp: candidate_start_def vote_for_self_def rbind_eq_Inr)
  have sok: "storage_ok env (store w)" "session_key (store w) = inner_session_key w"
    using ok by (simp_all add: inner_ok_def)
  note i = increment_term_spec [OF sok(1) s]
  note v = set_voted_for_spec [OF i(1) s']
  have "storage_ok env s'" "session_key s' = inner_session_key w" using v i sok by simp_all
  moreover have "log_of env s' = entries_of env w"
    using arg_cong [OF v(2), of p_log] arg_cong [OF i(3), of p_log] by simp
  moreover have "calls_ok l calls" for l :: "'a LogEntry list"
    using c by (auto simp: request_votes_def Let_def rbind_eq_Inr calls_ok_def split: if_splits)
  ultimately show ?thesis by (simp add: log_step_def out w' inner_ok_def)
qed

lemma handle_client_request_log:
  assumes ok: "inner_ok env w" and bound: "unat (last_log_index (store w)) < 2 ^ 64 - 2"
    and h: "handle_client_request env w l req tx = Inr (w', l', out)"
  shows "\<exists>ch. log_step env ch w w' out \<and> change_allowed (RaftWorkerState.Leader w l) ev w' LeaderRole ch"
proof (cases req)
  case (Apply cmd)
  with h obtain o1 where u: "handle_log_update env w l cmd tx = Inr (w', l', o1)" and out: "out = o1 @ [ResetHeartbeat]"
    by (auto simp: handle_client_request_def rbind_eq_Inr)
  from handle_log_update_log [OF ok bound u] obtain e where "log_step env (AppendedLog e) w w' o1"
    "le_term e = term_of w" "term_of w' = term_of w" "unat (le_idx e) = Suc (unat (last_log_index (store w)))"
    by blast
  then show ?thesis by (intro exI [of _ "AppendedLog e"]) (auto simp: out log_step_def)
next
  case Debug
  with h have "w' = w" "out = handle_debug (debug_leader l) w tx" by (auto simp: handle_client_request_def)
  then show ?thesis using ok by (intro exI [of _ SameLog]) (simp add: log_step_def handle_debug_def)
qed

lemma handle_append_entries_response_log:
  assumes ok: "inner_ok env w" and bound: "last_log_index (store w) \<noteq> - 1"
    and h: "handle_append_entries_response env w l p i j res = Inr (w', l', out, ch)"
  shows "log_step env SameLog w w' out"
proof (cases "out = [] \<and> w' = w")
  case False
  then obtain resp where res: "res = Inr (AppendEntriesR resp)"
    using h by (auto simp: handle_append_entries_response_def Let_def split: sum.splits RpcResponse.splits)
  with h obtain s b where u: "update_term env (store w) (aer_term resp) = Inr (s, b)"
    by (auto simp: handle_append_entries_response_def Let_def rbind_eq_Inr)
  note n = update_term_inner [OF ok u]
  have w': "w' = w\<lparr>store := s\<rparr>" and
    c: "out = [] \<or> (\<exists>l1 l2. append_entries env w' l1 p = Inr (l2, out))"
    using h res u by (auto simp: handle_append_entries_response_def Let_def rbind_eq_Inr split: if_splits option.splits)
  have "storage_ok env (store w')" "last_log_index (store w') \<noteq> - 1" using n(3,4) bound by (simp_all add: w' inner_ok_def)
  from append_entries_segment [OF this] c have "calls_ok (entries_of env w') out" by auto
  then show ?thesis using n by (simp add: log_step_def w')
qed (use ok in \<open>simp add: log_step_def\<close>)

text \<open>The RPCs, on each role.\<close>

lemma rpc_votes_log:
  assumes "inner_ok env w" and "update_term env (store w) t = Inr (s, b)"
    and "handle_request_vote env (w\<lparr>store := s\<rparr>) req = Inr (w', resp)"
  shows "\<exists>ch. log_step env ch w w' [RpcReply tx (RequestVoteR resp)] \<and> change_allowed st ev w' r ch"
  using handle_request_vote_log [OF assms, of tx] by (intro exI [of _ SameLog]) simp

lemma rpc_appends_log:
  assumes "inner_ok env w" and "update_term env (store w) t = Inr (s, b)"
    and "handle_append_entries env (w\<lparr>store := s, leader_id := l\<rparr>) q = Inr (w', resp)"
    and "event_indexed (RpcEvent (AppendEntries q) tx)" and "r \<noteq> LeaderRole"
    and "out = [RpcReply tx (AppendEntriesR resp)] \<or> out = [RpcReply tx (AppendEntriesR resp), ResetElectionTimeout]"
  shows "\<exists>ch. log_step env ch w w' out \<and> change_allowed st (RpcEvent (AppendEntries q) tx) w' r ch"
proof -
  from assms(4) have "indexed_from le_idx (unat (ae_prev_log_index q)) (ae_entries q)" by (simp add: event_indexed_def)
  from handle_append_entries_log [OF assms(1-3) this, of tx] obtain ch where "ch \<in> {SameLog, MergedLog q}"
    "log_step env ch w w' out" using assms(6) by blast
  then show ?thesis using assms(5) by (intro exI [of _ ch]) auto
qed

lemma follower_rpc_log:
  assumes ok: "inner_ok env w" and ix: "event_indexed (RpcEvent rpc tx)"
    and h: "follower_handle_rpc env w rpc tx = Inr (w', out)"
  shows "\<exists>ch. log_step env ch w w' out \<and> change_allowed st (RpcEvent rpc tx) w' FollowerRole ch"
proof (cases rpc)
  case (AppendEntries q)
  with h obtain s b resp where u: "update_term env (store w) (ae_term q) = Inr (s, b)"
    "handle_append_entries env (w\<lparr>store := s, leader_id := Some (ae_leader_id q)\<rparr>) q = Inr (w', resp)"
    and out: "out = [RpcReply tx (AppendEntriesR resp), ResetElectionTimeout]"
    by (auto simp: follower_handle_rpc_def rbind_eq_Inr)
  show ?thesis unfolding AppendEntries
    by (rule rpc_appends_log [OF ok u]) (use ix out in \<open>simp_all add: AppendEntries\<close>)
next
  case (RequestVote q)
  with h obtain s b resp where u: "update_term env (store w) (rv_term q) = Inr (s, b)"
    "handle_request_vote env (w\<lparr>store := s\<rparr>) q = Inr (w', resp)" and out: "out = [RpcReply tx (RequestVoteR resp)]"
    by (auto simp: follower_handle_rpc_def rbind_eq_Inr)
  show ?thesis unfolding out by (rule rpc_votes_log [OF ok u])
next
  case (ForwardClientRequest req)
  with h ok show ?thesis by (intro exI [of _ SameLog]) (auto simp: follower_handle_rpc_def log_step_def)
qed

lemma candidate_rpc_log:
  assumes ok: "inner_ok env w" and ix: "event_indexed (RpcEvent rpc tx)"
    and h: "candidate_handle_rpc env w rpc tx = Inr (w', out, c)"
  shows "\<exists>ch. log_step env ch w w' out \<and>
    change_allowed st (RpcEvent rpc tx) w' (if c = BecomeFollower then FollowerRole else CandidateRole v) ch"
proof (cases rpc)
  case (AppendEntries q)
  with h obtain s b resp where u: "update_term env (store w) (ae_term q) = Inr (s, b)"
    "handle_append_entries env (w\<lparr>store := s, leader_id := leader_id w\<rparr>) q = Inr (w', resp)"
    and out: "out = [RpcReply tx (AppendEntriesR resp)]"
    by (auto simp: candidate_handle_rpc_def rbind_eq_Inr)
  show ?thesis unfolding AppendEntries
    by (rule rpc_appends_log [OF ok u]) (use ix out in \<open>simp_all add: AppendEntries\<close>)
next
  case (RequestVote q)
  with h obtain s b resp where u: "update_term env (store w) (rv_term q) = Inr (s, b)"
    "handle_request_vote env (w\<lparr>store := s\<rparr>) q = Inr (w', resp)" and out: "out = [RpcReply tx (RequestVoteR resp)]"
    by (auto simp: candidate_handle_rpc_def rbind_eq_Inr)
  show ?thesis unfolding out by (rule rpc_votes_log [OF ok u])
next
  case (ForwardClientRequest req)
  with h ok show ?thesis by (intro exI [of _ SameLog]) (auto simp: candidate_handle_rpc_def log_step_def)
qed

lemma leader_rpc_log:
  assumes ok: "inner_ok env w" and bound: "unat (last_log_index (store w)) < 2 ^ 64 - 2"
    and ix: "event_indexed (RpcEvent rpc tx)"
    and h: "leader_handle_rpc env w l rpc tx = Inr (w', l', out, c)"
  shows "\<exists>ch. log_step env ch w w' out \<and> change_allowed (RaftWorkerState.Leader w l) (RpcEvent rpc tx) w'
    (if c = BecomeFollower then FollowerRole else LeaderRole) ch"
proof (cases rpc)
  case (AppendEntries q)
  with h obtain s b where u: "update_term env (store w) (ae_term q) = Inr (s, b)"
    by (auto simp: leader_handle_rpc_def Let_def rbind_eq_Inr)
  show ?thesis
  proof (cases b)
    case True
    with h u AppendEntries obtain resp where
      r: "handle_append_entries env (w\<lparr>store := s, leader_id := leader_id w\<rparr>) q = Inr (w', resp)"
      and out: "out = [RpcReply tx (AppendEntriesR resp)]" "c = BecomeFollower"
      by (auto simp: leader_handle_rpc_def Let_def rbind_eq_Inr)
    show ?thesis unfolding AppendEntries
      by (rule rpc_appends_log [OF ok u r]) (use ix out in \<open>simp_all add: AppendEntries\<close>)
  next
    case False
    with h u AppendEntries update_term_inner [OF ok u] show ?thesis
      by (intro exI [of _ SameLog]) (auto simp: leader_handle_rpc_def Let_def log_step_def)
  qed
next
  case (RequestVote q)
  with h obtain s b where u: "update_term env (store w) (rv_term q) = Inr (s, b)"
    by (auto simp: leader_handle_rpc_def Let_def rbind_eq_Inr)
  show ?thesis
  proof (cases b)
    case True
    with h u RequestVote obtain resp where r: "handle_request_vote env (w\<lparr>store := s\<rparr>) q = Inr (w', resp)"
      and out: "out = [RpcReply tx (RequestVoteR resp)]"
      by (auto simp: leader_handle_rpc_def Let_def rbind_eq_Inr)
    show ?thesis unfolding out by (rule rpc_votes_log [OF ok u r])
  next
    case False
    with h u RequestVote update_term_inner [OF ok u] show ?thesis
      by (intro exI [of _ SameLog]) (auto simp: leader_handle_rpc_def Let_def log_step_def)
  qed
next
  case (ForwardClientRequest req)
  with h have "handle_client_request env w l req (RelayTx tx) = Inr (w', l', out)" "c = Continue"
    by (auto simp: leader_handle_rpc_def Let_def rbind_eq_Inr)
  with handle_client_request_log [OF ok bound this(1)] show ?thesis by simp
qed

lemma handled_log:
  assumes ok: "inner_ok env (inner_of st)" and bound: "unat (last_log_index (store (inner_of st))) < 2 ^ 64 - 2"
    and ix: "event_indexed ev" and h: "handled env st ev w out r"
  shows "\<exists>ch. log_step env ch (inner_of st) w out \<and> change_allowed st ev w r ch"
proof -
  have max: "last_log_index (store (inner_of st)) \<noteq> - 1" using bound by (auto simp: unat_minus_1)
  have same: ?thesis if "log_step env SameLog (inner_of st) w out"
    using that by (intro exI [of _ SameLog]) simp
  from h show ?thesis
  proof cases
    case (follower_rpc w0 rpc tx)
    with follower_rpc_log [OF _ ix [unfolded this(2)]] ok show ?thesis by simp
  next
    case (follower_client req tx)
    with ok show ?thesis by (intro same) (auto simp: log_step_def follower_handle_client_def handle_debug_def
        forward_client_request_def split: ClientRequest.splits option.splits)
  next
    case (follower_timeout w0 v)
    have "inner_ok env (w0\<lparr>leader_id := None\<rparr>)" using ok follower_timeout(1) by (simp add: inner_ok_def)
    from candidate_start_log [OF this follower_timeout(4)] show ?thesis
      using follower_timeout(1) by (intro same) (auto simp: log_step_def)
  next
    case (candidate_rpc w0 rpc tx c v)
    with candidate_rpc_log [OF _ ix [unfolded this(2)]] ok show ?thesis by simp
  next
    case (candidate_client v req tx)
    with ok show ?thesis by (intro same) (auto simp: log_step_def candidate_handle_client_def handle_debug_def
        split: ClientRequest.splits)
  next
    case (candidate_timeout w0 v' v)
    with candidate_start_log ok show ?thesis by (intro same) simp
  next
    case (leader_rpc w0 l rpc tx l' c)
    with leader_rpc_log [OF _ _ ix [unfolded this(2)]] ok bound show ?thesis by simp
  next
    case (leader_response w0 l p i j res l' c)
    with handle_append_entries_response_log ok max show ?thesis by (intro same) simp
  next
    case (leader_client w0 l req tx l')
    with handle_client_request_log ok bound show ?thesis by simp
  next
    case (leader_timer l l')
    then obtain o1 where "append_entries_all env w l (peers w) = Inr (l', o1)" "out = o1 @ [ResetHeartbeat]"
      by (auto simp: leader_heartbeat_def rbind_eq_Inr)
    with append_entries_all_same [OF _ _ this(1)] leader_timer(1) ok max show ?thesis
      by (intro same) (simp add: log_step_def)
  qed (use ok same in \<open>auto simp: log_step_def inner_ok_def handle_new_peer_def connection_lost_def\<close>)
qed

theorem step_log:
  assumes ok: "inner_ok env (inner_of st)" and bound: "unat (last_log_index (store (inner_of st))) < 2 ^ 64 - 2"
    and ix: "event_indexed ev" and step: "worker_step env st ev = Inr (st', out)"
  obtains ch where "log_step env ch (inner_of st) (inner_of st') out"
    and "change_allowed st ev (inner_of st') (role_of st') ch"
proof -
  from worker_step_parts [OF step] obtain w o1 o2 where h: "handled env st ev w o1 (role_of st')"
    and q: "out = o1 @ o2" "quiet w (inner_of st')" "all_local o2" .
  from handled_log [OF ok bound ix h] obtain ch where ch: "log_step env ch (inner_of st) w o1"
    "change_allowed st ev w (role_of st') ch" by blast
  have "log_step env ch (inner_of st) (inner_of st') out"
    unfolding q(1) using log_step_quiet [OF ch(1) q(2,3)] .
  moreover have "change_allowed st ev (inner_of st') (role_of st') ch"
    using ch(2) q(2) by (cases ch) (auto simp: quiet_def)
  ultimately show ?thesis by (rule that)
qed

end
