(* ===== verification/Logs.thy ===== *)
theory Logs
  imports Replication
begin

text \<open>
  Replicated logs, as an abstract system: every node has a log, some lead a term, and requests
  that carry a segment of a log are on their way. A leader appends to its log and sends segments
  of it, any node may merge a request into its log, and a term is led at most once. The system
  keeps, for every term, the log of the term's leader as a history variable, and its invariant
  says that every log is, entry by entry, a copy of the history of the entry's term.
\<close>

section \<open>The system\<close>

record 'cmd lsys =
  l_log :: "NodeId \<Rightarrow> 'cmd LogEntry list"
  l_lead :: "NodeId \<Rightarrow> TermIndex option"
  l_wire :: "'cmd AppendEntriesRequest set"
  l_hist :: "TermIndex \<Rightarrow> 'cmd LogEntry list"
  l_led :: "TermIndex set"
  l_size :: nat

inductive lstep :: "'cmd lsys \<Rightarrow> 'cmd lsys \<Rightarrow> bool" where
  lsend: "segment (l_log s n) q \<Longrightarrow> lstep s (s\<lparr>l_wire := insert q (l_wire s)\<rparr>)"
| lquit: "lstep s (s\<lparr>l_lead := (l_lead s)(n := None)\<rparr>)"
| lelect: "t \<notin> l_led s \<Longrightarrow>
    lstep s (s\<lparr>l_lead := (l_lead s)(n := Some t), l_hist := (l_hist s)(t := l_log s n),
               l_led := insert t (l_led s)\<rparr>)"
| lappend: "l_lead s n = Some (le_term e) \<Longrightarrow> unat (le_idx e) = Suc (length (l_log s n)) \<Longrightarrow>
    lstep s (s\<lparr>l_log := (l_log s)(n := l_log s n @ [e]),
               l_hist := (l_hist s)(le_term e := l_log s n @ [e]), l_size := Suc (l_size s)\<rparr>)"
| lmerge: "q \<in> l_wire s \<Longrightarrow> prev_matches (l_log s n) (ae_prev_log_index q) (ae_prev_log_term q) \<Longrightarrow>
    lstep s (s\<lparr>l_log := (l_log s)(n :=
                 raft_merge le_term (l_log s n) (unat (ae_prev_log_index q)) (ae_entries q)),
               l_lead := (l_lead s)(n := None)\<rparr>)"

section \<open>The invariant\<close>

definition copied :: "(TermIndex \<Rightarrow> 'cmd LogEntry list) \<Rightarrow> nat \<Rightarrow> 'cmd LogEntry list \<Rightarrow> bool" where
  "copied h b l \<longleftrightarrow> well_indexed l \<and> length l \<le> b \<and>
     (\<forall>i < length l. take (Suc i) l = take (Suc i) (h (le_term (l ! i))))"

definition logs_ok :: "'cmd lsys \<Rightarrow> bool" where
  "logs_ok s \<longleftrightarrow>
     (\<forall>n. copied (l_hist s) (l_size s) (l_log s n)) \<and>
     (\<forall>q \<in> l_wire s. \<exists>l. copied (l_hist s) (l_size s) l \<and> segment l q) \<and>
     (\<forall>n t. l_lead s n = Some t \<longrightarrow> t \<in> l_led s \<and> l_hist s t = l_log s n) \<and>
     (\<forall>n m t. l_lead s n = Some t \<longrightarrow> l_lead s m = Some t \<longrightarrow> n = m) \<and>
     (\<forall>t. t \<notin> l_led s \<longrightarrow> l_hist s t = [])"

lemma copied_take: "copied h b l \<Longrightarrow> copied h b (take k l)"
  by (auto simp: copied_def well_indexed_def min_absorb1)

lemma copied_agree:
  assumes "copied h b l" and "copied h b' m" and "i < length l" and "i < length m"
    and "le_term (l ! i) = le_term (m ! i)"
  shows "take (Suc i) l = take (Suc i) m"
  using assms by (simp add: copied_def)

text \<open>A merge of a segment yields the log itself or a prefix of the sender's.\<close>

lemma merge_copies:
  assumes "copied h b l" and "copied h b m"
  shows "take p l = take p m \<Longrightarrow> p \<le> length l \<Longrightarrow> p \<le> length m \<Longrightarrow> es = take k (drop p m) \<Longrightarrow>
    raft_merge le_term l p es \<in> {l, take (p + length es) m}"
proof (induction es arbitrary: p k)
  case (Cons e es)
  from Cons.prems(4) have p: "p < length m" by (cases "p < length m") auto
  have e: "e = m ! p" and es: "es = take (k - 1) (drop (Suc p) m)"
    using Cons.prems(4) p by (cases k; simp add: Cons_nth_drop_Suc [symmetric])+
  show ?case
  proof (cases "p < length l \<and> le_term (l ! p) = le_term e")
    case True
    then have "take (Suc p) l = take (Suc p) m" using copied_agree [OF assms, of p] p e by simp
    from Cons.IH [OF this _ _ es] True p show ?thesis by simp
  next
    case False
    have "take p l @ e # es = take p m @ take k (drop p m)" using Cons.prems(1,4) by simp
    also have "... = take (p + k) m" by (simp add: take_add)
    also have "... = take (p + length (e # es)) m"
      unfolding Cons.prems(4) using p by (simp add: min_def)
    finally show ?thesis using False by auto
  qed
qed simp

text \<open>The log before the entries of a request that fits is the sender's.\<close>

lemma segment_prev:
  assumes l: "copied h b l" and m: "copied h b m" and seg: "segment m q"
    and prev: "prev_matches l (ae_prev_log_index q) (ae_prev_log_term q)"
  defines "p \<equiv> unat (ae_prev_log_index q)"
  obtains k where "ae_entries q = take k (drop p m)" and "p \<le> length m" and "p \<le> length l" and "take p l = take p m"
proof -
  from seg obtain k where k: "ae_entries q = take k (drop p m)" "p \<le> length m" by (auto simp: segment_def p_def)
  have len: "p \<le> length l" unfolding p_def by (rule prev_matches_length [OF prev])
  have "take p l = take p m"
  proof (cases "ae_prev_log_index q = 0")
    case False
    then have pos: "0 < p" by (simp add: p_def unat_gt_0)
    have "le_term (l ! (p - 1)) = le_term (m ! (p - 1))"
      using False prev seg by (auto simp: prev_matches_def segment_def log_nth_def p_def split: if_splits)
    from copied_agree [OF l m _ _ this] pos len k(2) show ?thesis by simp
  qed (simp add: p_def)
  with that k len show ?thesis by blast
qed

lemma merge_copied:
  assumes l: "copied h b l" and m: "copied h b m" and seg: "segment m q"
    and prev: "prev_matches l (ae_prev_log_index q) (ae_prev_log_term q)"
  shows "copied h b (raft_merge le_term l (unat (ae_prev_log_index q)) (ae_entries q))"
proof -
  let ?p = "unat (ae_prev_log_index q)"
  from segment_prev [OF l m seg prev] obtain k where "ae_entries q = take k (drop ?p m)" and "?p \<le> length m" and "?p \<le> length l"
    and "take ?p l = take ?p m" .
  from merge_copies [OF l m this(4,3,2,1)] l m show ?thesis using copied_take [OF m] by auto
qed

text \<open>Two logs that agree on the term of an entry agree up to it.\<close>

theorem logs_match:
  assumes "logs_ok s" and "i < length (l_log s n)" and "i < length (l_log s m)"
    and "le_term (l_log s n ! i) = le_term (l_log s m ! i)"
  shows "take (Suc i) (l_log s n) = take (Suc i) (l_log s m)"
proof -
  have "copied (l_hist s) (l_size s) (l_log s n)" "copied (l_hist s) (l_size s) (l_log s m)"
    using assms(1) by (simp_all add: logs_ok_def)
  from copied_agree [OF this assms(2-4)] show ?thesis .
qed

section \<open>Every step keeps the invariant\<close>

text \<open>Histories that only grow, and begin only in terms without entries.\<close>

definition extends :: "(TermIndex \<Rightarrow> 'cmd LogEntry list) \<Rightarrow> (TermIndex \<Rightarrow> 'cmd LogEntry list) \<Rightarrow> bool" where
  "extends h h' \<longleftrightarrow> (\<forall>t. take (length (h t)) (h' t) = h t)"

lemma copied_extends:
  assumes "copied h b l" and "extends h h'" and "b \<le> b'"
  shows "copied h' b' l"
proof -
  have "take (Suc i) (h' t) = take (Suc i) l" if i: "i < length l" and t: "t = le_term (l ! i)" for i t
  proof -
    have l: "take (Suc i) l = take (Suc i) (h t)" using assms(1) i t by (simp add: copied_def)
    then have "length (take (Suc i) (h t)) = Suc i" using i by (metis length_take min_absorb2 Suc_leI)
    then have "Suc i \<le> length (h t)" by simp
    then have "take (Suc i) (h' t) = take (Suc i) (take (length (h t)) (h' t))" by simp
    also have "... = take (Suc i) (h t)" using assms(2) by (simp add: extends_def)
    finally show ?thesis using l by simp
  qed
  then show ?thesis using assms by (auto simp: copied_def)
qed

lemma logs_ok_extends:
  assumes "logs_ok s" and "extends (l_hist s) h'" and "l_size s \<le> b'"
  shows "\<forall>n. copied h' b' (l_log s n)" and "\<forall>q \<in> l_wire s. \<exists>l. copied h' b' l \<and> segment l q"
  using assms copied_extends unfolding logs_ok_def by blast+

lemma lstep_append_ok:
  assumes ok: "logs_ok s" and lead: "l_lead s n = Some (le_term e)"
    and ix: "unat (le_idx e) = Suc (length (l_log s n))"
  shows "logs_ok (s\<lparr>l_log := (l_log s)(n := l_log s n @ [e]),
     l_hist := (l_hist s)(le_term e := l_log s n @ [e]), l_size := Suc (l_size s)\<rparr>)"
proof -
  let ?h = "(l_hist s)(le_term e := l_log s n @ [e])"
  have h: "l_hist s (le_term e) = l_log s n" "le_term e \<in> l_led s" using ok lead by (auto simp: logs_ok_def)
  have ext: "extends (l_hist s) ?h" using h by (simp add: extends_def)
  note old = logs_ok_extends [OF ok ext, of "Suc (l_size s)", simplified]
  have "copied (l_hist s) (l_size s) (l_log s n)" using ok by (simp add: logs_ok_def)
  then have w: "well_indexed (l_log s n)" "length (l_log s n) \<le> l_size s" by (simp_all add: copied_def)
  have c: "copied ?h (Suc (l_size s)) (l_log s n)" using old(1) by blast
  have "copied ?h (Suc (l_size s)) (l_log s n @ [e])"
    unfolding copied_def
  proof (intro conjI allI impI)
    show "well_indexed (l_log s n @ [e])" using w ix by (auto simp: well_indexed_def nth_append less_Suc_eq)
    fix i assume i: "i < length (l_log s n @ [e])"
    show "take (Suc i) (l_log s n @ [e]) = take (Suc i) (?h (le_term ((l_log s n @ [e]) ! i)))"
    proof (cases "i < length (l_log s n)")
      case True
      with c have "take (Suc i) (l_log s n) = take (Suc i) (?h (le_term (l_log s n ! i)))"
        unfolding copied_def by blast
      with True show ?thesis by (simp add: nth_append)
    qed (use i in \<open>simp add: nth_append less_Suc_eq\<close>)
  qed (use w in simp)
  moreover have "l_lead s m = Some t \<Longrightarrow> m \<noteq> n \<Longrightarrow> t \<noteq> le_term e" for m t
    using ok lead unfolding logs_ok_def by blast
  ultimately show ?thesis using ok old h(2) lead unfolding logs_ok_def by auto
qed

lemma lstep_ok:
  assumes ok: "logs_ok s" and step: "lstep s s'"
  shows "logs_ok s'"
  using step
proof cases
  case (lsend n q)
  with ok show ?thesis by (auto simp: logs_ok_def)
next
  case (lquit n)
  with ok show ?thesis by (auto simp: logs_ok_def)
next
  case (lelect t n)
  have ext: "extends (l_hist s) ((l_hist s)(t := l_log s n))"
    using ok lelect(2) by (simp add: extends_def logs_ok_def)
  note old = logs_ok_extends [OF ok ext order_refl]
  have led: "l_lead s m = Some u \<Longrightarrow> u \<noteq> t" for m u using ok lelect(2) unfolding logs_ok_def by blast
  show ?thesis using ok old led unfolding lelect(1) logs_ok_def by auto
next
  case (lappend n e)
  from lstep_append_ok [OF ok lappend(2,3)] show ?thesis by (simp add: lappend(1))
next
  case (lmerge q n)
  obtain m where m: "copied (l_hist s) (l_size s) m" "segment m q"
    using ok lmerge(2) by (auto simp: logs_ok_def)
  have "copied (l_hist s) (l_size s) (l_log s n)" using ok by (simp add: logs_ok_def)
  from merge_copied [OF this m lmerge(3)] ok show ?thesis by (auto simp: lmerge(1) logs_ok_def)
qed

lemma lsteps_ok: "lstep\<^sup>*\<^sup>* s s' \<Longrightarrow> logs_ok s \<Longrightarrow> logs_ok s'"
  by (induction rule: rtranclp_induct) (auto intro: lstep_ok)

text \<open>The histories only grow.\<close>

lemma lstep_extends:
  assumes "logs_ok s" and "lstep s s'"
  shows "extends (l_hist s) (l_hist s')"
  using assms(2,1) by cases (auto simp: extends_def logs_ok_def)

lemma extends_trans: "extends h h' \<Longrightarrow> extends h' h'' \<Longrightarrow> extends h h''"
  unfolding extends_def by (metis append_eq_conv_conj append_assoc append_take_drop_id)

lemma lsteps_extends: "lstep\<^sup>*\<^sup>* s s' \<Longrightarrow> logs_ok s \<Longrightarrow> extends (l_hist s) (l_hist s')"
proof (induction rule: rtranclp_induct)
  case (step y z)
  then show ?case using lstep_extends [of y z] lsteps_ok [of s y] extends_trans by blast
qed (simp add: extends_def)

definition l_init :: "'cmd lsys" where
  "l_init = \<lparr>l_log = (\<lambda>_. []), l_lead = (\<lambda>_. None), l_wire = {}, l_hist = (\<lambda>_. []), l_led = {}, l_size = 0\<rparr>"

lemma l_init_ok: "logs_ok l_init"
  by (simp add: logs_ok_def l_init_def copied_def well_indexed_def)

end
