(* ===== verification/LogMatching.thy ===== *)
theory LogMatching
  imports Terms Logs
begin

text \<open>
  The cluster's logs are those of the abstract system of theory Logs: whatever an action does to a
  node is a few steps of that system, where the terms that begin are those the voting system of
  theory Voting elects a leader for. The log matching property of the cluster follows.
\<close>

section \<open>The simulation\<close>

fun leads :: "RaftWorkerState \<Rightarrow> TermIndex option" where
  "leads (RaftWorkerState.Leader w l) = Some (term_of w)"
| "leads _ = None"

lemma leads_role: "leads st = (if role_of st = LeaderRole then Some (term_of (inner_of st)) else None)"
  by (cases st) simp_all

fun append_call :: "'cmd packet \<Rightarrow> 'cmd AppendEntriesRequest option" where
  "append_call (Call orig (AppendEntries q)) = Some q"
| "append_call _ = None"

definition append_packets :: "'cmd AppendEntriesRequest set \<Rightarrow> 'cmd packet set" where
  "append_packets W = {pk. \<forall>q. append_call pk = Some q \<longrightarrow> q \<in> W}"

definition lsim :: "'cmd env \<Rightarrow> 'cmd cluster \<Rightarrow> 'cmd lsys \<Rightarrow> bool" where
  "lsim env cl s \<longleftrightarrow>
     (\<forall>n st. nodes cl n = Some st \<longrightarrow> inner_ok env (inner_of st) \<and>
        l_log s n = entries_of env (inner_of st) \<and> l_lead s n = leads st) \<and>
     set (net cl) \<subseteq> append_packets (l_wire s)"

lemma lsimD:
  assumes "lsim env cl s" and "nodes cl n = Some st"
  shows "inner_ok env (inner_of st)" and "l_log s n = entries_of env (inner_of st)" and "l_lead s n = leads st"
    and "set (net cl) \<subseteq> append_packets (l_wire s)"
  using assms by (simp_all add: lsim_def)

lemma lsim_frame:
  "lsim env cl s \<Longrightarrow> nodes cl' = nodes cl \<Longrightarrow> set (net cl') \<subseteq> set (net cl) \<Longrightarrow> lsim env cl' s"
  by (auto simp: lsim_def)

text \<open>The packets of a step: only its calls matter, and they are segments of its log.\<close>

fun sent_by :: "'cmd effect \<Rightarrow> 'cmd AppendEntriesRequest set" where
  "sent_by (CallAppend p i j q) = {q}"
| "sent_by _ = {}"

abbreviation sent :: "'cmd effect list \<Rightarrow> 'cmd AppendEntriesRequest set" where
  "sent out \<equiv> \<Union> (set (map sent_by out))"

lemma emit_packets: "set (net (emit n cl e)) \<subseteq> set (net cl) \<union> append_packets (sent [e])"
proof (cases e)
  case (ClientReply rt res)
  then show ?thesis
    by (cases rt) (auto simp: respond_def append_packets_def split: option.splits)
qed (auto simp: respond_def send_def append_packets_def split: option.splits)

lemma emits_packets: "set (net (foldl (emit n) cl out)) \<subseteq> set (net cl) \<union> append_packets (sent out)"
proof (induction out arbitrary: cl)
  case (Cons e out)
  have "append_packets (sent [e]) \<union> append_packets (sent out) \<subseteq> append_packets (sent (e # out))"
    by (auto simp: append_packets_def)
  with Cons.IH [of "emit n cl e"] emit_packets [of n cl e] show ?case by auto
qed simp

lemma sentE:
  assumes "q \<in> sent out"
  obtains p i j where "CallAppend p i j q \<in> set out"
proof -
  from assms obtain e where e: "e \<in> set out" "q \<in> sent_by e" by auto
  from e(2) obtain p i j where "e = CallAppend p i j q" by (cases e) auto
  with e(1) that show ?thesis by blast
qed

lemma append_packets_mono: "W \<subseteq> W' \<Longrightarrow> append_packets W \<subseteq> append_packets W'"
  by (auto simp: append_packets_def)

section \<open>One node's step\<close>

text \<open>Sending, and taking up a new role, without a change of the log.\<close>

lemma lsends:
  assumes "finite W" and "\<And>q. q \<in> W \<Longrightarrow> segment (l_log s n) q"
  shows "lstep\<^sup>*\<^sup>* s (s\<lparr>l_wire := l_wire s \<union> W\<rparr>)"
  using assms
proof (induction W rule: finite_induct)
  case (insert q W)
  let ?s = "s\<lparr>l_wire := l_wire s \<union> W\<rparr>"
  have "lstep ?s (?s\<lparr>l_wire := insert q (l_wire ?s)\<rparr>)"
    by (rule lsend [where n = n]) (simp add: insert.prems)
  then show ?case using insert by (auto intro: rtranclp.rtrancl_into_rtrancl)
qed simp

lemmas one_lstep = r_into_rtranclp [of lstep]

lemma lrole:
  assumes "l_lead s n = lead \<or> lead = None \<or> (\<exists>t. lead = Some t \<and> t \<notin> l_led s)"
  obtains s' where "lstep\<^sup>*\<^sup>* s s'" and "l_log s' = l_log s" and "l_lead s' = (l_lead s)(n := lead)"
    and "l_wire s' = l_wire s" and "l_size s' = l_size s" and "l_led s' \<subseteq> l_led s \<union> set_option lead"
  using assms
proof (elim disjE exE conjE)
  assume "l_lead s n = lead"
  then have "(l_lead s)(n := lead) = l_lead s" by auto
  then show ?thesis by (intro that [of s]) auto
next
  assume "lead = None"
  then show ?thesis by (intro that [OF one_lstep [OF lquit [of s n]]]) simp_all
next
  fix t assume "lead = Some t" "t \<notin> l_led s"
  then show ?thesis by (intro that [OF one_lstep [OF lelect [of t s n]]]) simp_all
qed

text \<open>
  The change of the log in one step of a node. The abstract system then still has to give the node
  its role; what it has on the way is the node's role before the step, or none.
\<close>

lemma lchange:
  assumes sim: "lsim env cl s" and st: "nodes cl n = Some st"
    and ch: "log_step env ch (inner_of st) w out" and al: "change_allowed st ev w r ch"
    and src: "sourced (append_packets (l_wire s)) ev"
  obtains s' where "lstep\<^sup>*\<^sup>* s s'" and "l_log s' = (l_log s)(n := entries_of env w)"
    and "\<And>m. m \<noteq> n \<Longrightarrow> l_lead s' m = l_lead s m"
    and "l_lead s' n = leads st \<or> r \<noteq> LeaderRole"
    and "l_wire s' = l_wire s" and "l_size s' \<le> Suc (l_size s)" and "l_led s' = l_led s"
proof (cases ch)
  case SameLog
  with ch lsimD [OF sim st] show ?thesis by (intro that [of s]) (auto simp: log_step_def)
next
  case (MergedLog q)
  with al obtain tx where ev: "ev = RpcEvent (AppendEntries q) tx" and r: "r \<noteq> LeaderRole" by auto
  from src have q: "q \<in> l_wire s" by (auto simp: ev append_packets_def)
  have
    p: "prev_matches (l_log s n) (ae_prev_log_index q) (ae_prev_log_term q)" and
    e: "entries_of env w = raft_merge le_term (l_log s n) (unat (ae_prev_log_index q)) (ae_entries q)"
    using ch MergedLog lsimD(2) [OF sim st] by (auto simp: log_step_def)
  from lmerge [OF q p] have one: "lstep s (s\<lparr>l_log := (l_log s)(n := entries_of env w), l_lead := (l_lead s)(n := None)\<rparr>)"
    by (simp only: e)
  show ?thesis using r by (intro that [OF one_lstep [OF one]]) simp_all
next
  case (AppendedLog e)
  with al have lead: "l_lead s n = Some (le_term e)" and "leads st = Some (le_term e)"
    using lsimD(3) [OF sim st] by (simp_all add: leads_role)
  note l = lsimD(2) [OF sim st]
  have "unat (le_idx e) = Suc (length (l_log s n))" using al AppendedLog l by simp
  from lappend [OF lead this] have one: "lstep s (s\<lparr>l_log := (l_log s)(n := entries_of env w),
      l_hist := (l_hist s)(le_term e := entries_of env w), l_size := Suc (l_size s)\<rparr>)"
    using ch AppendedLog l by (simp add: log_step_def)
  show ?thesis using lead \<open>leads st = Some (le_term e)\<close> by (intro that [OF one_lstep [OF one]]) simp_all
qed

text \<open>A node takes a step: the log changes, then its role, then it sends.\<close>

lemma lnode:
  assumes sim: "lsim env cl s" and st: "nodes cl n = Some st"
    and ch: "log_step env ch (inner_of st) (inner_of st') out"
    and al: "change_allowed st ev (inner_of st') (role_of st') ch"
    and src: "sourced (append_packets (l_wire s)) ev"
    and new: "\<And>t. leads st' = Some t \<Longrightarrow> l_lead s n = Some t \<or> t \<notin> l_led s"
  obtains s' where "lstep\<^sup>*\<^sup>* s s'" and "lsim env (foldl (emit n) (set_node n (Some st') cl) out) s'"
    and "l_size s' \<le> Suc (l_size s)" and "l_led s' \<subseteq> l_led s \<union> set_option (leads st')"
proof -
  from lchange [OF sim st ch al src] obtain s1 where s1: "lstep\<^sup>*\<^sup>* s s1"
    "l_log s1 = (l_log s)(n := entries_of env (inner_of st'))" "\<And>m. m \<noteq> n \<Longrightarrow> l_lead s1 m = l_lead s m"
    "l_lead s1 n = leads st \<or> role_of st' \<noteq> LeaderRole" "l_wire s1 = l_wire s"
    "l_size s1 \<le> Suc (l_size s)" "l_led s1 = l_led s" by blast
  have "l_lead s1 n = leads st' \<or> leads st' = None \<or> (\<exists>t. leads st' = Some t \<and> t \<notin> l_led s1)"
    using new s1(4,7) lsimD(3) [OF sim st] by (auto simp: leads_role split: if_splits)
  then obtain s2 where s2: "lstep\<^sup>*\<^sup>* s1 s2" "l_log s2 = l_log s1" "l_lead s2 = (l_lead s1)(n := leads st')"
    "l_wire s2 = l_wire s1" "l_size s2 = l_size s1" "l_led s2 \<subseteq> l_led s1 \<union> set_option (leads st')"
    by (rule lrole)
  have ok: "inner_ok env (inner_of st')" and seg: "calls_ok (entries_of env (inner_of st')) out"
    using ch by (simp_all add: log_step_def)
  have fin: "finite (sent out)"
  proof -
    have "finite (sent_by e)" for e :: "'a effect" by (cases e) simp_all
    then show ?thesis by simp
  qed
  have "segment (l_log s2 n) q" if "q \<in> sent out" for q
    using that by (rule sentE) (use seg in \<open>simp add: calls_ok_def s2(2) s1(2)\<close>)
  from lsends [OF fin this] have s3: "lstep\<^sup>*\<^sup>* s2 (s2\<lparr>l_wire := l_wire s2 \<union> sent out\<rparr>)" .
  let ?s = "s2\<lparr>l_wire := l_wire s2 \<union> sent out\<rparr>"
  have "set (net (foldl (emit n) (set_node n (Some st') cl) out)) \<subseteq> append_packets (l_wire s \<union> sent out)"
    using emits_packets [of n "set_node n (Some st') cl" out] lsimD(4) [OF sim st]
      append_packets_mono [of "l_wire s" "l_wire s \<union> sent out"] append_packets_mono [of "sent out" "l_wire s \<union> sent out"]
    by (auto simp: set_node_def)
  then have "lsim env (foldl (emit n) (set_node n (Some st') cl) out) ?s"
    using sim ok by (auto simp: lsim_def s2 s1 set_node_def)
  moreover have "lstep\<^sup>*\<^sup>* s ?s" using s1(1) s2(1) s3 by (meson rtranclp_trans)
  ultimately show ?thesis using s1(6,7) s2(5,6) by (intro that [of ?s]) simp_all
qed

section \<open>Every action\<close>

definition logs_before :: "'cmd env \<Rightarrow> 'cmd lsys \<Rightarrow> 'cmd cluster \<Rightarrow> bool" where
  "logs_before env s cl \<longleftrightarrow> lsim env cl s \<and> logs_ok s \<and> l_size s < 2 ^ 64 - 2"

text \<open>If the terms that begin are new, the abstract system follows.\<close>

definition logs_after :: "'cmd env \<Rightarrow> 'cmd lsys \<Rightarrow> 'cmd cluster \<Rightarrow> bool" where
  "logs_after env s cl \<longleftrightarrow> (\<forall>n t. is_leader_in cl n t \<longrightarrow> l_lead s n = Some t \<or> t \<notin> l_led s) \<longrightarrow>
     (\<exists>s'. lstep\<^sup>*\<^sup>* s s' \<and> lsim env cl s' \<and> l_size s' \<le> Suc (l_size s) \<and>
       l_led s' \<subseteq> l_led s \<union> {t. \<exists>n. is_leader_in cl n t})"

lemma logs_after_same: "lsim env cl s \<Longrightarrow> logs_after env s cl"
  unfolding logs_after_def by (intro impI exI [of _ s]) auto

lemma logs_halt:
  assumes "lsim env cl s"
  shows "logs_after env s (set_node n None cl)"
  by (rule logs_after_same) (use assms in \<open>auto simp: lsim_def set_node_def\<close>)

lemma logs_finish:
  assumes sim: "lsim env cl s" and st: "nodes cl n = Some st"
    and r: "\<And>st' out. r = Inr (st', out) \<Longrightarrow> \<exists>ch. log_step env ch (inner_of st) (inner_of st') out
      \<and> change_allowed st ev (inner_of st') (role_of st') ch"
    and src: "sourced (append_packets (l_wire s)) ev"
  shows "logs_after env s (finish n r cl)"
proof (cases r)
  case (Inl e)
  with logs_halt [OF sim] show ?thesis by (simp add: finish_def)
next
  case (Inr x)
  obtain st' out where x: "x = (st', out)" by force
  from r [OF Inr [unfolded x]] obtain ch where ch: "log_step env ch (inner_of st) (inner_of st') out"
    "change_allowed st ev (inner_of st') (role_of st') ch" by blast
  let ?cl = "foldl (emit n) (set_node n (Some st') cl) out"
  have lead: "is_leader_in ?cl n t" if "leads st' = Some t" for t
    using that by (cases st') (simp_all add: is_leader_in_def set_node_def)
  have "logs_after env s ?cl"
    unfolding logs_after_def
  proof
    assume new: "\<forall>n t. is_leader_in ?cl n t \<longrightarrow> l_lead s n = Some t \<or> t \<notin> l_led s"
    from lnode [OF sim st ch src] new lead obtain s' where "lstep\<^sup>*\<^sup>* s s'" "lsim env ?cl s'"
      "l_size s' \<le> Suc (l_size s)" "l_led s' \<subseteq> l_led s \<union> set_option (leads st')" by metis
    then show "\<exists>s'. lstep\<^sup>*\<^sup>* s s' \<and> lsim env ?cl s' \<and> l_size s' \<le> Suc (l_size s)
      \<and> l_led s' \<subseteq> l_led s \<union> {t. \<exists>n. is_leader_in ?cl n t}"
      using lead by (intro exI [of _ s']) (auto simp: elem_set)
  qed
  then show ?thesis by (simp add: finish_def Inr x)
qed

lemma wire_indexed:
  assumes ok: "logs_ok s" and src: "sourced (append_packets (l_wire s)) ev"
  shows "event_indexed ev"
  unfolding event_indexed_def
proof (intro allI impI)
  fix q tx assume "ev = RpcEvent (AppendEntries q) tx"
  with src have "q \<in> l_wire s" by (auto simp: append_packets_def)
  with ok obtain l where "copied (l_hist s) (l_size s) l" "segment l q" unfolding logs_ok_def by blast
  then show "indexed_from le_idx (unat (ae_prev_log_index q)) (ae_entries q)"
    by (intro segment_indexed) (simp_all add: copied_def)
qed

lemma logs_run_event:
  assumes before: "logs_before env s cl" and src: "sourced (append_packets (l_wire s)) ev"
  shows "logs_after env s (run_event env n ev cl)"
proof (cases "nodes cl n")
  case None
  with before logs_after_same show ?thesis by (auto simp: logs_before_def run_event_def)
next
  case (Some st)
  from before have sim: "lsim env cl s" and ok: "logs_ok s" and size: "l_size s < 2 ^ 64 - 2"
    by (simp_all add: logs_before_def)
  note d = lsimD [OF sim Some]
  have "copied (l_hist s) (l_size s) (l_log s n)" using ok by (simp add: logs_ok_def)
  then have bound: "unat (last_log_index (store (inner_of st))) < 2 ^ 64 - 2"
    using size by (simp add: copied_def d(2))
  note ix = wire_indexed [OF ok src]
  have "logs_after env s (finish n (worker_step env st ev) cl)"
    by (rule logs_finish [OF sim Some _ src]) (meson step_log [OF d(1) bound ix])
  then show ?thesis by (simp add: run_event_def Some)
qed

lemma logs_restart:
  assumes "logs_before env s cl"
  shows "logs_after env s (restart env n cl)"
proof (cases "nodes cl n")
  case None
  with assms logs_after_same show ?thesis by (auto simp: logs_before_def restart_def)
next
  case (Some st)
  let ?w = "inner_of st"
  let ?cl = "cl\<lparr>boots := (boots cl)(n := boots cl n + 1), applied := (applied cl)(n := [])\<rparr>"
  let ?r = "rbind (worker_new (node_id ?w) (inner_session_key ?w) (peers ?w) [] (storage (store ?w))) (to_follower env)"
  from assms have "lsim env cl s" by (simp add: logs_before_def)
  then have sim: "lsim env ?cl s" by (rule lsim_frame) simp_all
  have ok: "inner_ok env ?w" using lsimD(1) [OF \<open>lsim env cl s\<close> Some] .
  have "\<exists>ch. log_step env ch ?w (inner_of st') out \<and> change_allowed st TimerEvent (inner_of st') (role_of st') ch"
    if r: "?r = Inr (st', out)" for st' out
  proof -
    from r obtain w1
      where w1: "worker_new (node_id ?w) (inner_session_key ?w) (peers ?w) [] (storage (store ?w)) = Inr w1"
      and f: "to_follower env w1 = Inr (st', out)" by (auto simp: rbind_eq_Inr)
    from to_follower_quiet [OF f] obtain w' where q: "st' = RaftWorkerState.Follower w'" "quiet w1 w'" "all_local out"
      by auto
    have same: "store w1 = store ?w" "inner_session_key w1 = inner_session_key ?w"
      using worker_new_recovers [OF inner_ok_node [OF ok] w1] by simp_all
    then have "inner_ok env w1" using ok by (simp add: inner_ok_def)
    from quiet_log_step [OF this q(2,3)] have "log_step env SameLog ?w w' out" by (auto simp: log_step_def same(1))
    then show ?thesis using q(1) by (intro exI [of _ SameLog]) simp
  qed
  from logs_finish [OF sim _ this, of n] Some show ?thesis by (simp add: restart_def Let_def)
qed

lemma logs_forwarded:
  assumes "logs_before env s cl" and "forward_outcome res k = Inr out"
  shows "logs_after env s (foldl (emit n) cl out)"
proof (rule logs_after_same)
  have "sent out = {}" using assms(2) by (auto simp: forward_outcome_def split: sum.splits RpcResponse.splits)
  then have "set (net (foldl (emit n) cl out)) \<subseteq> set (net cl) \<union> append_packets {}"
    using emits_packets [of n cl out] by simp
  then show "lsim env (foldl (emit n) cl out) s"
    using assms(1) append_packets_mono [of "{}" "l_wire s"] by (auto simp: logs_before_def lsim_def)
qed

interpretation logs: preserved env "append_packets (l_wire s)" "logs_before env s" "logs_after env s"
  for env :: "'cmd env" and s
proof
  show "logs_before env s cl \<Longrightarrow> logs_after env s cl" for cl :: "'cmd cluster"
    by (rule logs_after_same) (simp add: logs_before_def)
  show "logs_before env s cl \<Longrightarrow> nodes cl' = nodes cl \<Longrightarrow> set (net cl') \<subseteq> set (net cl) \<Longrightarrow> logs_before env s cl'"
    for cl cl' :: "'cmd cluster"
    using lsim_frame by (auto simp: logs_before_def)
qed (use logs_run_event logs_restart logs_forwarded in blast)+

section \<open>Runs\<close>

text \<open>No action brings a node back that halted.\<close>

lemma nodes_finish: "nodes cl n \<noteq> None \<Longrightarrow> dom (nodes (finish n r cl)) \<subseteq> dom (nodes cl)"
  by (auto simp: finish_def set_node_def split: sum.splits if_splits)

interpretation running: preserved env UNIV "\<lambda>cl. dom (nodes cl) \<subseteq> D" "\<lambda>cl. dom (nodes cl) \<subseteq> D"
  for env :: "'cmd env" and D
proof
  show "dom (nodes (run_event env n ev cl)) \<subseteq> D" if "dom (nodes cl) \<subseteq> D" for n ev and cl :: "'cmd cluster"
    using that nodes_finish [of cl n "worker_step env st ev" for st]
    by (fastforce simp: run_event_def split: option.splits)
  show "dom (nodes (restart env n cl)) \<subseteq> D" if "dom (nodes cl) \<subseteq> D" for n and cl :: "'cmd cluster"
    using that nodes_finish [of "cl\<lparr>boots := (boots cl)(n := boots cl n + 1), applied := (applied cl)(n := [])\<rparr>" n r for r]
    by (fastforce simp: restart_def Let_def split: option.splits)
qed auto

lemma nodes_act: "nodes (act env cl a) n = Some st \<Longrightarrow> \<exists>st0. nodes cl n = Some st0"
  using running.step [of cl "dom (nodes cl)" env a] by auto

lemma led_before:
  assumes "elects ms b cl vs" and "v_role vs n = VLeader" and "v_term vs n = t" and "nodes cl n = Some st"
  shows "is_leader_in cl n t"
proof -
  from assms(1) have "sim ms cl vs" by (simp add: elects_def)
  from simD(2) [OF this assms(4)] assms(2,3) have "vrole_of (role_of st) = VLeader" "term_of (inner_of st) = t"
    by (simp_all add: node_rel_def Let_def)
  then show ?thesis using assms(4) by (cases st) (simp_all add: is_leader_in_def)
qed

lemma l_init_sim:
  assumes "codec_ok env"
  shows "lsim env (cluster_init env sk ms) l_init"
proof -
  have "inner_ok env (inner_of st) \<and> entries_of env (inner_of st) = [] \<and> leads st = None"
    if st: "first_start env sk ms n = Some st" for n st
  proof -
    from Storage_new_fresh [OF assms, of sk "\<lambda>_. None"] obtain s where s: "Storage_new sk (\<lambda>_. None) = Inr s"
      "storage_ok env s" "session_key s = sk" "abs_storage env s = \<lparr>p_term = 0, p_vote = None, p_log = []\<rparr>" by auto
    from st obtain w out where w: "worker_new n sk (remove1 n ms) [] (\<lambda>_. None) = Inr w"
      and f: "to_follower env w = Inr (st, out)"
      by (auto simp: first_start_def rbind_eq_Inr split: if_splits sum.splits)
    from w s(1) have e: "store w = s" "inner_session_key w = sk" by (auto simp: worker_new_def)
    from to_follower_quiet [OF f] obtain w' where q: "st = RaftWorkerState.Follower w'" "quiet w w'" by auto
    then have "store w' = s" "inner_session_key w' = sk" using e by (simp_all add: quiet_def same_node_def)
    with s(2,3) arg_cong [OF s(4), of p_log] q(1) show ?thesis by (simp add: inner_ok_def)
  qed
  then show ?thesis by (auto simp: lsim_def cluster_init_def l_init_def)
qed

text \<open>The cluster, the voting system and the system of logs, side by side.\<close>

definition replicates ::
  "'cmd env \<Rightarrow> NodeId list \<Rightarrow> nat \<Rightarrow> 'cmd cluster \<Rightarrow> (NodeId, u64) vsys \<Rightarrow> 'cmd lsys \<Rightarrow> bool" where
  "replicates env ms b cl vs s \<longleftrightarrow> elects ms b cl vs \<and> lsim env cl s \<and> logs_ok s \<and> l_size s \<le> b
     \<and> (\<forall>t \<in> l_led s. \<exists>n. (t, n) \<in> elected vs)"

lemma replicates_act:
  assumes rep: "replicates env ms b cl vs s" and ms: "distinct ms" and mem: "member_action ms a" and b: "b < 2 ^ 64 - 2"
  obtains vs' s' where "vstep (set ms) (majority (length ms)) vs vs'" and "lstep\<^sup>*\<^sup>* s s'"
    and "replicates env ms (Suc b) (act env cl a) vs' s'"
proof -
  from rep have el: "elects ms b cl vs" and sim: "lsim env cl s" and ok: "logs_ok s" and size: "l_size s \<le> b"
    and led: "\<And>t. t \<in> l_led s \<Longrightarrow> \<exists>n. (t, n) \<in> elected vs" by (simp_all add: replicates_def)
  from elects_act [OF el mem, of env] b obtain vs' where step: "vstep (set ms) (majority (length ms)) vs vs'"
    and el': "elects ms (Suc b) (act env cl a) vs'" by auto
  have mono: "elected vs \<subseteq> elected vs'" by (rule vstep_elected_mono [OF step])
  have one: "m = n" if "(t, m) \<in> elected vs'" "(t, n) \<in> elected vs'" for m n t
    using that el' one_leader_per_term [of ms vs' t m n] ms by (simp add: elects_def distinct_card)
  have new: "l_lead s n = Some t \<or> t \<notin> l_led s" if lead: "is_leader_in (act env cl a) n t" for n t
  proof (rule ccontr)
    assume c: "\<not> (l_lead s n = Some t \<or> t \<notin> l_led s)"
    note r = leader_role [OF el' lead]
    from c led obtain m where m: "(t, m) \<in> elected vs" by blast
    with one [of t m n] mono r(3) have mn: "(t, n) \<in> elected vs" by auto
    have "v_role vs n = VLeader \<and> v_term vs n = t"
      using vstep_new_leader [OF _ step r(1)] el r(2) mn by (auto simp: elects_def)
    moreover from lead obtain st where "nodes cl n = Some st"
      using nodes_act [of env cl a n] by (auto simp: is_leader_in_def split: option.splits)
    ultimately have "is_leader_in cl n t" using led_before [OF el] by blast
    with sim c show False
      by (auto simp: is_leader_in_def lsim_def split: option.splits RaftWorkerState.splits)
  qed
  have "logs_after env s (act env cl a)"
    by (rule logs.step) (use sim ok size b in \<open>auto simp: logs_before_def lsim_def\<close>)
  with new obtain s' where s': "lstep\<^sup>*\<^sup>* s s'" "lsim env (act env cl a) s'" "l_size s' \<le> Suc (l_size s)"
    "l_led s' \<subseteq> l_led s \<union> {t. \<exists>n. is_leader_in (act env cl a) n t}" unfolding logs_after_def by blast
  have "\<exists>n. (t, n) \<in> elected vs'" if "t \<in> l_led s'" for t
    using that s'(4) led mono leader_role(3) [OF el'] by blast
  with s' el' size lsteps_ok [OF s'(1) ok] that [OF step s'(1)] show ?thesis by (simp add: replicates_def)
qed

lemma run_replicates:
  assumes cod: "codec_ok env" and ms: "distinct ms" and mem: "list_all (member_action ms) as"
    and len: "length as < 2 ^ 64 - 2"
  shows "\<exists>vs s. replicates env ms (length as) (run env (cluster_init env sk ms) as) vs s \<and> lstep\<^sup>*\<^sup>* l_init s"
  using mem len
proof (induction as rule: rev_induct)
  case Nil
  have "replicates env ms 0 (cluster_init env sk ms) (v_init (\<lambda>_. 0) (\<lambda>_. None)) l_init"
    by (simp add: replicates_def elects_init [OF ms] l_init_sim [OF cod] l_init_ok) (simp add: l_init_def)
  then show ?case by (auto simp: run_def)
next
  case (snoc a as)
  then obtain vs s where rep: "replicates env ms (length as) (run env (cluster_init env sk ms) as) vs s"
    and reach: "lstep\<^sup>*\<^sup>* l_init s" by fastforce
  from snoc.prems have "member_action ms a" "length as < 2 ^ 64 - 2" by simp_all
  from replicates_act [OF rep ms this] obtain vs' s' where "lstep\<^sup>*\<^sup>* s s'"
    "replicates env ms (Suc (length as)) (act env (run env (cluster_init env sk ms) as) a) vs' s'" by blast
  with rtranclp_trans [OF reach] show ?case by (auto simp: run_snoc)
qed

text \<open>The log of a node of the cluster, and what holds of all of them.\<close>

definition log_at :: "'cmd env \<Rightarrow> 'cmd cluster \<Rightarrow> NodeId \<Rightarrow> 'cmd LogEntry list option" where
  "log_at env cl n = map_option (\<lambda>st. entries_of env (inner_of st)) (nodes cl n)"

lemma replicates_log:
  assumes "replicates env ms b cl vs s" and "log_at env cl n = Some l"
  shows "l_log s n = l" and "copied (l_hist s) (l_size s) l" and "length l \<le> b"
proof -
  from assms(2) obtain st where st: "nodes cl n = Some st" "l = entries_of env (inner_of st)"
    by (auto simp: log_at_def)
  from assms(1) have sim: "lsim env cl s" and ok: "logs_ok s" and b: "l_size s \<le> b"
    by (simp_all add: replicates_def)
  show l: "l_log s n = l" using lsimD(2) [OF sim st(1)] st(2) by simp
  have "copied (l_hist s) (l_size s) (l_log s n)" using ok by (simp add: logs_ok_def)
  then show c: "copied (l_hist s) (l_size s) l" by (simp only: l)
  then show "length l \<le> b" using b by (simp add: copied_def)
qed

end
