(* ===== verification/Commit.thy ===== *)
theory Commit
  imports Leader
begin

text \<open>
  How a leader commits: the indices it walks through, where it stops, and the clients it
  acknowledges. It also shows where the walk cannot start: at an entry of an older term.
\<close>

section \<open>The commit index\<close>

text \<open>An index that the leader may commit.\<close>

definition committable :: "'cmd env \<Rightarrow> Inner \<Rightarrow> LeaderState \<Rightarrow> LogIndex \<Rightarrow> bool" where
  "committable env w l n \<longleftrightarrow> quorum w - 1 \<le> agree l n \<and> le_term (entries_of env w ! (unat n - 1)) = term_of w"


lemma get_log_within:
  assumes "storage_ok env s" and "n \<noteq> 0" and "n \<le> last_log_index s"
  shows "get_log env s n = Inr (Some (log_of env s ! (unat n - 1)))"
  using get_log_spec [OF assms(1), of n] assms(2,3) by (simp add: log_nth_def word_le_nat_alt not_less)

lemma commit_loop_walk:
  assumes "storage_ok env (store w)" and "\<forall>n \<in> set ns. n \<noteq> 0 \<and> n \<le> last_log_index (store w)"
  shows "commit_loop env l w ns = Inr (
    let done = takeWhile (committable env w l) ns in if done = [] then w else w\<lparr>commit_index := last done\<rparr>)"
  using assms
proof (induction ns arbitrary: w)
  case (Cons n ns)
  have g: "get_log env (store w) n = Inr (Some (entries_of env w ! (unat n - 1)))"
    using Cons.prems by (intro get_log_within) simp_all
  show ?case
  proof (cases "committable env w l n")
    case True
    let ?w = "w\<lparr>commit_index := n\<rparr>"
    have "committable env ?w l = committable env w l" by (simp add: committable_def [abs_def] quorum_def)
    with Cons.IH [of ?w] Cons.prems True g show ?thesis
      by (auto simp: committable_def Let_def not_less)
  next
    case False
    with g show ?thesis by (auto simp: committable_def not_le)
  qed
qed simp

text \<open>The indices acknowledged are those just committed.\<close>

lemma range_incl_take:
  assumes "0 < k" and "k \<le> length (range_incl a b)"
  shows "take k (range_incl a b) = range_incl a (last (take k (range_incl a b)))"
proof -
  have len: "unat a + k \<le> Suc (unat b)" using assms by (simp add: range_incl_def split: if_splits)
  define j where "j = unat a + (k - 1)"
  have j: "unat a + k = Suc j" "unat a \<le> j" "j \<le> unat b" using assms(1) len by (auto simp: j_def)
  have t: "take k (range_incl a b) = map word_of_nat [unat a ..< Suc j]"
    using len by (simp add: range_incl_def take_map take_upt j(1) del: upt_Suc)
  then have "last (take k (range_incl a b)) = word_of_nat j" using j by simp
  moreover have "unat (word_of_nat j :: 'a word) = j" by (rule unat_of_nat_le [OF j(3)])
  ultimately show ?thesis unfolding t by (simp only: range_incl_def)
qed

lemma distinct_range_incl: "distinct (range_incl a b)"
proof -
  have "inj_on (word_of_nat :: nat \<Rightarrow> 'a word) {unat a ..< Suc (unat b)}"
    by (rule inj_on_inverseI [where g = unat]) (simp add: unat_of_nat_le [of _ b])
  then show ?thesis by (simp add: range_incl_def distinct_map del: upt_Suc)
qed

section \<open>The acknowledgements\<close>

definition acks :: "(LogIndex \<Rightarrow> reply_to option) \<Rightarrow> LogIndex list \<Rightarrow> 'cmd effect list" where
  "acks txs idxs = List.map_filter (\<lambda>i. map_option (\<lambda>tx. ClientReply tx (Inr Ack)) (txs i)) idxs"

definition ack_step :: "LeaderState \<times> 'cmd effect list \<Rightarrow> LogIndex \<Rightarrow> LeaderState \<times> 'cmd effect list" where
  "ack_step = (\<lambda>(l, out) idx. case map_of (in_flight_client_requests l) idx of
      Some tx \<Rightarrow> (l\<lparr>in_flight_client_requests := AList.delete idx (in_flight_client_requests l)\<rparr>,
                  out @ [ClientReply tx (Inr Ack)])
    | None \<Rightarrow> (l, out))"

lemma ack_requests_fold: "ack_requests l idxs = foldl ack_step (l, []) idxs"
  by (simp add: ack_requests_def ack_step_def)

lemma acks_cong: "(\<And>i. i \<in> set idxs \<Longrightarrow> f i = g i) \<Longrightarrow> acks f idxs = acks g idxs"
  by (induction idxs) (auto simp: acks_def List.map_filter_def)

lemma ack_fold:
  fixes out :: "'cmd effect list"
  assumes "distinct idxs"
  shows "\<exists>m. foldl ack_step (l, out) idxs = (l\<lparr>in_flight_client_requests := m\<rparr>,
      out @ acks (map_of (in_flight_client_requests l)) idxs)
    \<and> map_of m = map_of (in_flight_client_requests l) |` (- set idxs)"
  using assms
proof (induction idxs arbitrary: l out)
  case Nil
  show ?case by (intro exI [of _ "in_flight_client_requests l"]) (simp add: acks_def List.map_filter_def)
next
  case (Cons i idxs)
  let ?f = "map_of (in_flight_client_requests l)"
  have drop: "acks (?f(i := None)) idxs = (acks ?f idxs :: 'cmd effect list)"
    using Cons.prems by (intro acks_cong) auto
  show ?case
  proof (cases "?f i")
    case None
    with Cons.IH [of l out] Cons.prems show ?thesis
      by (fastforce simp: ack_step_def acks_def List.map_filter_def restrict_map_def)
  next
    case (Some tx)
    let ?l = "l\<lparr>in_flight_client_requests := AList.delete i (in_flight_client_requests l)\<rparr>"
    have "ack_step (l, out) i = (?l, out @ [ClientReply tx (Inr Ack)])" by (simp add: ack_step_def Some)
    moreover have "acks ?f (i # idxs) = ClientReply tx (Inr Ack) # (acks ?f idxs :: 'cmd effect list)"
      by (simp add: acks_def List.map_filter_def Some)
    moreover have "distinct idxs" using Cons.prems by simp
    from Cons.IH [OF this, of ?l "out @ [ClientReply tx (Inr Ack)]"] obtain m where
      m: "foldl ack_step (?l, out @ [ClientReply tx (Inr Ack)]) idxs = (?l\<lparr>in_flight_client_requests := m\<rparr>,
        (out @ [ClientReply tx (Inr Ack)]) @ acks (map_of (in_flight_client_requests ?l)) idxs)"
      "map_of m = map_of (in_flight_client_requests ?l) |` (- set idxs)" by blast
    moreover have f: "map_of (in_flight_client_requests ?l) = ?f(i := None)" by simp
    ultimately have "foldl ack_step (l, out) (i # idxs) = (l\<lparr>in_flight_client_requests := m\<rparr>, out @ acks ?f (i # idxs))"
      unfolding f drop by simp
    moreover have "map_of m = ?f |` (- set (i # idxs))" unfolding m(2) f by (auto simp: restrict_map_def)
    ultimately show ?thesis by blast
  qed
qed

lemma advance_commit_spec:
  fixes env :: "'cmd env" and w :: Inner and l :: LeaderState
  assumes ok: "storage_ok env (store w)" and max: "commit_index w \<noteq> - 1"
  defines "done \<equiv> takeWhile (committable env w l) (range_incl (commit_index w + 1) (last_log_index (store w)))"
  shows "\<exists>m. advance_commit_index env w l =
      Inr (if done = [] then w else w\<lparr>commit_index := last done\<rparr>, l\<lparr>in_flight_client_requests := m\<rparr>,
        acks (map_of (in_flight_client_requests l)) done)
    \<and> map_of m = map_of (in_flight_client_requests l) |` (- set done)"
proof -
  let ?is = "range_incl (commit_index w + 1) (last_log_index (store w))"
  have nz: "commit_index w + 1 \<noteq> 0" using word_less_plus_one [OF max] by auto
  have mem: "n \<noteq> 0 \<and> n \<le> last_log_index (store w)" if "n \<in> set ?is" for n
  proof -
    from that have "commit_index w + 1 \<le> n" "n \<le> last_log_index (store w)" by (auto simp: set_range_incl)
    with nz show ?thesis by auto
  qed
  let ?w = "if done = [] then w else w\<lparr>commit_index := last done\<rparr>"
  have loop: "commit_loop env l w ?is = Inr ?w"
    using commit_loop_walk [OF ok, of ?is l] mem by (simp add: done_def Let_def)
  have r: "range_incl (commit_index w + 1) (commit_index ?w) = done"
  proof (cases "done = []")
    case True
    have "commit_index w < commit_index w + 1" by (rule word_less_plus_one [OF max])
    with True show ?thesis by (simp add: range_incl_empty)
  next
    case False
    obtain k where k: "done = take k ?is" "k \<le> length ?is"
      unfolding done_def by (metis takeWhile_eq_take length_takeWhile_le)
    with False have "0 < k" by (cases k) auto
    from range_incl_take [OF this k(2)] k(1) False show ?thesis by simp
  qed
  have "distinct done" unfolding done_def by (simp add: distinct_takeWhile distinct_range_incl)
  from ack_fold [OF this, of l "[] :: 'cmd effect list"] obtain m where
    "ack_requests l done = (l\<lparr>in_flight_client_requests := m\<rparr>,
      acks (map_of (in_flight_client_requests l)) done :: 'cmd effect list)"
    "map_of m = map_of (in_flight_client_requests l) |` (- set done)" by (auto simp: ack_requests_fold)
  then show ?thesis by (intro exI [of _ m]) (simp add: advance_commit_index_def Let_def loop r)
qed

text \<open>
  Nothing is committed while the next entry is of an older term, whatever the followers have: the
  walk stops there instead of looking further for an entry of the leader's own term.
\<close>

lemma commit_blocked:
  assumes "storage_ok env (store w)" and "commit_index w \<noteq> - 1"
    and "commit_index w < last_log_index (store w)"
    and "le_term (entries_of env w ! unat (commit_index w)) \<noteq> term_of w"
  shows "\<exists>m. advance_commit_index env w l = Inr (w, l\<lparr>in_flight_client_requests := m\<rparr>, [])
    \<and> map_of m = map_of (in_flight_client_requests l)"
proof -
  have u: "unat (commit_index w + 1) = Suc (unat (commit_index w))" by (rule unat_plus_one [OF assms(2)])
  have "commit_index w + 1 \<le> last_log_index (store w)"
    using assms(3) u by (simp add: word_le_nat_alt word_less_nat_alt)
  then have "range_incl (commit_index w + 1) (last_log_index (store w)) =
      (commit_index w + 1) # (if commit_index w + 1 = last_log_index (store w) then []
        else range_incl (commit_index w + 1 + 1) (last_log_index (store w)))"
    by (rule range_incl_Cons)
  then have "takeWhile (committable env w l) (range_incl (commit_index w + 1) (last_log_index (store w))) = []"
    using assms(4) u by (simp add: committable_def)
  with advance_commit_spec [OF assms(1,2), of l] show ?thesis by (simp add: acks_def List.map_filter_def restrict_map_def)
qed

end
