(* ===== verification/CommitBound.thy ===== *)
theory CommitBound
  imports LogMatching Commit
begin

text \<open>
  What every running node has committed is in its log, and each index is handed to the state
  machine once: theory Steps splits a step into a handler, which applies nothing and commits only
  what its log holds, and a wait, which applies everything committed.
\<close>

section \<open>Indices within the log\<close>

definition commits_ok :: "Inner \<Rightarrow> bool" where
  "commits_ok w \<longleftrightarrow> commit_index w \<le> last_log_index (store w) \<and> last_applied w \<le> last_log_index (store w)"

text \<open>A request without entries carries a commit index that the log before it reaches.\<close>

definition commit_carried :: "'cmd AppendEntriesRequest \<Rightarrow> bool" where
  "commit_carried q \<longleftrightarrow> (ae_entries q = [] \<longrightarrow> ae_leader_commit q \<le> ae_prev_log_index q)"

text \<open>
  The effects of a handler: nothing for the state machine, and such requests only, where the task of
  the call knows the last index that the request reaches.
\<close>

fun clean_effect :: "'cmd effect \<Rightarrow> bool" where
  "clean_effect (CallAppend p i j q) =
     (commit_carried q \<and> unat j = unat (ae_prev_log_index q) + length (ae_entries q))"
| "clean_effect (ApplyCmd c) = False"
| "clean_effect _ = True"

abbreviation clean :: "'cmd effect list \<Rightarrow> bool" where
  "clean \<equiv> list_all clean_effect"

definition kept :: "Inner \<Rightarrow> Inner \<Rightarrow> 'cmd effect list \<Rightarrow> bool" where
  "kept w w' out \<longleftrightarrow> commits_ok w' \<and> last_applied w' = last_applied w \<and> clean out"

lemma kept_same: "commits_ok w \<Longrightarrow> clean out \<Longrightarrow> kept w w out"
  by (simp add: kept_def)

text \<open>A handler that leaves the indices alone, and a log that does not shrink.\<close>

definition log_kept :: "Inner \<Rightarrow> Inner \<Rightarrow> bool" where
  "log_kept w w' \<longleftrightarrow> commit_index w' = commit_index w \<and> last_applied w' = last_applied w \<and>
     last_log_index (store w) \<le> last_log_index (store w')"

lemma keptI: "log_kept w w' \<Longrightarrow> commits_ok w \<Longrightarrow> clean out \<Longrightarrow> kept w w' out"
  by (auto simp: log_kept_def kept_def commits_ok_def)

lemma log_kept_commits: "log_kept w w' \<Longrightarrow> commits_ok w \<Longrightarrow> commits_ok w'"
  by (auto simp: log_kept_def commits_ok_def)

section \<open>What a leader sends\<close>

lemma indexed_last: "indexed_from idx p es \<Longrightarrow> es \<noteq> [] \<Longrightarrow> unat (idx (last es)) = p + length es"
  by (induction es arbitrary: p) auto

definition room :: "Inner \<Rightarrow> nat \<Rightarrow> bool" where
  "room w k \<longleftrightarrow> unat (last_log_index (store w)) + k < 2 ^ 64"

lemma room_max: "room w k \<Longrightarrow> 0 < k \<Longrightarrow> last_log_index (store w) \<noteq> - 1"
  by (auto simp: room_def unat_minus_1)

lemma append_entries_clean:
  assumes ok: "storage_ok env (store w)" and room: "room w 101" and c: "commit_index w \<le> last_log_index (store w)"
    and h: "append_entries env w l p = Inr (l', out)"
  shows "clean out"
proof (cases "out = []")
  case False
  from append_entries_call [OF ok room_max [OF room] h False] obtain i j q nxt where out: "out = [CallAppend p i j q]"
    and nz: "nxt \<noteq> 0" and q: "ae_prev_log_index q = nxt - 1" "unat nxt - 1 \<le> length (entries_of env w)"
      "ae_entries q = drop (unat nxt - 1) (take (unat (nxt + MAX_BATCH_SIZE) - 1) (entries_of env w))"
      "ae_leader_commit q = commit_index w"
      "j = (if ae_entries q = [] then last_log_index (store w) else le_idx (last (ae_entries q)))"
    by (metis zero_less_numeral)
  have u: "unat (nxt - 1) = unat nxt - 1" using nz by (rule unat_minus_one_nz)
  have n: "unat nxt + 100 < 2 ^ 64" using q(2) room by (simp add: room_def)
  then have "unat (nxt + MAX_BATCH_SIZE) = unat nxt + 100"
    by (subst unat_add_lem [THEN iffD1]) (simp_all add: MAX_BATCH_SIZE_def)
  moreover have "0 < unat nxt" using nz by (simp add: unat_gt_0)
  ultimately have e: "ae_entries q = [] \<Longrightarrow> unat (last_log_index (store w)) \<le> unat (ae_prev_log_index q)"
    by (auto simp: q(1,3) u min_def split: if_splits)
  then have "commit_carried q"
    using c by (auto simp: commit_carried_def word_le_nat_alt q(4))
  moreover have "unat j = unat (ae_prev_log_index q) + length (ae_entries q)"
  proof (cases "ae_entries q = []")
    case True
    with e q(1,2,5) u show ?thesis by simp
  next
    case False
    have "calls_ok (entries_of env w) out" by (rule append_entries_segment [OF ok room_max [OF room] h]) simp
    then have "segment (entries_of env w) q" by (simp add: out)
    from indexed_last [OF segment_indexed [OF storage_well_indexed [OF ok] this] False] False q(5) show ?thesis by simp
  qed
  ultimately show ?thesis by (simp add: out)
qed simp

lemma append_entries_all_clean:
  assumes "storage_ok env (store w)" and "room w 101" and "commit_index w \<le> last_log_index (store w)"
  shows "append_entries_all env w l ps = Inr (l', out) \<Longrightarrow> clean out"
  by (induction ps arbitrary: l l' out)
    (auto simp: rbind_eq_Inr dest: append_entries_clean [OF assms] split: prod.splits)


section \<open>The handlers\<close>

lemma put_entry_keeps:
  assumes "put_entry env s e = Inr s'" and "le_idx e \<noteq> 0"
  shows "last_log_index s \<le> last_log_index s'"
proof -
  have grow: "last_log_index t' = le_idx e" "last_log_index t + 1 = le_idx e" if "append_log env t e = Inr t'" for t t'
    using that by (auto simp: append_log_def increment_last_log_index_def set_last_log_index_def Let_def
        rbind_eq_Inr rassert_eq_Inr set_persistent_eq_Inr)
  from assms(1) consider "s' = s" | "append_log env s e = Inr s'" | "overwrite_log env s e = Inr s'"
    by (auto simp: put_entry_def rbind_eq_Inr split: option.splits if_splits)
  then show ?thesis
  proof cases
    case 2
    have "last_log_index s \<noteq> - 1" using grow(2) [OF 2] assms(2) by auto
    from word_less_plus_one [OF this] grow [OF 2] show ?thesis by simp
  next
    case 3
    then obtain t where "last_log_index s \<le> le_idx e" "append_log env t e = Inr s'"
      by (auto simp: overwrite_log_def rbind_eq_Inr rassert_eq_Inr)
    with grow(1) show ?thesis by simp
  qed simp
qed

lemma indexed_nz: "indexed_from idx p es \<Longrightarrow> e \<in> set es \<Longrightarrow> idx e \<noteq> 0"
  by (induction es arbitrary: p) auto

lemma raft_merge_reaches: "p \<le> length l \<Longrightarrow> p + length es \<le> length (raft_merge tm l p es)"
proof (induction es arbitrary: p)
  case (Cons e es)
  then show ?case using Cons.IH [of "Suc p"] by auto
qed simp

text \<open>
  The append-entries handler takes over the leader's commit index as far as its request reaches,
  so it never commits past the end of its log.
\<close>

lemma handle_append_entries_kept:
  assumes ok: "inner_ok env w" and h: "handle_append_entries env w req = Inr (w', resp)"
    and ix: "indexed_from le_idx (unat (ae_prev_log_index req)) (ae_entries req)"
    and c: "commits_ok w" and q: "commit_carried req"
  shows "commits_ok w' \<and> last_applied w' = last_applied w"
proof (cases "aer_success resp")
  case False
  with handle_append_entries_spec [OF ok h ix] c show ?thesis by simp
next
  case True
  note sp = handle_append_entries_spec [OF ok h ix]
  from sp True have m: "prev_matches (entries_of env w) (ae_prev_log_index req) (ae_prev_log_term req)"
    and l: "entries_of env w' = raft_merge le_term (entries_of env w) (unat (ae_prev_log_index req)) (ae_entries req)"
    and ci: "commit_index w' = (if commit_index w < ae_leader_commit req
               then if ae_entries req = [] then ae_leader_commit req
                    else min (ae_leader_commit req) (le_idx (last (ae_entries req)))
               else commit_index w)" by simp_all
  note p = prev_matches_length [OF m]
  have "unat (ae_prev_log_index req) + length (ae_entries req) \<le> unat (last_log_index (store w'))"
    using raft_merge_reaches [OF p, of "ae_entries req" le_term] arg_cong [OF l, of length] by simp
  then have reach: "ae_entries req = [] \<Longrightarrow> ae_prev_log_index req \<le> last_log_index (store w')"
    "ae_entries req \<noteq> [] \<Longrightarrow> le_idx (last (ae_entries req)) \<le> last_log_index (store w')"
    using indexed_last [OF ix] by (simp_all add: word_le_nat_alt)
  from h True obtain s where s: "rfold (put_entry env) (store w) (ae_entries req) = Inr s"
    and w': "store w' = s" "last_applied w' = last_applied w"
    by (auto simp: handle_append_entries_def Let_def rbind_eq_Inr split: if_splits)
  have "last_log_index (store w) \<le> last_log_index s"
    by (rule rfold_invariant [OF s, where P = "\<lambda>t. last_log_index (store w) \<le> last_log_index t"])
      (use put_entry_keeps indexed_nz [OF ix] order_trans in \<open>blast+\<close>)
  with reach c q w' show ?thesis
    by (auto simp: commits_ok_def commit_carried_def ci min_le_iff_disj split: if_splits)
qed

lemma update_term_log_kept:
  assumes "inner_ok env w" and "update_term env (store w) t = Inr (s, b)"
  shows "log_kept w (w\<lparr>store := s\<rparr>)" and "log_kept w (w\<lparr>store := s, leader_id := l\<rparr>)"
  using update_term_inner(4) [OF assms] by (simp_all add: log_kept_def)

lemma rpc_votes_kept:
  assumes "inner_ok env w" and "update_term env (store w) t = Inr (s, b)"
    and "handle_request_vote env (w\<lparr>store := s\<rparr>) req = Inr (w', resp)" and "commits_ok w"
  shows "kept w w' [RpcReply tx (RequestVoteR resp)]"
  using handle_request_vote_spec(5,6,7) [OF update_term_inner(3) [OF assms(1,2)] assms(3)]
    update_term_inner(4) [OF assms(1,2)] assms(4) by (intro keptI) (simp_all add: log_kept_def)

lemma rpc_appends_kept:
  assumes "inner_ok env w" and "update_term env (store w) t = Inr (s, b)"
    and "handle_append_entries env (w\<lparr>store := s, leader_id := l\<rparr>) q = Inr (w', resp)"
    and "event_indexed (RpcEvent (AppendEntries q) tx)" and "commit_carried q" and "commits_ok w"
    and "clean out"
  shows "kept w w' out"
proof -
  have "commits_ok (w\<lparr>store := s, leader_id := l\<rparr>)"
    using log_kept_commits [OF update_term_log_kept(2) [OF assms(1,2)] assms(6)] .
  from handle_append_entries_kept [OF update_term_inner(1) [OF assms(1,2)] assms(3) _ this assms(5)] assms(4,7)
  show ?thesis by (simp add: event_indexed_def kept_def)
qed

lemma candidate_start_kept:
  assumes "candidate_start env w = Inr (w', v, out)" and "inner_ok env w" and "commits_ok w"
  shows "kept w w' out"
proof -
  from assms(1) obtain s s' calls where "increment_term env (store w) = Inr s"
    and "set_voted_for env s (Some (node_id w)) = Inr s'" and w': "w' = w\<lparr>store := s'\<rparr>"
    and c: "request_votes env w' = Inr calls" and out: "out = calls @ [ResetElectionTimeout]"
    by (auto simp: candidate_start_def vote_for_self_def rbind_eq_Inr)
  have "clean calls" using c by (auto simp: request_votes_def Let_def rbind_eq_Inr list_all_iff split: if_splits)
  moreover have "log_kept w w'"
    using candidate_start_meta [OF inner_ok_node [OF assms(2)] assms(1)] by (simp add: log_kept_def w')
  ultimately show ?thesis using assms(3) out by (intro keptI) simp_all
qed

lemma handle_debug_clean: "clean (handle_debug d w tx)"
  by (simp add: handle_debug_def)

lemma handle_client_request_kept:
  assumes ok: "inner_ok env w" and room: "room w 102" and c: "commits_ok w"
    and h: "handle_client_request env w l req tx = Inr (w', l', out)"
  shows "kept w w' out"
proof (cases req)
  case (Apply cmd)
  define e where "e = \<lparr>le_cmd = cmd, le_term = term_of w, le_idx = last_log_index (store w) + 1\<rparr>"
  from h Apply obtain s l1 o1 where s: "append_log env (store w) e = Inr s" and w': "w' = w\<lparr>store := s\<rparr>"
    and a: "append_entries_all env w' l1 (peers w') = Inr (l', o1)" and out: "out = o1 @ [ResetHeartbeat]"
    by (auto simp: handle_client_request_def handle_log_update_def e_def Let_def rbind_eq_Inr)
  have n: "last_log_index (store w) \<noteq> - 1" using room by (rule room_max) simp
  have ix: "unat (le_idx e) = Suc (unat (last_log_index (store w)))" by (simp add: e_def unat_plus_one [OF n])
  have "storage_ok env (store w)" using ok by (simp add: inner_ok_def)
  note sp = append_log_spec [OF this s, unfolded length_log_of, OF ix]
  have g: "log_kept w w'" using sp(3) word_less_plus_one [OF n] by (simp add: log_kept_def w' e_def)
  have "clean o1"
    by (rule append_entries_all_clean [OF _ _ _ a])
      (use sp(1,3) ix room log_kept_commits [OF g c] in \<open>simp_all add: w' room_def commits_ok_def\<close>)
  with keptI [OF g c, of out] out show ?thesis by simp
qed (use h c in \<open>auto simp: handle_client_request_def kept_def handle_debug_clean\<close>)

lemma handle_append_entries_response_kept:
  assumes ok: "inner_ok env w" and room: "room w 102" and c: "commits_ok w"
    and h: "handle_append_entries_response env w l p i j res = Inr (w', l', out, ch)"
  shows "kept w w' out"
proof (cases "out = [] \<and> w' = w")
  case False
  then obtain resp where res: "res = Inr (AppendEntriesR resp)"
    using h by (auto simp: handle_append_entries_response_def Let_def split: sum.splits RpcResponse.splits)
  with h obtain s b where u: "update_term env (store w) (aer_term resp) = Inr (s, b)"
    by (auto simp: handle_append_entries_response_def Let_def rbind_eq_Inr)
  note n = update_term_inner [OF ok u] and g = update_term_log_kept(1) [OF ok u]
  have w': "w' = w\<lparr>store := s\<rparr>" and
    a: "out = [] \<or> (\<exists>l1 l2. append_entries env w' l1 p = Inr (l2, out))"
    using h res u by (auto simp: handle_append_entries_response_def Let_def rbind_eq_Inr split: if_splits option.splits)
  have "storage_ok env (store w')" "room w' 101" "commit_index w' \<le> last_log_index (store w')"
    using n(3,4) room log_kept_commits [OF g c] by (simp_all add: w' inner_ok_def room_def commits_ok_def)
  from append_entries_clean [OF this] a have "clean out" by auto
  with keptI [OF g c, of out] w' show ?thesis by simp
qed (use c in \<open>simp add: kept_same\<close>)


text \<open>The RPCs, on each role.\<close>

definition carried :: "'cmd event \<Rightarrow> bool" where
  "carried ev \<longleftrightarrow> event_indexed ev \<and> (\<forall>q tx. ev = RpcEvent (AppendEntries q) tx \<longrightarrow> commit_carried q)"

lemma carriedD: "carried (RpcEvent (AppendEntries q) tx) \<Longrightarrow> event_indexed (RpcEvent (AppendEntries q) tx) \<and> commit_carried q"
  by (simp add: carried_def)

lemma follower_rpc_kept:
  assumes ok: "inner_ok env w" and c: "commits_ok w" and ev: "carried (RpcEvent rpc tx)"
    and h: "follower_handle_rpc env w rpc tx = Inr (w', out)"
  shows "kept w w' out"
proof (cases rpc)
  case (AppendEntries q)
  with h obtain s b resp where u: "update_term env (store w) (ae_term q) = Inr (s, b)"
    "handle_append_entries env (w\<lparr>store := s, leader_id := Some (ae_leader_id q)\<rparr>) q = Inr (w', resp)"
    and out: "out = [RpcReply tx (AppendEntriesR resp), ResetElectionTimeout]"
    by (auto simp: follower_handle_rpc_def rbind_eq_Inr)
  from carriedD [OF ev [unfolded AppendEntries]] rpc_appends_kept [OF ok u _ _ c, of tx out] out show ?thesis by simp
next
  case (RequestVote q)
  with h obtain s b resp where u: "update_term env (store w) (rv_term q) = Inr (s, b)"
    "handle_request_vote env (w\<lparr>store := s\<rparr>) q = Inr (w', resp)" and out: "out = [RpcReply tx (RequestVoteR resp)]"
    by (auto simp: follower_handle_rpc_def rbind_eq_Inr)
  show ?thesis unfolding out by (rule rpc_votes_kept [OF ok u c])
qed (use h c in \<open>auto simp: follower_handle_rpc_def kept_def\<close>)

lemma candidate_rpc_kept:
  assumes ok: "inner_ok env w" and c: "commits_ok w" and ev: "carried (RpcEvent rpc tx)"
    and h: "candidate_handle_rpc env w rpc tx = Inr (w', out, ch)"
  shows "kept w w' out"
proof (cases rpc)
  case (AppendEntries q)
  with h obtain s b resp where u: "update_term env (store w) (ae_term q) = Inr (s, b)"
    "handle_append_entries env (w\<lparr>store := s, leader_id := leader_id w\<rparr>) q = Inr (w', resp)"
    and out: "out = [RpcReply tx (AppendEntriesR resp)]"
    by (auto simp: candidate_handle_rpc_def rbind_eq_Inr)
  from carriedD [OF ev [unfolded AppendEntries]] rpc_appends_kept [OF ok u _ _ c, of tx out] out show ?thesis by simp
next
  case (RequestVote q)
  with h obtain s b resp where u: "update_term env (store w) (rv_term q) = Inr (s, b)"
    "handle_request_vote env (w\<lparr>store := s\<rparr>) q = Inr (w', resp)" and out: "out = [RpcReply tx (RequestVoteR resp)]"
    by (auto simp: candidate_handle_rpc_def rbind_eq_Inr)
  show ?thesis unfolding out by (rule rpc_votes_kept [OF ok u c])
qed (use h c in \<open>auto simp: candidate_handle_rpc_def kept_def\<close>)

lemma leader_rpc_kept:
  assumes ok: "inner_ok env w" and room: "room w 102" and c: "commits_ok w" and ev: "carried (RpcEvent rpc tx)"
    and h: "leader_handle_rpc env w l rpc tx = Inr (w', l', out, ch)"
  shows "kept w w' out"
proof (cases rpc)
  case (AppendEntries q)
  with h obtain s b where u: "update_term env (store w) (ae_term q) = Inr (s, b)"
    by (auto simp: leader_handle_rpc_def Let_def rbind_eq_Inr)
  show ?thesis
  proof (cases b)
    case True
    with h u AppendEntries obtain resp where
      r: "handle_append_entries env (w\<lparr>store := s, leader_id := leader_id w\<rparr>) q = Inr (w', resp)"
      and out: "out = [RpcReply tx (AppendEntriesR resp)]"
      by (auto simp: leader_handle_rpc_def Let_def rbind_eq_Inr)
    from carriedD [OF ev [unfolded AppendEntries]] rpc_appends_kept [OF ok u r _ _ c, of tx out] out show ?thesis by simp
  next
    case False
    with h u AppendEntries keptI [OF update_term_log_kept(1) [OF ok u] c, of out] show ?thesis
      by (auto simp: leader_handle_rpc_def Let_def)
  qed
next
  case (RequestVote q)
  with h obtain s b where u: "update_term env (store w) (rv_term q) = Inr (s, b)"
    by (auto simp: leader_handle_rpc_def Let_def rbind_eq_Inr)
  show ?thesis
  proof (cases b)
    case True
    with h u RequestVote obtain resp where r: "handle_request_vote env (w\<lparr>store := s\<rparr>) q = Inr (w', resp)"
      and out: "out = [RpcReply tx (RequestVoteR resp)]"
      by (auto simp: leader_handle_rpc_def Let_def rbind_eq_Inr)
    show ?thesis unfolding out by (rule rpc_votes_kept [OF ok u r c])
  next
    case False
    with h u RequestVote keptI [OF update_term_log_kept(1) [OF ok u] c, of out] show ?thesis
      by (auto simp: leader_handle_rpc_def Let_def)
  qed
next
  case (ForwardClientRequest req)
  with h have "handle_client_request env w l req (RelayTx tx) = Inr (w', l', out)"
    by (auto simp: leader_handle_rpc_def Let_def rbind_eq_Inr)
  with handle_client_request_kept [OF ok room c] show ?thesis .
qed

lemma handled_kept:
  assumes ok: "inner_ok env (inner_of st)" and room: "room (inner_of st) 102" and c: "commits_ok (inner_of st)"
    and ev: "carried ev" and h: "handled env st ev w out r"
  shows "kept (inner_of st) w out"
  using h
proof cases
  case (follower_rpc w0 rpc tx)
  with follower_rpc_kept [OF _ _ ev [unfolded follower_rpc(2)]] ok c show ?thesis by simp
next
  case (follower_client req tx)
  with c show ?thesis by (auto simp: kept_def follower_handle_client_def handle_debug_def
      forward_client_request_def split: ClientRequest.splits option.splits)
next
  case (follower_timeout w0 v)
  have "inner_ok env (w0\<lparr>leader_id := None\<rparr>)" "commits_ok (w0\<lparr>leader_id := None\<rparr>)"
    using ok c follower_timeout(1) by (simp_all add: inner_ok_def commits_ok_def)
  from candidate_start_kept [OF follower_timeout(4) this] follower_timeout(1) show ?thesis by (simp add: kept_def)
next
  case (candidate_rpc w0 rpc tx ch v)
  with candidate_rpc_kept [OF _ _ ev [unfolded candidate_rpc(2)]] ok c show ?thesis by simp
next
  case (candidate_client v req tx)
  with c show ?thesis by (auto simp: kept_def candidate_handle_client_def handle_debug_def split: ClientRequest.splits)
next
  case (candidate_timeout w0 v' v)
  with candidate_start_kept ok c show ?thesis by simp
next
  case (leader_rpc w0 l rpc tx l' ch)
  with leader_rpc_kept [OF _ _ _ ev [unfolded leader_rpc(2)]] ok room c show ?thesis by simp
next
  case (leader_response w0 l p i j res l' ch)
  with handle_append_entries_response_kept ok room c show ?thesis by simp
next
  case (leader_client w0 l req tx l')
  with handle_client_request_kept ok room c show ?thesis by simp
next
  case (leader_timer l l')
  then obtain o1 where a: "append_entries_all env w l (peers w) = Inr (l', o1)" "out = o1 @ [ResetHeartbeat]"
    by (auto simp: leader_heartbeat_def rbind_eq_Inr)
  have "clean o1"
    by (rule append_entries_all_clean [OF _ _ _ a(1)])
      (use ok room c leader_timer(1) in \<open>simp_all add: inner_ok_def room_def commits_ok_def\<close>)
  with c a(2) leader_timer(1) show ?thesis by (simp add: kept_def)
qed (use c in \<open>auto simp: kept_def handle_new_peer_def connection_lost_def commits_ok_def\<close>)


section \<open>The waits\<close>

definition handed :: "'cmd effect list \<Rightarrow> 'cmd list" where
  "handed out = List.map_filter (\<lambda>e. case e of ApplyCmd c \<Rightarrow> Some c | _ \<Rightarrow> None) out"

lemma handed_append [simp]: "handed (out @ out') = handed out @ handed out'"
  by (simp add: handed_def List.map_filter_def)

lemma handed_Nil [simp]: "handed [] = []"
  by (simp add: handed_def List.map_filter_def)

lemma handed_applied [simp]: "handed (map (\<lambda>e. ApplyCmd (le_cmd e)) es) = map le_cmd es"
  by (induction es) (simp_all add: handed_def List.map_filter_def)

lemma handed_clean: "clean out \<Longrightarrow> handed out = []"
  by (induction out) (auto simp: handed_def List.map_filter_def split: effect.splits)

text \<open>
  After a wait everything committed is applied, and the commands handed over are those of the
  entries after the index applied before.
\<close>

definition applies :: "'cmd env \<Rightarrow> Inner \<Rightarrow> Inner \<Rightarrow> 'cmd effect list \<Rightarrow> bool" where
  "applies env w w' out \<longleftrightarrow> commits_ok w' \<and> commit_index w' \<le> last_applied w' \<and> last_applied w \<le> last_applied w' \<and>
     last_applied w' \<le> max (last_applied w) (commit_index w') \<and>
     handed out = map le_cmd (drop (unat (last_applied w)) (take (unat (last_applied w')) (entries_of env w')))"

lemma apply_log_applies:
  assumes ok: "inner_ok env w" and c: "commits_ok w" and max: "last_applied w \<noteq> - 1"
    and h: "apply_log env w = Inr (w', out)"
  shows "applies env w w' out"
proof -
  note sp = apply_log_spec [OF ok max]
  have m: "min (commit_index w) (last_log_index (store w)) = commit_index w" using c by (simp add: commits_ok_def)
  show ?thesis
  proof (cases "last_applied w < commit_index w")
    case True
    with sp h c show ?thesis by (auto simp: applies_def m commits_ok_def)
  next
    case False
    then have "unat (commit_index w) \<le> unat (last_applied w)" by (simp add: word_le_nat_alt not_less)
    with sp h c False show ?thesis by (auto simp: applies_def m commits_ok_def)
  qed
qed

lemma handed_acks: "handed (acks txs idxs) = []"
  by (rule handed_clean) (auto simp: acks_def List.map_filter_def list_all_iff)

lemma leader_wait_applies:
  assumes ok: "inner_ok env w" and c: "commits_ok w" and max: "last_applied w \<noteq> - 1"
    and ci: "commit_index w \<noteq> - 1" and h: "leader_wait env w l = Inr (st', out)"
  shows "applies env w (inner_of st') out"
proof -
  let ?done = "takeWhile (committable env w l) (range_incl (commit_index w + 1) (last_log_index (store w)))"
  let ?w = "if ?done = [] then w else w\<lparr>commit_index := last ?done\<rparr>"
  have st: "storage_ok env (store w)" using ok by (simp add: inner_ok_def)
  from advance_commit_spec [OF st ci, of l] h obtain l1 w' o2 where
    a: "apply_log env ?w = Inr (w', o2)" and st': "inner_of st' = w'"
    and out: "out = acks (map_of (in_flight_client_requests l)) ?done @ o2"
    by (auto simp: leader_wait_def rbind_eq_Inr)
  have "last ?done \<le> last_log_index (store w)" if "?done \<noteq> []"
    using last_in_set [OF that] by (auto simp: set_range_incl dest: set_takeWhileD)
  then have "commits_ok ?w" using c by (auto simp: commits_ok_def)
  moreover have "inner_ok env ?w" using ok by (simp add: inner_ok_def)
  ultimately have "applies env ?w w' o2" using max a by (intro apply_log_applies) simp_all
  then show ?thesis by (simp add: st' out applies_def handed_acks split: if_splits)
qed

lemma waits_applies:
  assumes "waits env w r (Inr (st', out))" and ok: "inner_ok env w" and c: "commits_ok w"
    and max: "last_applied w \<noteq> - 1" and ci: "r = LeaderRole \<Longrightarrow> commit_index w \<noteq> - 1"
  shows "applies env w (inner_of st') out"
  using assms(1)
proof cases
  case follower
  then show ?thesis using apply_log_applies [OF ok c max]
    by (auto simp: follower_wait_def rbind_eq_Inr eq_commute [of "Inr (st', out)"])
next
  case falls_back
  then show ?thesis using apply_log_applies [OF ok c max]
    by (auto simp: to_follower_def after_eq_Inr follower_wait_def rbind_eq_Inr eq_commute [of "Inr (st', out)"]
        applies_def handed_def List.map_filter_def)
next
  case (candidate v)
  then show ?thesis using apply_log_applies [OF ok c max]
    by (auto simp: candidate_wait_def rbind_eq_Inr eq_commute [of "Inr (st', out)"])
next
  case (leader l)
  with leader_wait_applies [OF ok c max] ci show ?thesis by simp
next
  case takes_over
  let ?w = "w\<lparr>leader_id := Some (node_id w)\<rparr>"
  have "inner_ok env ?w" "commits_ok ?w" "last_applied ?w \<noteq> - 1" "commit_index ?w \<noteq> - 1"
    using ok c max ci takes_over(1) by (simp_all add: inner_ok_def commits_ok_def)
  from leader_wait_applies [OF this] takes_over(2) [symmetric] show ?thesis
    by (simp add: to_leader_def become_leader_def applies_def)
qed

section \<open>A step\<close>

lemma local_sent: "all_local out \<Longrightarrow> sent out = {}"
proof (induction out)
  case (Cons e out)
  then show ?case by (cases e) simp_all
qed simp

lemma handled_commit_max:
  assumes ok: "inner_ok env (inner_of st)" and room: "room (inner_of st) 102" and h: "handled env st ev w out r"
    and ev: "carried ev" and k: "kept (inner_of st) w out" and r: "r = LeaderRole"
  shows "commit_index w \<noteq> - 1"
proof -
  from handled_log [OF ok _ _ h] room ev obtain ch where "changed ch (entries_of env (inner_of st)) (entries_of env w)"
    "change_allowed st ev w r ch" by (auto simp: room_def carried_def log_step_def)
  then have "length (entries_of env w) \<le> Suc (length (entries_of env (inner_of st)))"
    using r by (cases ch) auto
  then have "last_log_index (store w) \<noteq> - 1" using room by (auto simp: room_def unat_minus_1)
  with k show ?thesis by (auto simp: kept_def commits_ok_def) (metis word_order.extremum_uniqueI)
qed

lemma step_applies:
  assumes ok: "inner_ok env (inner_of st)" and room: "room (inner_of st) 102" and c: "commits_ok (inner_of st)"
    and applied: "commit_index (inner_of st) \<le> last_applied (inner_of st)"
    and ev: "carried ev" and step: "worker_step env st ev = Inr (st', out)"
  shows "applies env (inner_of st) (inner_of st') out" and "\<And>q. q \<in> sent out \<Longrightarrow> commit_carried q"
proof -
  have sent: "commit_carried q" if "clean o1" "q \<in> sent o1" for o1 :: "'a effect list" and q
    using that(2) by (rule sentE) (use that(1) in \<open>auto simp: list_all_iff\<close>)
  from step_log [OF ok _ _ step] room ev have ok': "inner_ok env (inner_of st')"
    by (auto simp: log_step_def room_def carried_def)
  have "applies env (inner_of st) (inner_of st') out \<and> (\<forall>q \<in> sent out. commit_carried q)"
    using worker_step_waits [OF step] unfolding step_parts_def
  proof (elim disjE exE conjE)
    fix w o1 o2
    assume h: "handled env st ev w o1 (role_of st')" and out: "out = o1 @ o2" and wt: "waits env w (role_of st') (Inr (st', o2))"
    note k = handled_kept [OF ok room c ev h] and q = waits_quiet [OF wt]
    have ok1: "inner_ok env w" using ok' quiet_inner_ok q by blast
    have max: "last_applied w \<noteq> - 1"
      using k c room_max [OF room] by (auto simp: kept_def commits_ok_def) (metis word_order.extremum_uniqueI)
    from waits_applies [OF wt ok1 _ max handled_commit_max [OF ok room h ev k]] k
    have "applies env w (inner_of st') o2" by (simp add: kept_def)
    moreover have "sent o2 = {}" using q local_sent by blast
    ultimately show ?thesis using k sent [of o1] by (auto simp: out applies_def kept_def handed_clean)
  next
    assume "st' = st" "out = []"
    then show ?thesis using c applied by (auto simp: applies_def)
  qed
  then show "applies env (inner_of st) (inner_of st') out" "\<And>q. q \<in> sent out \<Longrightarrow> commit_carried q" by auto
qed


section \<open>The cluster\<close>

text \<open>
  What a state machine got, \<open>cs\<close>: one command for every index applied, and beyond the \<open>b\<close> it had
  before, the commands of the log.
\<close>

definition node_applied :: "'cmd env \<Rightarrow> 'cmd list \<Rightarrow> 'cmd list \<Rightarrow> Inner \<Rightarrow> bool" where
  "node_applied env b cs w \<longleftrightarrow> commits_ok w \<and> commit_index w \<le> last_applied w \<and>
     length cs = unat (last_applied w) \<and>
     cs = b @ map le_cmd (drop (length b) (take (length cs) (entries_of env w)))"

definition carried_packets :: "'cmd AppendEntriesRequest set \<Rightarrow> 'cmd packet set" where
  "carried_packets W = append_packets {q \<in> W. commit_carried q}"

text \<open>What a state machine had, by the number of the page load: nothing in a later one.\<close>

definition had :: "'cmd cluster \<Rightarrow> NodeId \<Rightarrow> nat \<Rightarrow> 'cmd list" where
  "had cl n k = (if k = boots cl n then applied cl n else [])"

definition applied_ok :: "'cmd env \<Rightarrow> (NodeId \<Rightarrow> nat \<Rightarrow> 'cmd list) \<Rightarrow> 'cmd cluster \<Rightarrow> bool" where
  "applied_ok env b cl \<longleftrightarrow> (\<forall>n st. nodes cl n = Some st \<longrightarrow> node_applied env (b n (boots cl n)) (applied cl n) (inner_of st)) \<and>
     set (net cl) \<subseteq> carried_packets UNIV"

lemma carried_packets_Int: "carried_packets W = append_packets W \<inter> carried_packets UNIV"
  by (auto simp: carried_packets_def append_packets_def)

lemma emit_applied: "applied (emit n cl e) = (applied cl)(n := applied cl n @ handed [e])"
proof (cases e)
  case (ClientReply rt res)
  then show ?thesis by (cases rt) (auto simp: respond_def handed_def List.map_filter_def split: option.splits)
qed (auto simp: respond_def send_def handed_def List.map_filter_def split: option.splits)

lemma emits_applied: "applied (foldl (emit n) cl out) = (applied cl)(n := applied cl n @ handed out)"
proof (induction out arbitrary: cl)
  case (Cons e out)
  have "handed (e # out) = handed [e] @ handed out" using handed_append [of "[e]" out] by simp
  then show ?case by (auto simp: Cons emit_applied)
qed simp

text \<open>A node's step extends what its state machine got by what it newly applied.\<close>

lemma node_applied_step:
  assumes "applies env w w' out" and "length cs = unat (last_applied w)"
  shows "node_applied env cs (cs @ handed out) w'"
proof -
  have "unat (last_applied w') \<le> unat (last_log_index (store w'))" "unat (last_applied w) \<le> unat (last_applied w')"
    using assms(1) by (simp_all add: applies_def commits_ok_def word_le_nat_alt)
  then have "length (cs @ handed out) = unat (last_applied w')" using assms by (simp add: applies_def)
  with assms show ?thesis by (simp add: applies_def node_applied_def)
qed

lemma applied_finish:
  assumes ok: "applied_ok env b (set_node n None cl)"
    and r: "\<And>st out. r = Inr (st, out) \<Longrightarrow>
      node_applied env (b n (boots cl n)) (applied cl n @ handed out) (inner_of st) \<and> (\<forall>q \<in> sent out. commit_carried q)"
  shows "applied_ok env b (finish n r cl)"
proof (cases r)
  case (Inr x)
  obtain st out where x: "x = (st, out)" by force
  note r = r [OF Inr [unfolded x]]
  let ?cl = "foldl (emit n) (set_node n (Some st) cl) out"
  have "append_packets (sent out) \<subseteq> carried_packets UNIV"
    using r by (auto simp: carried_packets_def append_packets_def)
  with ok emits_packets [of n "set_node n (Some st) cl" out] have "set (net ?cl) \<subseteq> carried_packets UNIV"
    by (auto simp: applied_ok_def set_node_def)
  with ok r show ?thesis by (auto simp: finish_def Inr x applied_ok_def emits_applied set_node_def split: if_splits)
qed (use ok in \<open>simp add: finish_def\<close>)

text \<open>Before an action, \<open>b\<close> is what the state machines have.\<close>

lemma applied_rebase: "applied_ok env b cl \<Longrightarrow> applied_ok env (had cl) cl"
  by (auto simp: applied_ok_def node_applied_def had_def)

definition applied_before :: "'cmd env \<Rightarrow> (NodeId \<Rightarrow> nat \<Rightarrow> 'cmd list) \<Rightarrow> 'cmd lsys \<Rightarrow> 'cmd cluster \<Rightarrow> bool" where
  "applied_before env b s cl \<longleftrightarrow> applied_ok env b cl \<and> had cl = b \<and> lsim env cl s \<and> logs_ok s \<and> l_size s + 102 < 2 ^ 64"

lemma applied_set_node: "applied_ok env b cl \<Longrightarrow> applied_ok env b (set_node n None cl)"
  by (auto simp: applied_ok_def set_node_def)

text \<open>What a node, and an event that comes from the packets, bring to a step.\<close>

lemma applied_node:
  assumes "applied_before env b s cl" and st: "nodes cl n = Some st"
  shows "inner_ok env (inner_of st)" and "room (inner_of st) 102" and "commits_ok (inner_of st)"
    and "commit_index (inner_of st) \<le> last_applied (inner_of st)" and "node_applied env (b n (boots cl n)) (applied cl n) (inner_of st)"
proof -
  from assms(1) have ok: "applied_ok env b cl" and sim: "lsim env cl s" and logs: "logs_ok s"
    and size: "l_size s + 102 < 2 ^ 64" by (simp_all add: applied_before_def)
  note d = lsimD [OF sim st]
  show "inner_ok env (inner_of st)" by (rule d(1))
  have "copied (l_hist s) (l_size s) (l_log s n)" using logs by (simp add: logs_ok_def)
  then show "room (inner_of st) 102" using size by (simp add: copied_def d(2) room_def)
  show a: "node_applied env (b n (boots cl n)) (applied cl n) (inner_of st)" using ok st by (simp add: applied_ok_def)
  then show "commits_ok (inner_of st)" "commit_index (inner_of st) \<le> last_applied (inner_of st)"
    by (simp_all add: node_applied_def)
qed

lemma wire_carried:
  assumes "logs_ok s" and "sourced (append_packets (l_wire s)) ev"
    and "\<And>q tx. ev = RpcEvent (AppendEntries q) tx \<Longrightarrow> commit_carried q"
  shows "carried ev"
  using wire_indexed [OF assms(1,2)] assms(3) by (simp add: carried_def)

lemma sourced_mono: "sourced N ev \<Longrightarrow> N \<subseteq> N' \<Longrightarrow> sourced N' ev"
  by (auto simp: sourced_def split: event.splits sum.splits)

lemma applied_run_event:
  assumes before: "applied_before env b s cl" and src: "sourced (carried_packets (l_wire s)) ev"
  shows "applied_ok env b (run_event env n ev cl)"
proof (cases "nodes cl n")
  case None
  with before show ?thesis by (simp add: applied_before_def run_event_def)
next
  case (Some st)
  from before have ok: "applied_ok env b cl" and had: "had cl = b" and logs: "logs_ok s"
    by (simp_all add: applied_before_def)
  have base: "b n (boots cl n) = applied cl n" by (simp add: had [symmetric] had_def)
  note nd = applied_node [OF before Some]
  have "sourced (append_packets (l_wire s)) ev" by (rule sourced_mono [OF src]) (auto simp: carried_packets_def append_packets_def)
  then have ev: "carried ev"
    by (rule wire_carried [OF logs]) (use src in \<open>auto simp: carried_packets_def append_packets_def\<close>)
  have "applied_ok env b (finish n (worker_step env st ev) cl)"
  proof (rule applied_finish [OF applied_set_node [OF ok]])
    fix st' out assume step: "worker_step env st ev = Inr (st', out)"
    note sa = step_applies [OF nd(1-4) ev step]
    have "length (applied cl n) = unat (last_applied (inner_of st))" using nd(5) by (simp add: node_applied_def)
    from node_applied_step [OF sa(1) this] sa(2)
    show "node_applied env (b n (boots cl n)) (applied cl n @ handed out) (inner_of st') \<and> (\<forall>q \<in> sent out. commit_carried q)"
      unfolding base by blast
  qed
  then show ?thesis by (simp add: run_event_def Some)
qed

text \<open>A node that starts has applied nothing, and waits.\<close>

lemma start_applied:
  assumes w: "worker_new nid sk ps cs ls = Inr w" and ok: "inner_ok env w" and f: "to_follower env w = Inr (st, out)"
  shows "node_applied env [] (handed out) (inner_of st) \<and> sent out = {} \<and> (entries_of env w = [] \<longrightarrow> handed out = [])"
proof -
  have z: "commit_index w = 0" "last_applied w = 0" using w by (auto simp: worker_new_def rbind_eq_Inr)
  have wt: "waits env w FollowerRole (Inr (st, out))" using waits.falls_back [of env w] f by simp
  have ap: "applies env w (inner_of st) out"
    by (rule waits_applies [OF wt ok]) (use z in \<open>simp_all add: commits_ok_def\<close>)
  have "store (inner_of st) = store w" using waits_quiet [OF wt] by (simp add: quiet_def)
  moreover have "node_applied env [] (handed out) (inner_of st)"
    using node_applied_step [OF ap, of "[]"] z by simp
  ultimately show ?thesis using z local_sent [of out] waits_quiet [OF wt] ap
    by (auto simp: applies_def)
qed

lemma applied_restart:
  assumes "applied_before env b s cl"
  shows "applied_ok env b (restart env n cl)"
proof (cases "nodes cl n")
  case None
  with assms show ?thesis by (simp add: applied_before_def restart_def)
next
  case (Some st)
  let ?w = "inner_of st"
  let ?cl = "cl\<lparr>boots := (boots cl)(n := boots cl n + 1), applied := (applied cl)(n := [])\<rparr>"
  let ?r = "rbind (worker_new (node_id ?w) (inner_session_key ?w) (peers ?w) [] (storage (store ?w))) (to_follower env)"
  from assms have ap: "applied_ok env b cl" and had: "had cl = b" and sim: "lsim env cl s"
    by (simp_all add: applied_before_def)
  have base: "b n (boots cl n + 1) = []" by (simp add: had [symmetric] had_def)
  note ok = lsimD(1) [OF sim Some]
  have "applied_ok env b (finish n ?r ?cl)"
  proof (rule applied_finish)
    show "applied_ok env b (set_node n None ?cl)" using ap by (auto simp: applied_ok_def set_node_def)
    fix st' out assume "?r = Inr (st', out)"
    then obtain w1 where w1: "worker_new (node_id ?w) (inner_session_key ?w) (peers ?w) [] (storage (store ?w)) = Inr w1"
      and f: "to_follower env w1 = Inr (st', out)" by (auto simp: rbind_eq_Inr)
    have "store w1 = store ?w" "inner_session_key w1 = inner_session_key ?w"
      using worker_new_recovers [OF inner_ok_node [OF ok] w1] by simp_all
    then have "inner_ok env w1" using ok by (simp add: inner_ok_def)
    from start_applied [OF w1 this f]
    show "node_applied env (b n (boots ?cl n)) (applied ?cl n @ handed out) (inner_of st') \<and> (\<forall>q \<in> sent out. commit_carried q)"
      using base by simp
  qed
  then show ?thesis by (simp add: restart_def Let_def Some)
qed

lemma applied_forwarded:
  assumes "applied_before env b s cl" and "forward_outcome res k = Inr out"
  shows "applied_ok env b (foldl (emit n) cl out)"
proof -
  have "sent out = {}" "clean out" using assms(2) by (auto simp: forward_outcome_def split: sum.splits RpcResponse.splits)
  moreover from this(1) have "append_packets (sent out) \<subseteq> carried_packets UNIV"
    by (auto simp: carried_packets_def append_packets_def)
  ultimately show ?thesis using assms(1) emits_packets [of n cl out]
    by (auto simp: applied_before_def applied_ok_def emits_applied handed_clean)
qed

lemma applied_frame:
  assumes "applied_before env b s cl" and "nodes cl' = nodes cl" and "boots cl' = boots cl" and "applied cl' = applied cl"
    and "set (net cl') \<subseteq> set (net cl)"
  shows "applied_before env b s cl'"
proof -
  have "had cl' = had cl" by (intro ext) (simp add: had_def assms(3,4))
  moreover have "lsim env cl' s" by (rule lsim_frame [OF _ assms(2,5)]) (use assms(1) in \<open>simp add: applied_before_def\<close>)
  moreover have "applied_ok env b cl'"
    using assms unfolding applied_before_def applied_ok_def by (metis order_trans)
  ultimately show ?thesis using assms(1) by (simp add: applied_before_def)
qed

interpretation applying: preserved env "carried_packets (l_wire s)" "applied_before env b s" "applied_ok env b"
  for env :: "'cmd env" and b s
proof
  show "applied_before env b s cl \<Longrightarrow> nodes cl' = nodes cl \<Longrightarrow> boots cl' = boots cl \<Longrightarrow> applied cl' = applied cl \<Longrightarrow>
      set (net cl') \<subseteq> set (net cl) \<Longrightarrow> applied_before env b s cl'" for cl cl' :: "'cmd cluster"
    by (rule applied_frame)
  show "applied_before env b s cl \<Longrightarrow> applied_ok env b cl" for cl :: "'cmd cluster"
    by (simp add: applied_before_def)
qed (use applied_run_event applied_restart applied_forwarded in blast)+

lemma init_applied:
  fixes env :: "'cmd env"
  assumes "codec_ok env"
  shows "applied_ok env (had (cluster_init env sk ms)) (cluster_init env sk ms)"
proof -
  have "node_applied env [] [] (inner_of st)" if st: "first_start env sk ms n = Some st" for n st
  proof -
    from st obtain w out where w: "worker_new n sk (remove1 n ms) [] (\<lambda>_. None) = Inr w"
      and f: "to_follower env w = Inr (st, out)"
      by (auto simp: first_start_def rbind_eq_Inr split: if_splits sum.splits)
    from Storage_new_fresh [OF assms, of sk "\<lambda>_. None"] obtain s where s: "Storage_new sk (\<lambda>_. None) = Inr s"
      "storage_ok env s" "session_key s = sk" "abs_storage env s = \<lparr>p_term = 0, p_vote = None, p_log = []\<rparr>" by auto
    from w s(1) have e: "store w = s" "inner_session_key w = sk" by (auto simp: worker_new_def)
    with s(2,3) have "inner_ok env w" "entries_of env w = []"
      using arg_cong [OF s(4), of p_log] by (simp_all add: inner_ok_def)
    with start_applied [OF w _ f] show ?thesis by auto
  qed
  then show ?thesis by (auto simp: applied_ok_def cluster_init_def had_def)
qed

text \<open>Whatever state the cluster is in, an action hands on what the logs hold.\<close>

lemma act_applied:
  assumes rep: "replicates env ms k cl vs s" and ok: "applied_ok env b cl" and k: "k + 102 < 2 ^ 64"
  shows "applied_ok env (had cl) (act env cl a)"
proof -
  from rep k have sim: "lsim env cl s" and "logs_ok s" "l_size s + 102 < 2 ^ 64" by (simp_all add: replicates_def)
  then have b: "applied_before env (had cl) s cl" using applied_rebase [OF ok] by (simp add: applied_before_def)
  have "set (net cl) \<subseteq> append_packets (l_wire s)" using sim by (simp add: lsim_def)
  then have "set (net cl) \<subseteq> carried_packets (l_wire s)"
    using ok by (subst carried_packets_Int) (simp add: applied_ok_def)
  from applying.step [OF b this] show ?thesis .
qed

lemma run_applied:
  assumes cod: "codec_ok env" and ms: "distinct ms" and mem: "list_all (member_action ms) as"
    and len: "length as + 102 < 2 ^ 64"
  shows "\<exists>b. applied_ok env b (run env (cluster_init env sk ms) as)"
  using mem len
proof (induction as rule: rev_induct)
  case Nil
  show ?case using init_applied [OF cod] by (auto simp: run_def)
next
  case (snoc a as)
  then obtain b where ok: "applied_ok env b (run env (cluster_init env sk ms) as)" by auto
  from snoc.prems run_replicates [OF cod ms, of as sk] obtain vs s
    where "replicates env ms (length as) (run env (cluster_init env sk ms) as) vs s" by auto
  from act_applied [OF this ok] snoc.prems(2) show ?case by (auto simp: run_snoc)
qed

end
