(* ===== verification/Completeness.thy ===== *)
theory Completeness
  imports Voting "HOL-Library.Sublist"
begin

text \<open>
  Leader completeness, as an abstract argument: a history gives, for every moment and every node,
  a term, a log and a commit index, and the laws of the locale say how these may change, how a
  leader is elected and how an entry is committed. The log of every leader then begins with what the
  leaders of earlier terms had committed. The law on elections is Raft's: a node votes for a
  candidate whose log is at least as up to date as its own.
\<close>

section \<open>Prefixes\<close>

lemma prefix_take: "prefix l m \<Longrightarrow> prefix (take k l) m"
  using prefix_order.trans take_is_prefix by blast

lemma prefix_take_mono: "prefix l m \<Longrightarrow> prefix (take k l) (take k m)"
  by (auto simp: prefix_def)

lemma take_prefix: "prefix l l' \<Longrightarrow> k \<le> length l \<Longrightarrow> take k l' = take k l"
  by (auto simp: prefix_def)

lemma prefix_takes: "j \<le> k \<Longrightarrow> prefix (take j l) (take k l)"
  by (metis min.absorb1 take_is_prefix take_take)

lemma comparable_below:
  "prefix a b \<or> prefix b a \<Longrightarrow> prefix x a \<Longrightarrow> prefix x b \<or> prefix b x"
  by (metis prefix_order.trans prefix_same_cases)

lemma comparable_nth:
  assumes "prefix (take k l) m \<or> prefix m (take k l)" and "i < k" and "i < length l" and "i < length m"
  shows "l ! i = m ! i"
proof -
  obtain z where "m = take k l @ z \<or> take k l = m @ z" using assms(1) by (auto elim!: prefixE)
  then have "take k l ! i = m ! i"
  proof
    assume "m = take k l @ z"
    then show ?thesis using assms(2,3) by (simp add: nth_append)
  next
    assume "take k l = m @ z"
    then show ?thesis using assms(4) by (simp add: nth_append)
  qed
  with assms(2) show ?thesis by simp
qed

section \<open>Histories\<close>

text \<open>A node at a moment: its term, its log, how much of it is committed, and whether it leads.\<close>

record ('t, 'e) snapshot =
  s_term :: 't
  s_log :: "'e list"
  s_commit :: nat
  s_leads :: bool

text \<open>
  What happened up to the moment \<open>h_end\<close>. A node that has halted has no snapshot; \<open>h_hist\<close> is, for
  every term, the longest log that a leader of the term ever had.
\<close>

record ('n, 't, 'e) history =
  h_members :: "'n set"
  h_end :: nat
  h_node :: "nat \<Rightarrow> 'n \<Rightarrow> ('t, 'e) snapshot option"
  h_hist :: "'t \<Rightarrow> 'e list"

definition past_leaders :: "('n, 't, 'e) history \<Rightarrow> nat \<Rightarrow> ('t, 'e) snapshot set" where
  "past_leaders H i = {v. s_leads v \<and> (\<exists>k \<le> i. \<exists>n. h_node H k n = Some v)}"

text \<open>The log \<open>l'\<close> is at least as up to date as \<open>l\<close>.\<close>

definition up_to_date :: "('e \<Rightarrow> 't::linorder) \<Rightarrow> 'e list \<Rightarrow> 'e list \<Rightarrow> bool" where
  "up_to_date tm l l' \<longleftrightarrow> l = [] \<or> l' \<noteq> [] \<and>
     (tm (last l) < tm (last l') \<or> tm (last l) = tm (last l') \<and> length l \<le> length l')"

text \<open>A node takes entries of \<open>m\<close> into its log \<open>l\<close>, and keeps of \<open>l\<close> what agrees with \<open>m\<close>.\<close>

definition takes_in :: "'e list \<Rightarrow> 'e list \<Rightarrow> 'e list \<Rightarrow> bool" where
  "takes_in l m l' \<longleftrightarrow> (\<exists>x. l' \<in> {l, take x m}) \<and>
     (\<forall>k \<le> length l. (\<forall>i < k. i < length m \<longrightarrow> l ! i = m ! i) \<longrightarrow> take k l' = take k l)"

definition log_moves :: "('e \<Rightarrow> 't) \<Rightarrow> ('t, 'e) snapshot set \<Rightarrow> ('t, 'e) snapshot \<Rightarrow> ('t, 'e) snapshot \<Rightarrow> bool" where
  "log_moves tm V s s' \<longleftrightarrow> s_log s' = s_log s \<or>
     (\<exists>e. s_leads s' \<and> tm e = s_term s' \<and> s_log s' = s_log s @ [e]) \<or>
     (\<exists>v \<in> V. s_term v = s_term s' \<and> takes_in (s_log s) (s_log v) (s_log s'))"

text \<open>
  The vote of \<open>p\<close> for a candidate of term \<open>u\<close> with the log \<open>l\<close>: until then the term of \<open>p\<close> was at
  most \<open>u\<close>, afterwards it is at least \<open>u\<close>.
\<close>

definition voted :: "('e \<Rightarrow> 't::linorder) \<Rightarrow> ('n, 't, 'e) history \<Rightarrow> nat \<Rightarrow> 'e list \<Rightarrow> 't \<Rightarrow> 'n \<Rightarrow> bool" where
  "voted tm H i l u p \<longleftrightarrow> (\<exists>e \<le> i. \<exists>v. h_node H e p = Some v \<and> s_term v \<le> u \<and> up_to_date tm (s_log v) l \<and>
     (\<forall>k s. e < k \<longrightarrow> k \<le> h_end H \<longrightarrow> h_node H k p = Some s \<longrightarrow> u \<le> s_term s))"

text \<open>The first \<open>j\<close> entries of the leader of term \<open>t\<close> are chosen: a majority held them in term \<open>t\<close>.\<close>

definition held :: "('n, 't, 'e) history \<Rightarrow> nat \<Rightarrow> 't \<Rightarrow> nat \<Rightarrow> 'n \<Rightarrow> bool" where
  "held H i t j p \<longleftrightarrow> (\<exists>k \<le> i. \<exists>s. h_node H k p = Some s \<and> s_term s = t \<and> j \<le> length (s_log s) \<and>
     take j (s_log s) = take j (h_hist H t))"

definition chosen :: "('e \<Rightarrow> 't) \<Rightarrow> ('n, 't, 'e) history \<Rightarrow> 't \<Rightarrow> nat \<Rightarrow> bool" where
  "chosen tm H t j \<longleftrightarrow> 0 < j \<and> tm (h_hist H t ! (j - 1)) = t \<and>
     (\<exists>Q \<subseteq> h_members H. majority (card (h_members H)) \<le> card Q \<and> (\<forall>p \<in> Q. held H (h_end H) t j p))"

definition commit_moves ::
  "('e \<Rightarrow> 't) \<Rightarrow> ('n, 't, 'e) history \<Rightarrow> nat \<Rightarrow> ('t, 'e) snapshot \<Rightarrow> ('t, 'e) snapshot \<Rightarrow> bool" where
  "commit_moves tm H i s s' \<longleftrightarrow> s_commit s' \<le> s_commit s \<or>
     (\<exists>v \<in> past_leaders H i. s_term v = s_term s' \<and> s_commit s' \<le> s_commit v \<and>
        take (s_commit s') (s_log s') = take (s_commit s') (s_log v)) \<or>
     s_leads s' \<and> chosen tm H (s_term s') (s_commit s')"

lemma past_leaders_mono: "i \<le> j \<Longrightarrow> past_leaders H i \<subseteq> past_leaders H j"
  unfolding past_leaders_def using order_trans by blast

section \<open>The laws\<close>

locale histories =
  fixes valid :: "('n, 't::linorder, 'e) history \<Rightarrow> bool" and tm :: "'e \<Rightarrow> 't"
  assumes members: "valid H \<Longrightarrow> finite (h_members H)"
    and start: "valid H \<Longrightarrow> h_node H 0 n = Some s \<Longrightarrow> s_log s = [] \<and> s_commit s = 0 \<and> \<not> s_leads s"
    and copies: "valid H \<Longrightarrow> i \<le> h_end H \<Longrightarrow> h_node H i n = Some s \<Longrightarrow> k < length (s_log s) \<Longrightarrow>
      take (Suc k) (s_log s) = take (Suc k) (h_hist H (tm (s_log s ! k)))"
    and own: "valid H \<Longrightarrow> i \<le> h_end H \<Longrightarrow> h_node H i n = Some s \<Longrightarrow> s_leads s \<Longrightarrow> prefix (s_log s) (h_hist H (s_term s))"
    and moves: "valid H \<Longrightarrow> i < h_end H \<Longrightarrow> h_node H (Suc i) n = Some s' \<Longrightarrow>
      \<exists>s. h_node H i n = Some s \<and> s_term s \<le> s_term s' \<and> log_moves tm (past_leaders H i) s s'"
    and leads: "valid H \<Longrightarrow> i < h_end H \<Longrightarrow> h_node H (Suc i) n = Some s' \<Longrightarrow> s_leads s' \<Longrightarrow> h_node H i n = Some s \<Longrightarrow>
      s_leads s \<and> s_term s' = s_term s \<and> prefix (s_log s) (s_log s') \<or>
      s_log s' = s_log s \<and> s_term s = s_term s' \<and>
      (\<exists>Q \<subseteq> h_members H. majority (card (h_members H)) \<le> card Q \<and> (\<forall>p \<in> Q. voted tm H i (s_log s') (s_term s') p))"
    and commits: "valid H \<Longrightarrow> i < h_end H \<Longrightarrow> h_node H i n = Some s \<Longrightarrow> h_node H (Suc i) n = Some s' \<Longrightarrow>
      s_commit s' \<le> length (s_log s') \<and> commit_moves tm H i s s'"
begin

lemma up_before:
  assumes "valid H"
  shows "i \<le> j \<Longrightarrow> j \<le> h_end H \<Longrightarrow> h_node H j n = Some s' \<Longrightarrow> \<exists>s. h_node H i n = Some s \<and> s_term s \<le> s_term s'"
proof (induction j arbitrary: s' rule: dec_induct)
  case (step j)
  from moves [OF assms _ step.prems(2)] step.prems(1) obtain s1 where "h_node H j n = Some s1" "s_term s1 \<le> s_term s'"
    by auto
  moreover from this(1) step.IH step.prems(1) obtain s where "h_node H i n = Some s" "s_term s \<le> s_term s1" by auto
  ultimately show ?case by auto
qed simp

text \<open>Terms do not fall along a log, and every entry is a past leader's.\<close>

definition ordered :: "('n, 't, 'e) history \<Rightarrow> nat \<Rightarrow> ('t, 'e) snapshot \<Rightarrow> bool" where
  "ordered H i s \<longleftrightarrow> sorted (map tm (s_log s)) \<and>
     (\<forall>e \<in> set (s_log s). tm e \<le> s_term s \<and> (\<exists>v \<in> past_leaders H i. s_term v = tm e))"

lemma ordered_mono: "ordered H i s \<Longrightarrow> i \<le> j \<Longrightarrow> ordered H j s"
  unfolding ordered_def using past_leaders_mono by blast

lemma ordered_step:
  assumes mv: "log_moves tm (past_leaders H i) s s'" and t: "s_term s \<le> s_term s'" and ord: "ordered H i s"
    and past: "\<And>v. v \<in> past_leaders H i \<Longrightarrow> ordered H i v" and node: "h_node H (Suc i) n = Some s'"
  shows "ordered H (Suc i) s'"
proof -
  have up: "\<And>v. v \<in> past_leaders H i \<Longrightarrow> v \<in> past_leaders H (Suc i)" using past_leaders_mono [of i "Suc i"] by auto
  from mv show ?thesis unfolding log_moves_def
  proof (elim disjE exE bexE conjE)
    assume "s_log s' = s_log s"
    with ord t up show ?thesis unfolding ordered_def by (metis order_trans)
  next
    fix e assume e: "s_leads s'" "tm e = s_term s'" "s_log s' = s_log s @ [e]"
    then have "s' \<in> past_leaders H (Suc i)" using node unfolding past_leaders_def by blast
    with ord t up e show ?thesis unfolding ordered_def by (fastforce simp: sorted_append)
  next
    fix v assume v: "v \<in> past_leaders H i" "s_term v = s_term s'" "takes_in (s_log s) (s_log v) (s_log s')"
    then obtain x where "s_log s' = s_log s \<or> s_log s' = take x (s_log v)" unfolding takes_in_def by blast
    then show ?thesis
    proof
      assume "s_log s' = s_log s"
      with ord t up show ?thesis unfolding ordered_def by (metis order_trans)
    next
      assume "s_log s' = take x (s_log v)"
      with past [OF v(1)] v(2) up show ?thesis unfolding ordered_def
        by (fastforce simp: sorted_wrt_take take_map [symmetric] dest!: in_set_takeD)
    qed
  qed
qed

lemma logs_ordered:
  assumes "valid H"
  shows "i \<le> h_end H \<Longrightarrow> h_node H i n = Some s \<Longrightarrow> ordered H i s"
proof (induction i arbitrary: n s rule: less_induct)
  case (less i)
  show ?case
  proof (cases i)
    case 0
    with start [OF assms] less.prems show ?thesis by (simp add: ordered_def)
  next
    case (Suc j)
    have past: "ordered H j v" if v: "v \<in> past_leaders H j" for v
    proof -
      from v obtain k m where k: "k \<le> j" "h_node H k m = Some v" unfolding past_leaders_def by blast
      with less.IH [of k m v] less.prems Suc have "ordered H k v" by simp
      with k(1) show ?thesis using ordered_mono by blast
    qed
    from moves [OF assms, of j n s] less.prems Suc obtain s0 where s0: "h_node H j n = Some s0" "s_term s0 \<le> s_term s"
      "log_moves tm (past_leaders H j) s0 s" by auto
    from less.IH [of j n s0] less.prems Suc s0(1) have "ordered H j s0" by simp
    from ordered_step [OF s0(3,2) this past] less.prems Suc show ?thesis by simp
  qed
qed

text \<open>What a log shares with the logs of all leaders it hears of, it keeps.\<close>

lemma takes_in_keeps:
  assumes "takes_in l m l'" and "take k l = x" and "prefix x m \<or> prefix m h \<and> prefix x h" and "k \<le> length l"
  shows "take k l' = x"
proof -
  have "l ! i = m ! i" if "i < k" "i < length m" for i
  proof -
    have "prefix x m \<or> prefix m x" using assms(3) prefix_same_cases by blast
    with comparable_nth [of k l m i] that assms(2,4) show ?thesis by simp
  qed
  with assms show ?thesis unfolding takes_in_def by blast
qed

lemma kept_step:
  assumes mv: "log_moves tm V s s'" and x: "prefix x (s_log s)"
    and V: "\<And>v. v \<in> V \<Longrightarrow> s_term v = s_term s' \<Longrightarrow> prefix x (s_log v) \<or> prefix (s_log v) h \<and> prefix x h"
  shows "prefix x (s_log s')"
  using mv unfolding log_moves_def
proof (elim disjE exE bexE conjE)
  fix v assume v: "v \<in> V" "s_term v = s_term s'" "takes_in (s_log s) (s_log v) (s_log s')"
  have "take (length x) (s_log s) = x" using x by (auto simp: prefix_def)
  from takes_in_keeps [OF v(3) this V [OF v(1,2)]] x show ?thesis by (metis prefix_length_le take_is_prefix)
qed (use x in auto)

lemma kept_until:
  assumes H: "valid H" and t: "t \<le> s_term s" and x: "prefix x (s_log s)" "prefix x (h_hist H t)" and s: "h_node H k p = Some s"
    and V: "\<And>v. v \<in> past_leaders H i \<Longrightarrow> t < s_term v \<Longrightarrow> prefix x (s_log v)"
  shows "k \<le> e \<Longrightarrow> e \<le> i \<Longrightarrow> i \<le> h_end H \<Longrightarrow> h_node H e p = Some v \<Longrightarrow> prefix x (s_log v)"
proof (induction e arbitrary: v rule: dec_induct)
  case base
  with s x show ?case by simp
next
  case (step e)
  from moves [OF H _ step.prems(3)] step.prems(1,2) obtain s1 where
    s1: "h_node H e p = Some s1" "s_term s1 \<le> s_term v" "log_moves tm (past_leaders H e) s1 v" by auto
  from step.IH [OF _ step.prems(2) s1(1)] step.prems(1) have x1: "prefix x (s_log s1)" by simp
  from up_before [OF H step.hyps(1) _ s1(1)] step.prems(1,2) s t have "t \<le> s_term v" using s1(2) by auto
  show ?case
  proof (rule kept_step [OF s1(3) x1])
    fix u assume u: "u \<in> past_leaders H e" "s_term u = s_term v"
    have "u \<in> past_leaders H i" using u(1) past_leaders_mono [of e i] step.prems(1) by auto
    moreover from u(1) obtain k m where "k \<le> e" "h_node H k m = Some u" "s_leads u" unfolding past_leaders_def by blast
    with own [OF H, of k m u] step.prems(1,2) have "prefix (s_log u) (h_hist H (s_term u))" by simp
    ultimately show "prefix x (s_log u) \<or> prefix (s_log u) (h_hist H t) \<and> prefix x (h_hist H t)"
      using V [of u] x(2) u(2) \<open>t \<le> s_term v\<close> by (cases "t = s_term u") auto
  qed
qed

text \<open>A log that is at least as up to date as one with the chosen entries has them.\<close>

lemma up_to_date_has:
  assumes H: "valid H" and i: "i \<le> h_end H" and s: "h_node H i n = Some s" and v: "h_node H e p = Some v" "e \<le> i"
    and x: "prefix (take j (h_hist H t)) (s_log v)" and j: "0 < j" "j \<le> length (h_hist H t)" "tm (h_hist H t ! (j - 1)) = t"
    and up: "up_to_date tm (s_log v) (s_log s)"
    and V: "\<And>w. w \<in> past_leaders H i \<Longrightarrow> t < s_term w \<Longrightarrow> prefix (take j (h_hist H t)) (s_log w)"
  shows "prefix (take j (h_hist H t)) (s_log s)"
proof -
  let ?x = "take j (h_hist H t)" and ?l = "s_log s" and ?k = "length (s_log s) - 1"
  from x obtain z where z: "s_log v = ?x @ z" by (auto simp: prefix_def)
  have len: "j \<le> length (s_log v)" and nth: "\<And>k. k < j \<Longrightarrow> s_log v ! k = h_hist H t ! k"
    using j(2) by (simp_all add: z nth_append)
  have "ordered H e v" using logs_ordered [OF H _ v(1)] v(2) i by simp
  then have sv: "sorted (map tm (s_log v))" by (simp add: ordered_def)
  have ts: "tm (h_hist H t ! k) \<le> t" if "k < j" for k
    using sorted_nth_mono [OF sv, of k "j - 1"] that len j(1,3) nth by simp
  have "t \<le> tm (last (s_log v))"
    using sorted_nth_mono [OF sv, of "j - 1" "length (s_log v) - 1"] len j(1,3) nth
    by (cases "s_log v = []") (simp_all add: last_conv_nth)
  moreover from up len j(1) have l: "?l \<noteq> []" and u: "tm (last (s_log v)) < tm (last ?l) \<or>
      tm (last (s_log v)) = tm (last ?l) \<and> length (s_log v) \<le> length ?l" by (auto simp: up_to_date_def)
  ultimately have tl: "t \<le> tm (last ?l)" by auto
  have k: "last ?l = ?l ! ?k" "?k < length ?l" "Suc ?k = length ?l" using l by (simp_all add: last_conv_nth)
  have copy: "?l = take (length ?l) (h_hist H (tm (last ?l)))" using copies [OF H i s k(2)] k by simp
  show ?thesis
  proof (cases "tm (last ?l) = t")
    case True
    with u \<open>t \<le> tm (last (s_log v))\<close> len have "j \<le> length ?l" by auto
    from prefix_takes [OF this, of "h_hist H t"] copy True show ?thesis by simp
  next
    case False
    with tl have t': "t < tm (last ?l)" by simp
    have "ordered H i s" by (rule logs_ordered [OF H i s])
    then obtain w where w: "w \<in> past_leaders H i" "s_term w = tm (last ?l)" using l unfolding ordered_def by force
    then obtain k' m where "k' \<le> i" "h_node H k' m = Some w" "s_leads w" unfolding past_leaders_def by blast
    with own [OF H, of k' m w] i have "prefix (s_log w) (h_hist H (tm (last ?l)))" by (simp add: w(2))
    with V [OF w(1)] w(2) t' have x': "prefix ?x (h_hist H (tm (last ?l)))" using prefix_order.trans by auto
    have "j \<le> length ?l"
    proof (rule ccontr)
      assume "\<not> j \<le> length ?l"
      then have kj: "?k < j" using k(2) by simp
      then have "?k < length ?x" using j(2) by simp
      with x' kj have "h_hist H (tm (last ?l)) ! ?k = h_hist H t ! ?k" by (auto simp: prefix_def nth_append)
      moreover have "?l ! ?k = h_hist H (tm (last ?l)) ! ?k" using arg_cong [OF copy, of "\<lambda>xs. xs ! ?k"] k(2) by simp
      ultimately show False using ts [OF kj] t' k(1) by simp
    qed
    then show ?thesis using x' copy by (metis length_take min.cobounded2 prefix_length_prefix take_is_prefix le_trans)
  qed
qed

theorem chosen_kept:
  assumes H: "valid H" and ch: "chosen tm H t j"
  shows "i \<le> h_end H \<Longrightarrow> h_node H i n = Some s \<Longrightarrow> s_leads s \<Longrightarrow> t < s_term s \<Longrightarrow> prefix (take j (h_hist H t)) (s_log s)"
proof (induction i arbitrary: n s rule: less_induct)
  case (less i)
  let ?x = "take j (h_hist H t)"
  from start [OF H] less.prems obtain i0 where i: "i = Suc i0" by (cases i) auto
  have V: "prefix ?x (s_log w)" if w: "w \<in> past_leaders H i0" "t < s_term w" for w
  proof -
    from w(1) obtain k m where "k \<le> i0" "h_node H k m = Some w" "s_leads w" unfolding past_leaders_def by blast
    with less.IH [of k m w] w(2) less.prems(1) i show ?thesis by simp
  qed
  from moves [OF H, of i0 n s] less.prems i obtain s0 where s0: "h_node H i0 n = Some s0" by auto
  from leads [OF H, of i0 n s s0] s0 less.prems i consider
      (leads) "s_leads s0" "s_term s = s_term s0" "prefix (s_log s0) (s_log s)"
    | (elected) Q where "s_log s = s_log s0" "Q \<subseteq> h_members H" "majority (card (h_members H)) \<le> card Q"
      "\<forall>p \<in> Q. voted tm H i0 (s_log s) (s_term s) p" by auto
  then show ?case
  proof cases
    case leads
    with s0 have "s0 \<in> past_leaders H i0" unfolding past_leaders_def by blast
    with V [of s0] leads less.prems(4) prefix_order.trans show ?thesis by fastforce
  next
    case elected
    from ch obtain A where j: "0 < j" "tm (h_hist H t ! (j - 1)) = t"
      and A: "A \<subseteq> h_members H" "majority (card (h_members H)) \<le> card A" "\<forall>p \<in> A. held H (h_end H) t j p"
      unfolding chosen_def by blast
    from majorities_intersect [OF members [OF H] elected(3) A(2) elected(2) A(1)] obtain p where "p \<in> Q" "p \<in> A" by blast
    with elected(4) A(3) have vo: "voted tm H i0 (s_log s) (s_term s) p" and he: "held H (h_end H) t j p" by blast+
    from vo obtain e v where e: "e \<le> i0" "h_node H e p = Some v" "up_to_date tm (s_log v) (s_log s)"
      "\<And>k s'. e < k \<Longrightarrow> k \<le> h_end H \<Longrightarrow> h_node H k p = Some s' \<Longrightarrow> s_term s \<le> s_term s'" unfolding voted_def by blast
    from he obtain k a where k: "k \<le> h_end H" "h_node H k p = Some a" "s_term a = t" "j \<le> length (s_log a)"
      "take j (s_log a) = ?x" unfolding held_def by blast
    have "\<not> e < k" using e(4) [OF _ k(1,2)] k(3) less.prems(4) by auto
    then have ke: "k \<le> e" by simp
    have jl: "j \<le> length (h_hist H t)" using arg_cong [OF k(5), of length] k(4) by simp
    have "prefix ?x (s_log v)"
      by (rule kept_until [OF H _ _ take_is_prefix k(2) V ke e(1) _ e(2)])
        (use k take_is_prefix [of j "s_log a"] less.prems(1) i in auto)
    from up_to_date_has [OF H _ s0 e(2,1) this j(1) jl j(2) _ V] e(3) elected(1) less.prems(1) i show ?thesis by simp
  qed
qed

text \<open>What a node has committed is chosen, by the leader of its term or of an earlier one.\<close>

definition covered :: "('n, 't, 'e) history \<Rightarrow> ('t, 'e) snapshot \<Rightarrow> bool" where
  "covered H s \<longleftrightarrow> s_commit s \<le> length (s_log s) \<and> (s_commit s = 0 \<or>
     (\<exists>t j. t \<le> s_term s \<and> chosen tm H t j \<and> s_commit s \<le> j \<and> take (s_commit s) (s_log s) = take (s_commit s) (h_hist H t)))"

lemma covered_step:
  assumes H: "valid H" and i: "i < h_end H" and s: "h_node H i n = Some s" "h_node H (Suc i) n = Some s'" and cov: "covered H s"
    and past: "\<And>v. v \<in> past_leaders H i \<Longrightarrow> covered H v"
  shows "covered H s'"
proof -
  from moves [OF H i s(2)] s(1) have t: "s_term s \<le> s_term s'" and mv: "log_moves tm (past_leaders H i) s s'" by auto
  from commits [OF H i s] have len: "s_commit s' \<le> length (s_log s')" and cm: "commit_moves tm H i s s'" by auto
  from cm show ?thesis unfolding commit_moves_def
  proof (elim disjE bexE conjE)
    assume c: "s_commit s' \<le> s_commit s"
    show ?thesis
    proof (cases "s_commit s = 0")
      case True
      with c show ?thesis by (simp add: covered_def)
    next
      case False
      with cov obtain u j where u: "u \<le> s_term s" "chosen tm H u j" "s_commit s \<le> j"
        and x: "take (s_commit s) (s_log s) = take (s_commit s) (h_hist H u)" unfolding covered_def by blast
      let ?x = "take (s_commit s) (s_log s)"
      have "prefix ?x (s_log s')"
      proof (rule kept_step [OF mv take_is_prefix])
        fix v assume v: "v \<in> past_leaders H i" "s_term v = s_term s'"
        then obtain k m where k: "k \<le> i" "h_node H k m = Some v" "s_leads v" unfolding past_leaders_def by blast
        have "prefix ?x (take j (h_hist H u))" unfolding x by (rule prefix_takes [OF u(3)])
        with chosen_kept [OF H u(2) _ k(2,3)] own [OF H _ k(2,3)] k(1) i t u(1) v(2) take_is_prefix [of "s_commit s" "h_hist H u"]
        show "prefix ?x (s_log v) \<or> prefix (s_log v) (h_hist H u) \<and> prefix ?x (h_hist H u)"
          unfolding x by (metis less_imp_le_nat order_le_less_trans prefix_order.trans order.order_iff_strict order_trans)
      qed
      moreover have "length ?x = s_commit s" using cov by (simp add: covered_def)
      ultimately have "take (s_commit s) (s_log s') = ?x" unfolding prefix_def by (metis append_eq_conv_conj)
      from arg_cong [OF this [unfolded x], of "take (s_commit s')"] c
      have "take (s_commit s') (s_log s') = take (s_commit s') (h_hist H u)" by (simp add: min_absorb1)
      moreover have "u \<le> s_term s'" "s_commit s' \<le> j" using u t c by auto
      ultimately show ?thesis using len u(2) unfolding covered_def by blast
    qed
  next
    fix v assume v: "v \<in> past_leaders H i" "s_term v = s_term s'" "s_commit s' \<le> s_commit v"
      "take (s_commit s') (s_log s') = take (s_commit s') (s_log v)"
    show ?thesis
    proof (cases "s_commit v = 0")
      case False
      with past [OF v(1)] obtain u j where u: "u \<le> s_term v" "chosen tm H u j" "s_commit v \<le> j"
        and x: "take (s_commit v) (s_log v) = take (s_commit v) (h_hist H u)" unfolding covered_def by blast
      from arg_cong [OF x, of "take (s_commit s')"] v(3,4)
      have "take (s_commit s') (s_log s') = take (s_commit s') (h_hist H u)" by (simp add: min_absorb1)
      moreover have "u \<le> s_term s'" "s_commit s' \<le> j" using u v by auto
      ultimately show ?thesis using len u(2) unfolding covered_def by blast
    qed (use v(3) in \<open>simp add: covered_def\<close>)
  next
    assume l: "s_leads s'" and ch: "chosen tm H (s_term s') (s_commit s')"
    from own [OF H _ s(2) l] i have "prefix (s_log s') (h_hist H (s_term s'))" by simp
    with len have "take (s_commit s') (s_log s') = take (s_commit s') (h_hist H (s_term s'))" by (metis take_prefix)
    with len ch show ?thesis unfolding covered_def by blast
  qed
qed

lemma commits_covered:
  assumes "valid H"
  shows "i \<le> h_end H \<Longrightarrow> h_node H i n = Some s \<Longrightarrow> covered H s"
proof (induction i arbitrary: n s rule: less_induct)
  case (less i)
  show ?case
  proof (cases i)
    case 0
    with start [OF assms] less.prems show ?thesis by (simp add: covered_def)
  next
    case (Suc j)
    have past: "covered H v" if v: "v \<in> past_leaders H j" for v
    proof -
      from v obtain k m where "k \<le> j" "h_node H k m = Some v" unfolding past_leaders_def by blast
      with less.IH [of k m v] less.prems(1) Suc show ?thesis by simp
    qed
    from moves [OF assms, of j n s] less.prems Suc obtain s0 where s0: "h_node H j n = Some s0" by auto
    from less.IH [of j n s0] less.prems Suc s0 have "covered H s0" by simp
    from covered_step [OF assms _ s0 _ this past] less.prems Suc show ?thesis by simp
  qed
qed

theorem leaders_have_committed:
  assumes H: "valid H" and v: "i \<le> h_end H" "h_node H i n = Some v" and w: "k \<le> h_end H" "h_node H k m = Some w" "s_leads w"
    and t: "s_term v < s_term w"
  shows "prefix (take (s_commit v) (s_log v)) (s_log w)"
proof (cases "s_commit v = 0")
  case False
  with commits_covered [OF H v] obtain u j where u: "u \<le> s_term v" "chosen tm H u j" "s_commit v \<le> j"
    and x: "take (s_commit v) (s_log v) = take (s_commit v) (h_hist H u)" unfolding covered_def by blast
  from chosen_kept [OF H u(2) w] u(1) t have "prefix (take j (h_hist H u)) (s_log w)" by simp
  with prefix_takes [OF u(3), of "h_hist H u"] show ?thesis unfolding x by (metis prefix_order.trans)
qed simp

end

end
