(* ===== verification/Moves.thy ===== *)
theory Moves
  imports CommitBound Completeness
begin

text \<open>
  What a step makes of a node's term, log and commit index, and what its calls say of them: the
  term never falls; the log is extended, or takes in the entries of a request of the node's term,
  and only then does a node that does not lead commit; calls with entries are a leader's, and carry
  its term and its commit index. Theory Agreement rests on nothing more.
\<close>

section \<open>Handlers\<close>

text \<open>The node took the request's entries into its log, and its commit index as far as they reach.\<close>

definition absorbed :: "'cmd env \<Rightarrow> 'cmd AppendEntriesRequest \<Rightarrow> Inner \<Rightarrow> Inner \<Rightarrow> bool" where
  "absorbed env q w w' \<longleftrightarrow> ae_term q = term_of w' \<and>
     prev_matches (entries_of env w) (ae_prev_log_index q) (ae_prev_log_term q) \<and>
     entries_of env w' = raft_merge le_term (entries_of env w) (unat (ae_prev_log_index q)) (ae_entries q) \<and>
     commit_index w' = (if commit_index w < ae_leader_commit q
       then if ae_entries q = [] then ae_leader_commit q
            else min (ae_leader_commit q) (le_idx (last (ae_entries q)))
       else commit_index w)"

text \<open>The log is as before, or a node that is left in the role of a leader added an entry of its term.\<close>

definition extended :: "'cmd env \<Rightarrow> role \<Rightarrow> Inner \<Rightarrow> Inner \<Rightarrow> bool" where
  "extended env r w w' \<longleftrightarrow> commit_index w' = commit_index w \<and> (entries_of env w' = entries_of env w \<or>
     r = LeaderRole \<and> (\<exists>e. le_term e = term_of w' \<and> entries_of env w' = entries_of env w @ [e]))"

definition moved :: "'cmd env \<Rightarrow> 'cmd event \<Rightarrow> role \<Rightarrow> Inner \<Rightarrow> Inner \<Rightarrow> bool" where
  "moved env ev r w w' \<longleftrightarrow> term_of w \<le> term_of w' \<and>
     (extended env r w w' \<or> (\<exists>q tx. ev = RpcEvent (AppendEntries q) tx \<and> absorbed env q w w'))"

text \<open>The calls of a handler that leaves the node as \<open>w\<close>, in the role \<open>r\<close>.\<close>

definition stamped :: "role \<Rightarrow> Inner \<Rightarrow> 'cmd effect list \<Rightarrow> bool" where
  "stamped r w out \<longleftrightarrow> (\<forall>q \<in> sent out. r = LeaderRole \<and> ae_term q = term_of w \<and> ae_leader_commit q = commit_index w)"

lemma stamped_simps [simp]:
  "stamped r w []"
  "stamped r w (out @ out') \<longleftrightarrow> stamped r w out \<and> stamped r w out'"
  "stamped r w (RpcReply tx resp # out) = stamped r w out"
  "stamped r w (ResetElectionTimeout # out) = stamped r w out"
  "stamped r w (ResetHeartbeat # out) = stamped r w out"
  "stamped r w (ClientReply rt res # out) = stamped r w out"
  "stamped r w (CallForward p cr n # out) = stamped r w out"
  "stamped r w (CallVote p rv # out) = stamped r w out"
  by (auto simp: stamped_def)

definition moves :: "'cmd env \<Rightarrow> 'cmd event \<Rightarrow> Inner \<Rightarrow> Inner \<Rightarrow> 'cmd effect list \<Rightarrow> role \<Rightarrow> bool" where
  "moves env ev w w' out r \<longleftrightarrow> moved env ev r w w' \<and> stamped r w' out"

lemma extended_refl [simp]: "extended env r w w"
  by (simp add: extended_def)

lemma moved_refl [simp]: "moved env ev r w w"
  by (simp add: moved_def)

lemma moves_leader_id [simp]: "moves env ev (w\<lparr>leader_id := x\<rparr>) w' out r \<longleftrightarrow> moves env ev w w' out r"
  by (simp add: moves_def moved_def extended_def absorbed_def cong: if_cong)

lemma moved_same:
  "term_of w \<le> term_of w' \<Longrightarrow> commit_index w' = commit_index w \<Longrightarrow> entries_of env w' = entries_of env w \<Longrightarrow> moved env ev r w w'"
  by (simp add: moved_def extended_def)

lemma append_entries_stamped:
  "append_entries env w l p = Inr (l', out) \<Longrightarrow> stamped LeaderRole w out"
  by (auto simp: append_entries_def stamped_def Let_def rbind_eq_Inr split: option.splits if_splits)

lemma append_entries_all_stamped:
  "append_entries_all env w l ps = Inr (l', out) \<Longrightarrow> stamped LeaderRole w out"
  by (induction ps arbitrary: l l' out) (auto simp: rbind_eq_Inr dest: append_entries_stamped split: prod.splits)

text \<open>Terms only rise.\<close>

lemma update_term_rises:
  assumes "inner_ok env w" and "update_term env (store w) t = Inr (s, b)"
  shows "current_term s = max (term_of w) t" and "term_of w \<le> current_term s"
proof -
  show "current_term s = max (term_of w) t"
    using update_term_node(3) [OF inner_ok_node [OF assms(1)] assms(2)] by simp
  then show "term_of w \<le> current_term s" by simp
qed

lemma rpc_votes_moves:
  assumes "inner_ok env w" and "update_term env (store w) t = Inr (s, b)"
    and "handle_request_vote env (w\<lparr>store := s\<rparr>) req = Inr (w', resp)"
  shows "moves env ev w w' [RpcReply tx (RequestVoteR resp)] r"
  using handle_request_vote_spec(3,4,6) [OF update_term_inner(3) [OF assms(1,2)] assms(3)]
    update_term_inner(2) [OF assms(1,2)] update_term_rises(2) [OF assms(1,2)]
  by (simp add: moves_def moved_same)

lemma rpc_appends_moves:
  assumes ok: "inner_ok env w" and u: "update_term env (store w) (ae_term q) = Inr (s, b)"
    and h: "handle_append_entries env (w\<lparr>store := s, leader_id := l\<rparr>) q = Inr (w', resp)"
    and ix: "event_indexed (RpcEvent (AppendEntries q) tx)" and st: "stamped r w' out"
  shows "moves env (RpcEvent (AppendEntries q) tx) w w' out r"
proof -
  from ix have "indexed_from le_idx (unat (ae_prev_log_index q)) (ae_entries q)" by (simp add: event_indexed_def)
  note sp = handle_append_entries_spec [OF update_term_inner(1) [OF ok u] h this]
  note t = update_term_rises [OF ok u] and l = update_term_inner(2) [OF ok u]
  have "moved env (RpcEvent (AppendEntries q) tx) r w w'"
  proof (cases "aer_success resp")
    case True
    with sp t have "ae_term q = current_term s" by (auto simp: max_def split: if_splits)
    with True sp t(2) l have "term_of w \<le> term_of w' \<and> absorbed env q w w'" by (simp add: absorbed_def)
    then show ?thesis by (auto simp: moved_def)
  next
    case False
    with sp t(2) l show ?thesis by (simp add: moved_same)
  qed
  with st show ?thesis by (simp add: moves_def)
qed

lemma candidate_start_moves:
  assumes ok: "inner_ok env w" and h: "candidate_start env w = Inr (w', v, out)" and max: "term_of w \<noteq> - 1"
  shows "moves env ev w w' out r"
proof -
  note m = candidate_start_meta [OF inner_ok_node [OF ok] h]
  from m obtain calls where c: "request_votes env w' = Inr calls" and out: "out = calls @ [ResetElectionTimeout]"
    by auto
  have "stamped r w' calls"
    using c by (auto simp: request_votes_def stamped_def Let_def rbind_eq_Inr split: if_splits)
  moreover have "entries_of env w' = entries_of env w"
    using candidate_start_log [OF ok h] by (simp add: log_step_def)
  moreover have "term_of w \<le> term_of w'" using m word_less_plus_one [OF max] by simp
  ultimately show ?thesis using m by (simp add: moves_def moved_same out)
qed

lemma handle_debug_stamped [simp]: "stamped r w (handle_debug d w' tx)"
  by (simp add: handle_debug_def)

lemma handle_client_request_moves:
  assumes ok: "inner_ok env w" and room: "room w 102"
    and h: "handle_client_request env w l req tx = Inr (w', l', out)"
  shows "moves env ev w w' out LeaderRole"
proof (cases req)
  case (Apply cmd)
  with h obtain o1 where u: "handle_log_update env w l cmd tx = Inr (w', l', o1)" and out: "out = o1 @ [ResetHeartbeat]"
    by (auto simp: handle_client_request_def rbind_eq_Inr)
  have "unat (last_log_index (store w)) < 2 ^ 64 - 2" using room by (simp add: room_def)
  from handle_log_update_log [OF ok this u] obtain e where "entries_of env w' = entries_of env w @ [e]"
    "term_of w' = term_of w" "le_term e = term_of w" by (auto simp: log_step_def)
  moreover from u obtain s l1 where "w' = w\<lparr>store := s\<rparr>" "append_entries_all env w' l1 (peers w') = Inr (l', o1)"
    by (auto simp: handle_log_update_def Let_def rbind_eq_Inr)
  then have "commit_index w' = commit_index w" "stamped LeaderRole w' o1"
    using append_entries_all_stamped [of env w' l1 "peers w'"] by simp_all
  ultimately show ?thesis by (simp add: moves_def moved_def extended_def out)
next
  case Debug
  with h show ?thesis by (auto simp: handle_client_request_def moves_def)
qed

lemma handle_append_entries_response_moves:
  assumes ok: "inner_ok env w" and h: "handle_append_entries_response env w l p i j res = Inr (w', l', out, ch)"
  shows "moves env ev w w' out (if ch = BecomeFollower then FollowerRole else LeaderRole)"
proof (cases "out = [] \<and> w' = w")
  case False
  then obtain resp where res: "res = Inr (AppendEntriesR resp)"
    using h by (auto simp: handle_append_entries_response_def Let_def split: sum.splits RpcResponse.splits)
  with h obtain s b where u: "update_term env (store w) (aer_term resp) = Inr (s, b)"
    by (auto simp: handle_append_entries_response_def Let_def rbind_eq_Inr)
  have w': "w' = w\<lparr>store := s\<rparr>" and
    c: "out = [] \<or> ch \<noteq> BecomeFollower \<and> (\<exists>l1 l2. append_entries env w' l1 p = Inr (l2, out))"
    using h res u by (auto simp: handle_append_entries_response_def Let_def rbind_eq_Inr split: if_splits option.splits)
  from c have "stamped (if ch = BecomeFollower then FollowerRole else LeaderRole) w' out"
    using append_entries_stamped by fastforce
  then show ?thesis
    using update_term_inner(2) [OF ok u] update_term_rises(2) [OF ok u] by (simp add: moves_def moved_same w')
qed (simp add: moves_def)

text \<open>The RPCs, on each role.\<close>

lemma follower_rpc_moves:
  assumes ok: "inner_ok env w" and ix: "event_indexed (RpcEvent rpc tx)"
    and h: "follower_handle_rpc env w rpc tx = Inr (w', out)"
  shows "moves env (RpcEvent rpc tx) w w' out r"
proof (cases rpc)
  case (AppendEntries q)
  with h obtain s b resp where u: "update_term env (store w) (ae_term q) = Inr (s, b)"
    "handle_append_entries env (w\<lparr>store := s, leader_id := Some (ae_leader_id q)\<rparr>) q = Inr (w', resp)"
    and out: "out = [RpcReply tx (AppendEntriesR resp), ResetElectionTimeout]"
    by (auto simp: follower_handle_rpc_def rbind_eq_Inr)
  show ?thesis using rpc_appends_moves [OF ok u, of tx r out] ix by (simp add: AppendEntries out)
next
  case (RequestVote q)
  with h obtain s b resp where u: "update_term env (store w) (rv_term q) = Inr (s, b)"
    "handle_request_vote env (w\<lparr>store := s\<rparr>) q = Inr (w', resp)" and out: "out = [RpcReply tx (RequestVoteR resp)]"
    by (auto simp: follower_handle_rpc_def rbind_eq_Inr)
  show ?thesis unfolding out by (rule rpc_votes_moves [OF ok u])
qed (use h in \<open>auto simp: follower_handle_rpc_def moves_def\<close>)

lemma candidate_rpc_moves:
  assumes ok: "inner_ok env w" and ix: "event_indexed (RpcEvent rpc tx)"
    and h: "candidate_handle_rpc env w rpc tx = Inr (w', out, ch)"
  shows "moves env (RpcEvent rpc tx) w w' out r"
proof (cases rpc)
  case (AppendEntries q)
  with h obtain s b resp where u: "update_term env (store w) (ae_term q) = Inr (s, b)"
    "handle_append_entries env (w\<lparr>store := s, leader_id := leader_id w\<rparr>) q = Inr (w', resp)"
    and out: "out = [RpcReply tx (AppendEntriesR resp)]"
    by (auto simp: candidate_handle_rpc_def rbind_eq_Inr)
  show ?thesis using rpc_appends_moves [OF ok u, of tx r out] ix by (simp add: AppendEntries out)
next
  case (RequestVote q)
  with h obtain s b resp where u: "update_term env (store w) (rv_term q) = Inr (s, b)"
    "handle_request_vote env (w\<lparr>store := s\<rparr>) q = Inr (w', resp)" and out: "out = [RpcReply tx (RequestVoteR resp)]"
    by (auto simp: candidate_handle_rpc_def rbind_eq_Inr)
  show ?thesis unfolding out by (rule rpc_votes_moves [OF ok u])
qed (use h in \<open>auto simp: candidate_handle_rpc_def moves_def\<close>)

lemma leader_rpc_moves:
  assumes ok: "inner_ok env w" and room: "room w 102" and ix: "event_indexed (RpcEvent rpc tx)"
    and h: "leader_handle_rpc env w l rpc tx = Inr (w', l', out, ch)"
  shows "moves env (RpcEvent rpc tx) w w' out (if ch = BecomeFollower then FollowerRole else LeaderRole)"
    (is "moves env ?ev w w' out ?r")
proof (cases rpc)
  case (AppendEntries q)
  with h obtain s b where u: "update_term env (store w) (ae_term q) = Inr (s, b)"
    by (auto simp: leader_handle_rpc_def Let_def rbind_eq_Inr)
  show ?thesis
  proof (cases b)
    case True
    with h u AppendEntries obtain resp where
      r: "handle_append_entries env (w\<lparr>store := s, leader_id := leader_id w\<rparr>) q = Inr (w', resp)"
      and out: "out = [RpcReply tx (AppendEntriesR resp)]"
      by (auto simp: leader_handle_rpc_def Let_def rbind_eq_Inr)
    show ?thesis using rpc_appends_moves [OF ok u r, of tx ?r out] ix by (simp add: AppendEntries out)
  next
    case False
    with h u AppendEntries update_term_inner(2) [OF ok u] update_term_rises(2) [OF ok u] show ?thesis
      by (auto simp: leader_handle_rpc_def Let_def moves_def intro: moved_same)
  qed
next
  case (RequestVote q)
  with h obtain s b where u: "update_term env (store w) (rv_term q) = Inr (s, b)"
    by (auto simp: leader_handle_rpc_def Let_def rbind_eq_Inr)
  show ?thesis
  proof (cases b)
    case True
    with h u RequestVote obtain resp where r: "handle_request_vote env (w\<lparr>store := s\<rparr>) q = Inr (w', resp)"
      and out: "out = [RpcReply tx (RequestVoteR resp)]"
      by (auto simp: leader_handle_rpc_def Let_def rbind_eq_Inr)
    show ?thesis unfolding out by (rule rpc_votes_moves [OF ok u r])
  next
    case False
    with h u RequestVote update_term_inner(2) [OF ok u] update_term_rises(2) [OF ok u] show ?thesis
      by (auto simp: leader_handle_rpc_def Let_def moves_def intro: moved_same)
  qed
next
  case (ForwardClientRequest req)
  with h have "handle_client_request env w l req (RelayTx tx) = Inr (w', l', out)" "ch = Continue"
    by (auto simp: leader_handle_rpc_def Let_def rbind_eq_Inr)
  with handle_client_request_moves [OF ok room this(1)] show ?thesis by simp
qed

lemma handled_moves:
  assumes ok: "inner_ok env (inner_of st)" and room: "room (inner_of st) 102"
    and max: "term_of (inner_of st) \<noteq> - 1" and ix: "event_indexed ev" and h: "handled env st ev w out r"
  shows "moves env ev (inner_of st) w out r"
  using h
proof cases
  case (follower_rpc w0 rpc tx)
  with follower_rpc_moves [OF _ ix [unfolded follower_rpc(2)]] ok show ?thesis by simp
next
  case (follower_client req tx)
  then show ?thesis by (auto simp: moves_def follower_handle_client_def forward_client_request_def
      split: ClientRequest.splits option.splits)
next
  case (follower_timeout w0 v)
  have "inner_ok env (w0\<lparr>leader_id := None\<rparr>)" "term_of (w0\<lparr>leader_id := None\<rparr>) \<noteq> - 1"
    using ok max follower_timeout(1) by (simp_all add: inner_ok_def)
  from candidate_start_moves [OF this(1) follower_timeout(4) this(2)] follower_timeout(1) show ?thesis by simp
next
  case (candidate_rpc w0 rpc tx ch v)
  with candidate_rpc_moves [OF _ ix [unfolded candidate_rpc(2)]] ok show ?thesis by simp
next
  case (candidate_client v req tx)
  then show ?thesis by (auto simp: moves_def candidate_handle_client_def split: ClientRequest.splits)
next
  case (candidate_timeout w0 v' v)
  with candidate_start_moves ok max show ?thesis by simp
next
  case (leader_rpc w0 l rpc tx l' ch)
  with leader_rpc_moves [OF _ _ ix [unfolded leader_rpc(2)]] ok room show ?thesis by simp
next
  case (leader_response w0 l p i j res l' ch)
  from ok leader_response(1) have "inner_ok env w0" by simp
  from handle_append_entries_response_moves [OF this leader_response(4)] show ?thesis
    using leader_response(1-3) by (simp only: inner_of.simps)
next
  case (leader_client w0 l req tx l')
  with handle_client_request_moves ok room show ?thesis by simp
next
  case (leader_timer l l')
  then obtain o1 where a: "append_entries_all env w l (peers w) = Inr (l', o1)" "out = o1 @ [ResetHeartbeat]"
    by (auto simp: leader_heartbeat_def rbind_eq_Inr)
  with append_entries_all_stamped [OF a(1)] leader_timer show ?thesis by (simp add: moves_def)
qed (auto simp: moves_def moved_same handle_new_peer_def connection_lost_def)

section \<open>A step\<close>

text \<open>While it waits, only a leader commits.\<close>

lemma leader_wait_commits:
  assumes ok: "inner_ok env w" and max: "commit_index w \<noteq> - 1" and h: "leader_wait env w l = Inr (st', out)"
  shows "commit_index w \<le> commit_index (inner_of st')"
proof -
  let ?done = "takeWhile (committable env w l) (range_incl (commit_index w + 1) (last_log_index (store w)))"
  let ?w = "if ?done = [] then w else w\<lparr>commit_index := last ?done\<rparr>"
  have "storage_ok env (store w)" using ok by (simp add: inner_ok_def)
  from advance_commit_spec [OF this max, of l] h obtain w' o2 where a: "apply_log env ?w = Inr (w', o2)"
    and st': "inner_of st' = w'" by (auto simp: leader_wait_def rbind_eq_Inr)
  have "commit_index w < last ?done" if "?done \<noteq> []"
    using last_in_set [OF that] word_less_plus_one [OF max]
    by (auto simp: set_range_incl dest!: set_takeWhileD intro: less_le_trans)
  then have "commit_index w \<le> commit_index ?w" by (simp add: less_imp_le)
  with apply_log_quiet [OF a] show ?thesis by (simp add: st')
qed

lemma waits_commits:
  assumes "waits env w r (Inr (st', out))" and ok: "inner_ok env w" and ci: "r = LeaderRole \<Longrightarrow> commit_index w \<noteq> - 1"
  shows "commit_index w \<le> commit_index (inner_of st')"
    and "r \<noteq> LeaderRole \<Longrightarrow> commit_index (inner_of st') = commit_index w"
proof -
  have "commit_index w \<le> commit_index (inner_of st') \<and>
      (r \<noteq> LeaderRole \<longrightarrow> commit_index (inner_of st') = commit_index w)"
    using assms(1)
  proof cases
    case follower
    then show ?thesis by (auto simp: follower_wait_def rbind_eq_Inr eq_commute [of "Inr (st', out)"]
        dest!: apply_log_quiet)
  next
    case falls_back
    then show ?thesis by (auto simp: to_follower_def after_eq_Inr follower_wait_def rbind_eq_Inr
        eq_commute [of "Inr (st', out)"] dest!: apply_log_quiet)
  next
    case (candidate v)
    then show ?thesis by (auto simp: candidate_wait_def rbind_eq_Inr eq_commute [of "Inr (st', out)"]
        dest!: apply_log_quiet)
  next
    case (leader l)
    with leader_wait_commits [OF ok, of l st' out] ci show ?thesis by simp
  next
    case takes_over
    let ?w = "w\<lparr>leader_id := Some (node_id w)\<rparr>"
    have "inner_ok env ?w" "commit_index ?w \<noteq> - 1" using ok ci takes_over(1) by (simp_all add: inner_ok_def)
    from leader_wait_commits [OF this, of _ st' out] takes_over show ?thesis by (simp add: to_leader_def become_leader_def)
  qed
  then show "commit_index w \<le> commit_index (inner_of st')"
    and "r \<noteq> LeaderRole \<Longrightarrow> commit_index (inner_of st') = commit_index w" by auto
qed

text \<open>
  The two parts of a step together. Where a leader comes out, its commit index is at least what its
  calls say; where none does, the commit index is that of the handler.
\<close>

definition step_moves :: "'cmd env \<Rightarrow> RaftWorkerState \<Rightarrow> 'cmd event \<Rightarrow> RaftWorkerState \<Rightarrow> 'cmd effect list \<Rightarrow> bool" where
  "step_moves env st ev st' out \<longleftrightarrow>
     (\<exists>w. moved env ev (role_of st') (inner_of st) w \<and> store w = store (inner_of st') \<and>
       (role_of st' = LeaderRole \<or> commit_index (inner_of st') = commit_index w)) \<and>
     (\<forall>q \<in> sent out. role_of st' = LeaderRole \<and> ae_term q = term_of (inner_of st') \<and>
       ae_leader_commit q \<le> commit_index (inner_of st'))"

theorem step_moves:
  assumes ok: "inner_ok env (inner_of st)" and room: "room (inner_of st) 102" and c: "commits_ok (inner_of st)"
    and max: "term_of (inner_of st) \<noteq> - 1" and ev: "carried ev" and step: "worker_step env st ev = Inr (st', out)"
  shows "step_moves env st ev st' out"
  using worker_step_waits [OF step] unfolding step_parts_def
proof (elim disjE exE conjE)
  fix w o1 o2
  assume h: "handled env st ev w o1 (role_of st')" and out: "out = o1 @ o2" and wt: "waits env w (role_of st') (Inr (st', o2))"
  note q = waits_quiet [OF wt]
  have "event_indexed ev" using ev by (simp add: carried_def)
  note mv = handled_moves [OF ok room max this h]
  note ci = handled_commit_max [OF ok room h ev handled_kept [OF ok room c ev h]]
  have "inner_ok env (inner_of st')" using step_log [OF ok _ _ step] room ev
    by (auto simp: log_step_def room_def carried_def)
  then have "inner_ok env w" using q quiet_inner_ok by blast
  note wc = waits_commits [OF wt this ci]
  have s: "store w = store (inner_of st')" using q by (simp add: quiet_def)
  have "sent out = sent o1" using q local_sent [of o2] by (simp add: out)
  with mv s wc show ?thesis unfolding step_moves_def moves_def stamped_def by metis
next
  assume "st' = st" "out = []"
  then show ?thesis unfolding step_moves_def by (intro conjI exI [of _ "inner_of st'"]) simp_all
qed

end
