(* ===== verification/Agreement.thy ===== *)
theory Agreement
  imports Moves
begin

text \<open>
  Whether the state machines of a cluster agree. Every command a state machine gets was committed
  by a leader, in its log; so if a leader's log always holds what the leaders of earlier terms had
  committed, any two state machines got the same commands, one possibly fewer. The source does not
  keep this condition (theorem \<open>committed_entry_lost\<close>); here it is shown to be the only thing
  missing.
\<close>

section \<open>Merges\<close>

text \<open>A merge keeps what the log shares with the sender's, and takes in what is sent.\<close>

lemma merge_keeps:
  assumes "\<And>i. i < k \<Longrightarrow> i < length m \<Longrightarrow> l ! i = m ! i" and "k \<le> length l"
  shows "es = take j (drop p m) \<Longrightarrow> p \<le> length l \<Longrightarrow> take k (raft_merge tm l p es) = take k l"
proof (induction es arbitrary: p j)
  case (Cons e es)
  from Cons.prems(1) have p: "p < length m" by (cases "p < length m") auto
  have e: "e = m ! p" and es: "es = take (j - 1) (drop (Suc p) m)"
    using Cons.prems(1) p by (cases j; simp add: Cons_nth_drop_Suc [symmetric])+
  show ?case
  proof (cases "p < length l \<and> tm (l ! p) = tm e")
    case True
    with Cons.IH [OF es] show ?thesis by simp
  next
    case False
    with assms(1) [of p] e p assms(2) have "k \<le> p" by (cases "p < k") auto
    with False Cons.prems(2) show ?thesis by auto
  qed
qed simp

lemma merge_takes_in:
  assumes "copied h b l" and "copied h b m"
  shows "take p l = take p m \<Longrightarrow> p \<le> length l \<Longrightarrow> p \<le> length m \<Longrightarrow> es = take k (drop p m) \<Longrightarrow>
    take (p + length es) (raft_merge le_term l p es) = take (p + length es) m"
proof (induction es arbitrary: p k)
  case (Cons e es)
  from Cons.prems(4) have p: "p < length m" by (cases "p < length m") auto
  have e: "e = m ! p" and es: "es = take (k - 1) (drop (Suc p) m)"
    using Cons.prems(4) p by (cases k; simp add: Cons_nth_drop_Suc [symmetric])+
  show ?case
  proof (cases "p < length l \<and> le_term (l ! p) = le_term e")
    case True
    then have "take (Suc p) l = take (Suc p) m" using copied_agree [OF assms, of p] p e by simp
    from Cons.IH [OF this _ _ es] True p show ?thesis by simp
  next
    case False
    have "take p l @ e # es = take p m @ take k (drop p m)" using Cons.prems(1,4) by simp
    also have "... = take (p + k) m" by (simp add: take_add)
    finally have "take p l @ e # es = take (p + k) m" .
    moreover from arg_cong [OF this, of length] Cons.prems(2) have "p + length (e # es) = min (length m) (p + k)"
      by (auto simp: min_def split: if_splits)
    ultimately have "take (p + length (e # es)) (take p l @ e # es) = take (p + length (e # es)) m" by (simp add: min_def)
    with False show ?thesis by auto
  qed
qed simp

section \<open>What leaders committed\<close>

text \<open>A leader at some moment: its term, its log and its commit index.\<close>

type_synonym 'cmd view = "TermIndex \<times> 'cmd LogEntry list \<times> LogIndex"

definition views_of :: "'cmd env \<Rightarrow> 'cmd cluster \<Rightarrow> 'cmd view set" where
  "views_of env cl = {(term_of w, entries_of env w, commit_index w) | n w l. nodes cl n = Some (RaftWorkerState.Leader w l)}"

text \<open>
  Leader completeness, as the condition it is here: the log of a leader begins with what a leader
  of an earlier term had committed.
\<close>

definition leaders_complete :: "'cmd view set \<Rightarrow> bool" where
  "leaders_complete V \<longleftrightarrow> (\<forall>(t, m, c) \<in> V. \<forall>(t', m', c') \<in> V. t < t' \<longrightarrow> prefix (take (unat c) m) m')"

lemma leaders_complete_mono: "leaders_complete W \<Longrightarrow> V \<subseteq> W \<Longrightarrow> leaders_complete V"
  unfolding leaders_complete_def by blast

text \<open>The views of a run: copies of the histories, each the history of its own term up to then.\<close>

definition historic :: "(TermIndex \<Rightarrow> 'cmd LogEntry list) \<Rightarrow> nat \<Rightarrow> 'cmd view set \<Rightarrow> bool" where
  "historic h b V \<longleftrightarrow> (\<forall>(t, m, c) \<in> V. copied h b m \<and> prefix m (h t))"

text \<open>A list of entries that a leader, of a term up to \<open>t\<close>, had committed.\<close>

definition backed :: "'cmd view set \<Rightarrow> TermIndex \<Rightarrow> 'cmd LogEntry list \<Rightarrow> bool" where
  "backed V t l \<longleftrightarrow> l = [] \<or> (\<exists>u m c. (u, m, c) \<in> V \<and> u \<le> t \<and> prefix l (take (unat c) m))"

definition backed_call :: "'cmd view set \<Rightarrow> 'cmd AppendEntriesRequest \<Rightarrow> bool" where
  "backed_call V q \<longleftrightarrow> (\<exists>m c. (ae_term q, m, c) \<in> V \<and> segment m q \<and> ae_leader_commit q \<le> c)"

definition backed_node :: "'cmd env \<Rightarrow> 'cmd view set \<Rightarrow> 'cmd list \<Rightarrow> Inner \<Rightarrow> bool" where
  "backed_node env V cs w \<longleftrightarrow> (let l = take (unat (last_applied w)) (entries_of env w)
     in cs = map le_cmd l \<and> backed V (term_of w) l)"

lemma backed_mono: "backed V t l \<Longrightarrow> t \<le> t' \<Longrightarrow> backed V t' l"
  unfolding backed_def by (meson order_trans)

text \<open>What was committed up to a term goes with every view of that term or a later one.\<close>

lemma backed_view:
  assumes hist: "historic h b V" and comp: "leaders_complete V" and bk: "backed V t l" and v: "(u, m, c) \<in> V" and t: "t \<le> u"
  shows "prefix l m \<or> prefix m l"
proof (cases "l = []")
  case False
  with bk obtain u0 m0 c0 where v0: "(u0, m0, c0) \<in> V" "u0 \<le> t" and l: "prefix l (take (unat c0) m0)"
    unfolding backed_def by blast
  show ?thesis
  proof (cases "u0 < u")
    case True
    with comp v0(1) v have "prefix (take (unat c0) m0) m" unfolding leaders_complete_def by fastforce
    with l prefix_order.trans show ?thesis by blast
  next
    case False
    with v0(2) t have "u0 = u" by simp
    with hist v v0(1) have "prefix m (h u)" "prefix m0 (h u)" unfolding historic_def by fastforce+
    moreover have "prefix l m0" using l take_is_prefix prefix_order.trans by blast
    ultimately show ?thesis by (meson prefix_order.trans prefix_same_cases)
  qed
qed simp

text \<open>Two lists that leaders committed are one the beginning of the other.\<close>

lemma backed_by_view:
  assumes "historic h b V" and "leaders_complete V" and "backed V u l" and v: "(u, m, c) \<in> V" "prefix l' (take (unat c) m)"
  shows "prefix l l' \<or> prefix l' l"
proof -
  have "prefix l' m" using v(2) take_is_prefix prefix_order.trans by blast
  with backed_view [OF assms(1-3) v(1)] show ?thesis by (meson order_refl prefix_order.trans prefix_same_cases)
qed

theorem backed_agree:
  assumes V: "historic h b V" "leaders_complete V" and l: "backed V t l" and l': "backed V t' l'"
  shows "prefix l l' \<or> prefix l' l"
proof (cases "l = [] \<or> l' = []")
  case False
  with l l' obtain u m c u' m' c' where v: "(u, m, c) \<in> V" "prefix l (take (unat c) m)"
    and v': "(u', m', c') \<in> V" "prefix l' (take (unat c') m')" unfolding backed_def by blast
  from v v' have b: "u \<le> u' \<Longrightarrow> backed V u' l" "u' \<le> u \<Longrightarrow> backed V u l'" unfolding backed_def by blast+
  show ?thesis using backed_by_view [OF V b(1) v'] backed_by_view [OF V b(2) v] linear [of u u'] by blast
qed auto

section \<open>One node's step\<close>

text \<open>
  What a request of a leader brings: the log keeps its first \<open>k\<close> entries, if a leader of an earlier
  term committed them, and what the node then commits is what the leader had committed.
\<close>

lemma absorbed_keeps:
  assumes V: "historic h b V" "leaders_complete V" and l: "copied h b (entries_of env w)"
    and q: "backed_call V q" and ab: "absorbed env q w w'" and t: "term_of w \<le> term_of w'"
    and bk: "backed V (term_of w) (take k (entries_of env w))" and k: "k \<le> length (entries_of env w)"
  shows "take k (entries_of env w') = take k (entries_of env w)"
proof -
  let ?l = "entries_of env w"
  from q ab obtain m c where v: "(term_of w', m, c) \<in> V" and seg: "segment m q"
    by (auto simp: backed_call_def absorbed_def)
  have m: "copied h b m" using V(1) v by (auto simp: historic_def)
  from ab have "prev_matches ?l (ae_prev_log_index q) (ae_prev_log_term q)" by (simp add: absorbed_def)
  from segment_prev [OF l m seg this] obtain j
    where j: "ae_entries q = take j (drop (unat (ae_prev_log_index q)) m)" "unat (ae_prev_log_index q) \<le> length ?l" by metis
  have "?l ! i = m ! i" if "i < k" "i < length m" for i
    using comparable_nth [OF backed_view [OF V bk v t]] that k by simp
  from merge_keeps [OF this k j] ab show ?thesis by (simp add: absorbed_def)
qed

lemma absorbed_reach:
  assumes q: "carried (RpcEvent (AppendEntries q) tx)" and ab: "absorbed env q w w'" and new: "commit_index w' \<noteq> commit_index w"
  shows "unat (commit_index w') \<le> unat (ae_leader_commit q) \<and>
    unat (commit_index w') \<le> unat (ae_prev_log_index q) + length (ae_entries q)"
proof -
  from q have ix: "indexed_from le_idx (unat (ae_prev_log_index q)) (ae_entries q)" and cc: "commit_carried q"
    by (simp_all add: carried_def event_indexed_def)
  show ?thesis
  proof (cases "ae_entries q = []")
    case True
    with ab new cc show ?thesis by (auto simp: absorbed_def commit_carried_def word_le_nat_alt split: if_splits)
  next
    case False
    with ab new have "commit_index w' = min (ae_leader_commit q) (le_idx (last (ae_entries q)))"
      by (auto simp: absorbed_def split: if_splits)
    then have "commit_index w' \<le> ae_leader_commit q" "commit_index w' \<le> le_idx (last (ae_entries q))" by simp_all
    with indexed_last [OF ix False] show ?thesis by (simp add: word_le_nat_alt)
  qed
qed

lemma absorbed_commits:
  assumes V: "historic h b V" and l: "copied h b (entries_of env w)"
    and q: "backed_call V q" "carried (RpcEvent (AppendEntries q) tx)" and ab: "absorbed env q w w'"
    and k: "k \<le> unat (commit_index w')" and new: "commit_index w' \<noteq> commit_index w"
  shows "backed V (term_of w') (take k (entries_of env w'))"
proof -
  let ?l = "entries_of env w" and ?p = "unat (ae_prev_log_index q)" and ?n = "length (ae_entries q)"
  from q(1) ab obtain m c where v: "(term_of w', m, c) \<in> V" "segment m q" "ae_leader_commit q \<le> c"
    by (auto simp: backed_call_def absorbed_def)
  have m: "copied h b m" using V v(1) by (auto simp: historic_def)
  from ab have pm: "prev_matches ?l (ae_prev_log_index q) (ae_prev_log_term q)"
    and mg: "entries_of env w' = raft_merge le_term ?l ?p (ae_entries q)" by (simp_all add: absorbed_def)
  from segment_prev [OF l m v(2) pm] obtain j
    where j: "ae_entries q = take j (drop ?p m)" "?p \<le> length m" "?p \<le> length ?l" "take ?p ?l = take ?p m" by metis
  have tin: "take (?p + ?n) (entries_of env w') = take (?p + ?n) m"
    unfolding mg by (rule merge_takes_in [OF l m j(4,3,2,1)])
  note c = absorbed_reach [OF q(2) ab new]
  have "take k (entries_of env w') = take k m"
    using arg_cong [OF tin, of "take k"] c k by (simp add: min_absorb1)
  moreover have "prefix (take k m) (take (unat c) m)"
    by (rule prefix_takes) (use c k v(3) in \<open>simp add: word_le_nat_alt\<close>)
  ultimately show ?thesis unfolding backed_def using v(1) by auto
qed

text \<open>A step keeps what the state machine got, and adds what a leader committed.\<close>

lemma step_backed:
  assumes V: "historic h b V" "leaders_complete V" and l: "copied h b (entries_of env (inner_of st))"
    and ok: "inner_ok env (inner_of st)" and room: "room (inner_of st) 102" and c: "commits_ok (inner_of st)"
    and ap: "commit_index (inner_of st) \<le> last_applied (inner_of st)" and max: "term_of (inner_of st) \<noteq> - 1"
    and ev: "carried ev" and src: "\<And>q tx. ev = RpcEvent (AppendEntries q) tx \<Longrightarrow> backed_call V q"
    and step: "worker_step env st ev = Inr (st', out)"
    and lead: "role_of st' = LeaderRole \<Longrightarrow> (term_of (inner_of st'), entries_of env (inner_of st'), commit_index (inner_of st')) \<in> V"
    and bk: "backed_node env V cs (inner_of st)"
  shows "backed_node env V (cs @ handed out) (inner_of st')" and "\<And>q. q \<in> sent out \<Longrightarrow> backed_call V q"
proof -
  let ?w = "inner_of st" and ?w' = "inner_of st'"
  let ?a = "unat (last_applied ?w)" and ?a' = "unat (last_applied ?w')"
  from step_moves [OF ok room c max ev step] obtain w where mv: "moved env ev (role_of st') ?w w" and s: "store w = store ?w'"
    and ci: "role_of st' = LeaderRole \<or> commit_index ?w' = commit_index w"
    and calls: "\<And>q. q \<in> sent out \<Longrightarrow> role_of st' = LeaderRole \<and> ae_term q = term_of ?w' \<and> ae_leader_commit q \<le> commit_index ?w'"
    unfolding step_moves_def by blast
  have t: "term_of ?w \<le> term_of ?w'" using mv by (simp add: moved_def s)
  have "length (entries_of env ?w) = unat (last_log_index (store ?w))" by simp
  then have a: "?a \<le> length (entries_of env ?w)" using c by (simp add: commits_ok_def word_le_nat_alt)
  from bk have cs: "cs = map le_cmd (take ?a (entries_of env ?w))" and b0: "backed V (term_of ?w) (take ?a (entries_of env ?w))"
    by (simp_all add: backed_node_def Let_def)
  have keep: "take ?a (entries_of env ?w') = take ?a (entries_of env ?w)"
    using mv unfolding moved_def
  proof (elim conjE disjE exE)
    assume "extended env (role_of st') ?w w"
    then have "prefix (entries_of env ?w) (entries_of env ?w')" by (auto simp: extended_def s)
    from take_prefix [OF this a] show ?thesis .
  next
    fix q tx assume t: "term_of ?w \<le> term_of w" and q: "ev = RpcEvent (AppendEntries q) tx" "absorbed env q ?w w"
    from absorbed_keeps [OF V l src [OF q(1)] q(2) t b0 a] show ?thesis by (simp add: s)
  qed
  have ap': "applies env ?w ?w' out" by (rule step_applies(1) [OF ok room c ap ev step])
  then have ha: "handed out = map le_cmd (drop ?a (take ?a' (entries_of env ?w')))"
    and le: "last_applied ?w \<le> last_applied ?w'" and "last_applied ?w' \<le> max (last_applied ?w) (commit_index ?w')"
    unfolding applies_def by blast+
  then have up: "?a' \<le> ?a \<or> last_applied ?w' \<le> commit_index ?w'" by (metis le_max_iff_disj word_le_nat_alt)
  from le have le: "?a \<le> ?a'" by (simp add: word_le_nat_alt)
  have cmds: "cs @ handed out = map le_cmd (take ?a' (entries_of env ?w'))"
  proof -
    have "take ?a (take ?a' (entries_of env ?w')) = take ?a (entries_of env ?w')" using le by (simp add: min_absorb1)
    then have "cs @ handed out = map le_cmd (take ?a (take ?a' (entries_of env ?w')) @ drop ?a (take ?a' (entries_of env ?w')))"
      by (simp add: cs ha keep)
    then show ?thesis by (simp only: append_take_drop_id)
  qed
  have "backed V (term_of ?w') (take ?a' (entries_of env ?w'))"
  proof (cases "?a' \<le> ?a")
    case True
    with le have "?a' = ?a" by simp
    with keep backed_mono [OF b0 t] show ?thesis by simp
  next
    case False
    with up have c': "last_applied ?w' \<le> commit_index ?w'" by simp
    show ?thesis
    proof (cases "role_of st' = LeaderRole")
      case True
      have "prefix (take ?a' (entries_of env ?w')) (take (unat (commit_index ?w')) (entries_of env ?w'))"
        by (rule prefix_takes) (use c' in \<open>simp add: word_le_nat_alt\<close>)
      with lead [OF True] show ?thesis unfolding backed_def by blast
    next
      case nolead: False
      with ci have cw: "commit_index ?w' = commit_index w" by simp
      have new: "commit_index w \<noteq> commit_index ?w"
        using False c' ap by (auto simp: cw word_le_nat_alt)
      then obtain q tx where q: "ev = RpcEvent (AppendEntries q) tx" "absorbed env q ?w w"
        using mv by (auto simp: moved_def extended_def)
      have "?a' \<le> unat (commit_index w)" using c' by (simp add: cw word_le_nat_alt)
      from absorbed_commits [OF V(1) l src [OF q(1)] ev [unfolded q(1)] q(2) this new] show ?thesis by (simp add: s)
    qed
  qed
  with cmds show "backed_node env V (cs @ handed out) ?w'" by (simp add: backed_node_def Let_def)
  show "backed_call V q" if q: "q \<in> sent out" for q
  proof -
    from q obtain p i j where "CallAppend p i j q \<in> set out" by (rule sentE)
    moreover have "calls_ok (entries_of env ?w') out"
      using step_log [OF ok _ _ step] room ev by (auto simp: log_step_def room_def carried_def)
    ultimately have "segment (entries_of env ?w') q" by (simp add: calls_ok_def)
    with calls [OF q] lead show ?thesis unfolding backed_call_def by auto
  qed
qed

section \<open>The cluster\<close>

text \<open>
  Every state machine got what some leader had committed; a node that runs got it from its log; and
  every request that is under way says what its leader had committed. The views \<open>V\<close> are those of
  the whole run.
\<close>

definition agreed :: "'cmd env \<Rightarrow> 'cmd view set \<Rightarrow> 'cmd cluster \<Rightarrow> bool" where
  "agreed env V cl \<longleftrightarrow>
     (\<forall>n. \<exists>t l. backed V t l \<and> applied cl n = map le_cmd l) \<and>
     (\<forall>n st. nodes cl n = Some st \<longrightarrow> backed_node env V (applied cl n) (inner_of st)) \<and>
     set (net cl) \<subseteq> append_packets {q. backed_call V q}"

definition agreed_before ::
  "'cmd env \<Rightarrow> (TermIndex \<Rightarrow> 'cmd LogEntry list) \<Rightarrow> nat \<Rightarrow> 'cmd view set \<Rightarrow> (NodeId \<Rightarrow> nat \<Rightarrow> 'cmd list) \<Rightarrow>
   'cmd lsys \<Rightarrow> 'cmd cluster \<Rightarrow> bool" where
  "agreed_before env h k V b s cl \<longleftrightarrow> agreed env V cl \<and> applied_before env b s cl \<and> below_max cl \<and>
     (\<forall>n st. nodes cl n = Some st \<longrightarrow> copied h k (entries_of env (inner_of st)))"

definition agreed_after :: "'cmd env \<Rightarrow> 'cmd view set \<Rightarrow> 'cmd cluster \<Rightarrow> bool" where
  "agreed_after env V cl \<longleftrightarrow> views_of env cl \<subseteq> V \<longrightarrow> agreed env V cl"

definition backed_packets :: "'cmd view set \<Rightarrow> 'cmd AppendEntriesRequest set \<Rightarrow> 'cmd packet set" where
  "backed_packets V W = append_packets {q \<in> W. commit_carried q \<and> backed_call V q}"

lemma agreed_frame:
  assumes "agreed env V cl" and "nodes cl' = nodes cl" and "applied cl' = applied cl" and "set (net cl') \<subseteq> set (net cl)"
  shows "agreed env V cl'"
  using assms unfolding agreed_def by (metis order_trans)

lemma agreed_before_frame:
  assumes "agreed_before env h k V b s cl" and "nodes cl' = nodes cl" and "boots cl' = boots cl"
    and "applied cl' = applied cl" and "set (net cl') \<subseteq> set (net cl)"
  shows "agreed_before env h k V b s cl'"
proof -
  from assms(1) have "agreed env V cl" and "applied_before env b s cl" and "below_max cl"
    and "\<And>n st. nodes cl n = Some st \<Longrightarrow> copied h k (entries_of env (inner_of st))" by (simp_all add: agreed_before_def)
  with agreed_frame [OF this(1) assms(2,4,5)] applied_frame [OF this(2) assms(2-5)] show ?thesis
    by (simp add: agreed_before_def below_max_def assms(2))
qed

lemma agreed_set_node: "agreed env V cl \<Longrightarrow> agreed env V (set_node n None cl)"
  by (auto simp: agreed_def set_node_def)

lemma agreed_finish:
  assumes ok: "agreed env V (set_node n None cl)"
    and r: "\<And>st out. r = Inr (st, out) \<Longrightarrow>
      (role_of st = LeaderRole \<Longrightarrow> (term_of (inner_of st), entries_of env (inner_of st), commit_index (inner_of st)) \<in> V) \<Longrightarrow>
      backed_node env V (applied cl n @ handed out) (inner_of st) \<and> (\<forall>q \<in> sent out. backed_call V q)"
  shows "agreed_after env V (finish n r cl)"
proof (cases r)
  case (Inr x)
  obtain st out where x: "x = (st, out)" by force
  let ?cl = "foldl (emit n) (set_node n (Some st) cl) out"
  have "agreed env V ?cl" if sub: "views_of env ?cl \<subseteq> V"
  proof -
    have "(term_of (inner_of st), entries_of env (inner_of st), commit_index (inner_of st)) \<in> V" if "role_of st = LeaderRole"
    proof -
      from that obtain w l where "st = RaftWorkerState.Leader w l" by (cases st) auto
      then have "nodes ?cl n = Some (RaftWorkerState.Leader w l)" by (simp add: set_node_def)
      with sub \<open>st = _\<close> show ?thesis unfolding views_of_def by force
    qed
    from r [OF Inr [unfolded x] this] have bn: "backed_node env V (applied cl n @ handed out) (inner_of st)"
      and bc: "\<And>q. q \<in> sent out \<Longrightarrow> backed_call V q" by auto
    from bn have "\<exists>t l. backed V t l \<and> applied cl n @ handed out = map le_cmd l" by (auto simp: backed_node_def Let_def)
    moreover have "append_packets (sent out) \<subseteq> append_packets {q. backed_call V q}"
      using bc by (intro append_packets_mono) auto
    ultimately show ?thesis using ok bn emits_packets [of n "set_node n (Some st) cl" out]
      by (auto simp: agreed_def emits_applied set_node_def)
  qed
  then show ?thesis by (simp add: finish_def Inr x agreed_after_def)
qed (use ok in \<open>simp add: finish_def agreed_after_def\<close>)

lemma agreed_run_event:
  assumes V: "historic h k V" "leaders_complete V" and before: "agreed_before env h k V b s cl"
    and src: "sourced (backed_packets V (l_wire s)) ev"
  shows "agreed_after env V (run_event env n ev cl)"
proof (cases "nodes cl n")
  case None
  with before show ?thesis by (simp add: agreed_before_def agreed_after_def run_event_def)
next
  case (Some st)
  from before have ag: "agreed env V cl" and ap: "applied_before env b s cl" and low: "below_max cl"
    and l: "copied h k (entries_of env (inner_of st))" using Some by (simp_all add: agreed_before_def)
  note nd = applied_node [OF ap Some]
  have wire: "commit_carried q \<and> backed_call V q" if "ev = RpcEvent (AppendEntries q) tx" for q tx
    using src that by (auto simp: backed_packets_def append_packets_def)
  have "logs_ok s" using ap by (simp add: applied_before_def)
  moreover have "sourced (append_packets (l_wire s)) ev"
    by (rule sourced_mono [OF src]) (auto simp: backed_packets_def append_packets_def)
  ultimately have ev: "carried ev" by (rule wire_carried) (use wire in blast)
  have max: "term_of (inner_of st) \<noteq> - 1" using low Some by (auto simp: below_max_def)
  have bk: "backed_node env V (applied cl n) (inner_of st)" using ag Some by (simp add: agreed_def)
  have "agreed_after env V (finish n (worker_step env st ev) cl)"
  proof (rule agreed_finish [OF agreed_set_node [OF ag]])
    fix st' out assume step: "worker_step env st ev = Inr (st', out)"
      and lead: "role_of st' = LeaderRole \<Longrightarrow>
        (term_of (inner_of st'), entries_of env (inner_of st'), commit_index (inner_of st')) \<in> V"
    have bc: "\<And>q tx. ev = RpcEvent (AppendEntries q) tx \<Longrightarrow> backed_call V q" using wire by blast
    note sb = step_backed [where cs = "applied cl n", OF V l nd(1-3,4) max ev bc step lead bk]
    show "backed_node env V (applied cl n @ handed out) (inner_of st') \<and> (\<forall>q \<in> sent out. backed_call V q)"
      by (intro conjI ballI) (rule sb; assumption)+
  qed
  then show ?thesis by (simp add: run_event_def Some)
qed

text \<open>A node that starts has applied nothing.\<close>

lemma start_backed:
  assumes w: "worker_new nid sk ps cs ls = Inr w" and ok: "inner_ok env w" and f: "to_follower env w = Inr (st, out)"
  shows "backed_node env V (handed out) (inner_of st)" and "sent out = {}" and "handed out = []"
proof -
  have z: "commit_index w = 0" "last_applied w = 0" using w by (auto simp: worker_new_def rbind_eq_Inr)
  have wt: "waits env w FollowerRole (Inr (st, out))" using waits.falls_back [of env w] f by simp
  have "commit_index (inner_of st) = 0" using waits_commits(2) [OF wt ok] z by simp
  moreover have "applies env w (inner_of st) out"
    by (rule waits_applies [OF wt ok]) (use z in \<open>simp_all add: commits_ok_def\<close>)
  ultimately have a: "last_applied (inner_of st) = 0" "handed out = []" using z by (auto simp: applies_def)
  then show "backed_node env V (handed out) (inner_of st)" by (simp add: backed_node_def backed_def)
  show "handed out = []" by (rule a(2))
  show "sent out = {}" using local_sent waits_quiet [OF wt] by blast
qed

lemma agreed_restart:
  assumes "agreed_before env h k V b s cl"
  shows "agreed_after env V (restart env n cl)"
proof (cases "nodes cl n")
  case None
  with assms show ?thesis by (simp add: agreed_before_def agreed_after_def restart_def)
next
  case (Some st)
  let ?w = "inner_of st"
  let ?cl = "cl\<lparr>boots := (boots cl)(n := boots cl n + 1), applied := (applied cl)(n := [])\<rparr>"
  let ?r = "rbind (worker_new (node_id ?w) (inner_session_key ?w) (peers ?w) [] (storage (store ?w))) (to_follower env)"
  from assms have ag: "agreed env V cl" and sim: "lsim env cl s" by (simp_all add: agreed_before_def applied_before_def)
  note ok = lsimD(1) [OF sim Some]
  have "agreed_after env V (finish n ?r ?cl)"
  proof (rule agreed_finish)
    have "backed V 0 []" by (simp add: backed_def)
    then show "agreed env V (set_node n None ?cl)" using ag by (auto simp: agreed_def set_node_def)
    fix st' out assume "?r = Inr (st', out)"
    then obtain w1 where w1: "worker_new (node_id ?w) (inner_session_key ?w) (peers ?w) [] (storage (store ?w)) = Inr w1"
      and f: "to_follower env w1 = Inr (st', out)" by (auto simp: rbind_eq_Inr)
    have "store w1 = store ?w" "inner_session_key w1 = inner_session_key ?w"
      using worker_new_recovers [OF inner_ok_node [OF ok] w1] by simp_all
    then have "inner_ok env w1" using ok by (simp add: inner_ok_def)
    from start_backed [OF w1 this f]
    show "backed_node env V (applied ?cl n @ handed out) (inner_of st') \<and> (\<forall>q \<in> sent out. backed_call V q)" by simp
  qed
  then show ?thesis by (simp add: restart_def Let_def Some)
qed

lemma agreed_forwarded:
  assumes "agreed_before env h k V b s cl" and "forward_outcome res j = Inr out"
  shows "agreed_after env V (foldl (emit n) cl out)"
proof -
  have "sent out = {}" "handed out = []"
    using assms(2) by (auto simp: forward_outcome_def handed_def List.map_filter_def split: sum.splits RpcResponse.splits)
  moreover have "set (net (foldl (emit n) cl out)) \<subseteq> set (net cl) \<union> append_packets (sent out)" by (rule emits_packets)
  moreover have "append_packets {} \<subseteq> append_packets {q. backed_call V q}" by (rule append_packets_mono) simp
  moreover have "agreed env V cl" using assms(1) by (simp add: agreed_before_def)
  ultimately show ?thesis unfolding agreed_after_def agreed_def by (auto simp: emits_applied)
qed

text \<open>With the views of the whole run, and under the condition on the leaders.\<close>

definition good_views :: "(TermIndex \<Rightarrow> 'cmd LogEntry list) \<Rightarrow> nat \<Rightarrow> 'cmd view set \<Rightarrow> bool" where
  "good_views h k V \<longleftrightarrow> historic h k V \<and> leaders_complete V"

interpretation agreeing: preserved env "backed_packets V (l_wire s)"
  "\<lambda>cl. good_views h k V \<and> agreed_before env h k V b s cl" "agreed_after env V"
  for env :: "'cmd env" and h k V b s
proof
  show "good_views h k V \<and> agreed_before env h k V b s cl \<Longrightarrow> agreed_after env V cl" for cl :: "'cmd cluster"
    by (simp add: agreed_before_def agreed_after_def)
  show "good_views h k V \<and> agreed_before env h k V b s cl \<Longrightarrow> nodes cl' = nodes cl \<Longrightarrow> boots cl' = boots cl \<Longrightarrow>
      applied cl' = applied cl \<Longrightarrow> set (net cl') \<subseteq> set (net cl) \<Longrightarrow> good_views h k V \<and> agreed_before env h k V b s cl'"
    for cl cl' :: "'cmd cluster"
    using agreed_before_frame by blast
  fix n ev j res out and cl :: "'cmd cluster"
  assume before: "good_views h k V \<and> agreed_before env h k V b s cl"
  then have V: "historic h k V" "leaders_complete V" and ag: "agreed_before env h k V b s cl" by (simp_all add: good_views_def)
  show "sourced (backed_packets V (l_wire s)) ev \<Longrightarrow> agreed_after env V (run_event env n ev cl)"
    by (rule agreed_run_event [OF V ag])
  show "forward_outcome res j = Inr out \<Longrightarrow> agreed_after env V (foldl (emit n) cl out)"
    by (rule agreed_forwarded [OF ag])
  show "agreed_after env V (restart env n cl)" by (rule agreed_restart [OF ag])
qed

lemma act_agreed:
  assumes rep: "replicates env ms j cl vs s" and ap: "applied_ok env b cl" and j: "j + 102 < 2 ^ 64"
    and V: "good_views h k V" and ag: "agreed env V cl"
    and l: "\<And>n st. nodes cl n = Some st \<Longrightarrow> copied h k (entries_of env (inner_of st))"
    and v: "views_of env (act env cl a) \<subseteq> V"
  shows "agreed env V (act env cl a)"
proof -
  from rep have sim: "lsim env cl s" and "logs_ok s" "l_size s \<le> j" and el: "elects ms j cl vs"
    by (simp_all add: replicates_def)
  then have "applied_before env (had cl) s cl" using applied_rebase [OF ap] j by (simp add: applied_before_def)
  moreover have "below_max cl" using el j by (intro terms_below_max [of j]) (simp_all add: elects_def)
  ultimately have before: "good_views h k V \<and> agreed_before env h k V (had cl) s cl"
    using V ag l by (simp add: agreed_before_def)
  have "set (net cl) \<subseteq> append_packets (l_wire s)" using sim by (simp add: lsim_def)
  then have "set (net cl) \<subseteq> backed_packets V (l_wire s)"
    using ap ag by (auto simp: applied_ok_def agreed_def carried_packets_def backed_packets_def append_packets_def)
  from agreeing.step [OF before this] v show ?thesis by (simp add: agreed_after_def)
qed

section \<open>Runs\<close>

text \<open>At the end the histories hold what every leader's log ever was.\<close>

definition recorded :: "'cmd env \<Rightarrow> (TermIndex \<Rightarrow> 'cmd LogEntry list) \<Rightarrow> nat \<Rightarrow> 'cmd cluster \<Rightarrow> bool" where
  "recorded env h k cl \<longleftrightarrow> (\<forall>n st. nodes cl n = Some st \<longrightarrow> copied h k (entries_of env (inner_of st)) \<and>
     (\<forall>t. leads st = Some t \<longrightarrow> prefix (entries_of env (inner_of st)) (h t)))"

lemma recorded_extends:
  assumes "recorded env h k cl" and ext: "extends h h'" and "k \<le> k'"
  shows "recorded env h' k' cl"
proof -
  have "prefix (h t) (h' t)" for t using ext unfolding extends_def by (metis take_is_prefix)
  with assms copied_extends show ?thesis unfolding recorded_def by (meson prefix_order.trans)
qed

lemma replicates_recorded:
  assumes "replicates env ms k cl vs s"
  shows "recorded env (l_hist s) k cl"
proof -
  from assms have sim: "lsim env cl s" and logs: "logs_ok s" and k: "l_size s \<le> k" by (simp_all add: replicates_def)
  have "copied (l_hist s) k (entries_of env (inner_of st)) \<and>
      (leads st = Some t \<longrightarrow> prefix (entries_of env (inner_of st)) (l_hist s t))"
    if "nodes cl n = Some st" for n st t
  proof -
    note d = lsimD [OF sim that]
    have "copied (l_hist s) (l_size s) (l_log s n)" "leads st = Some t \<Longrightarrow> l_hist s t = l_log s n"
      using logs d(3) by (auto simp: logs_ok_def)
    with k show ?thesis by (auto simp: d(2) copied_def)
  qed
  then show ?thesis by (simp add: recorded_def)
qed

lemma run_recorded:
  assumes cod: "codec_ok env" and ms: "distinct ms" and mem: "list_all (member_action ms) as"
    and len: "length as < 2 ^ 64 - 2"
  shows "\<exists>vs s. replicates env ms (length as) (run env (cluster_init env sk ms) as) vs s \<and>
    (\<forall>i \<le> length as. recorded env (l_hist s) (length as) (run env (cluster_init env sk ms) (take i as)))"
  using mem len
proof (induction as rule: rev_induct)
  case Nil
  from run_replicates [OF cod ms, of "[]" sk] replicates_recorded show ?case by fastforce
next
  case (snoc a as)
  let ?cl = "run env (cluster_init env sk ms) as"
  from snoc obtain vs s where rep: "replicates env ms (length as) ?cl vs s"
    and rc: "\<And>i. i \<le> length as \<Longrightarrow> recorded env (l_hist s) (length as) (run env (cluster_init env sk ms) (take i as))"
    by fastforce
  from snoc.prems have "member_action ms a" "length as < 2 ^ 64 - 2" by simp_all
  from replicates_act [OF rep ms this] obtain vs' s' where st: "lstep\<^sup>*\<^sup>* s s'"
    and rep': "replicates env ms (Suc (length as)) (act env ?cl a) vs' s'" by blast
  have "extends (l_hist s) (l_hist s')" using lsteps_extends [OF st] rep by (simp add: replicates_def)
  then have old: "recorded env (l_hist s') (Suc (length as)) (run env (cluster_init env sk ms) (take i as))" if "i \<le> length as" for i
    using recorded_extends [OF rc [OF that]] by simp
  have "recorded env (l_hist s') (length (as @ [a])) (run env (cluster_init env sk ms) (take i (as @ [a])))"
    if "i \<le> length (as @ [a])" for i
    using that old [of i] replicates_recorded [OF rep'] by (cases "i \<le> length as") (auto simp: le_Suc_eq run_snoc)
  with rep' show ?case by (auto simp: run_snoc)
qed

lemma init_agreed:
  assumes "codec_ok env"
  shows "agreed env V (cluster_init env sk ms)"
proof -
  have b: "backed V t []" for t by (simp add: backed_def)
  have "backed_node env V [] (inner_of st)" if st: "first_start env sk ms n = Some st" for n st
  proof -
    from st obtain w out where w: "worker_new n sk (remove1 n ms) [] (\<lambda>_. None) = Inr w"
      and f: "to_follower env w = Inr (st, out)"
      by (auto simp: first_start_def rbind_eq_Inr split: if_splits sum.splits)
    from Storage_new_fresh [OF assms, of sk "\<lambda>_. None"] obtain s where "Storage_new sk (\<lambda>_. None) = Inr s"
      "storage_ok env s" "session_key s = sk" by auto
    with w have "inner_ok env w" by (auto simp: worker_new_def inner_ok_def)
    from start_backed(1,3) [OF w this f] show ?thesis by simp
  qed
  moreover have "\<exists>t l. backed V t l \<and> [] = map le_cmd l" using b [of 0] by (intro exI [of _ 0] exI [of _ "[]"]) simp
  ultimately show ?thesis by (auto simp: agreed_def cluster_init_def)
qed

text \<open>The views of a run, as a list: at every moment, of every member that leads.\<close>

definition view_at :: "'cmd env \<Rightarrow> 'cmd cluster \<Rightarrow> NodeId \<Rightarrow> 'cmd view option" where
  "view_at env cl n = (case nodes cl n of
     Some (RaftWorkerState.Leader w l) \<Rightarrow> Some (term_of w, entries_of env w, commit_index w)
   | _ \<Rightarrow> None)"

fun leader_views :: "'cmd env \<Rightarrow> NodeId list \<Rightarrow> 'cmd cluster \<Rightarrow> 'cmd action list \<Rightarrow> 'cmd view list" where
  "leader_views env ms cl [] = List.map_filter (view_at env cl) ms"
| "leader_views env ms cl (a # as) = List.map_filter (view_at env cl) ms @ leader_views env ms (act env cl a) as"

lemma set_leader_views:
  "set (leader_views env ms cl as) = (\<Union>i \<le> length as. set (List.map_filter (view_at env (run env cl (take i as))) ms))"
proof (induction as arbitrary: cl)
  case (Cons a as)
  have "run env cl (take (Suc i) (a # as)) = run env (act env cl a) (take i as)" for i by (simp add: run_def)
  moreover have "run env cl (take 0 (a # as)) = cl" by (simp add: run_def)
  moreover have "{..length (a # as)} = insert 0 (Suc ` {..length as})" by (auto simp: image_iff Bex_def) presburger
  ultimately show ?case by (simp add: Cons.IH image_image)
qed (simp add: run_def)

lemma view_at_Some: "view_at env cl n = Some v \<longleftrightarrow>
    (\<exists>w l. nodes cl n = Some (RaftWorkerState.Leader w l) \<and> v = (term_of w, entries_of env w, commit_index w))"
  by (auto simp: view_at_def split: option.splits RaftWorkerState.splits)

lemma view_at_views: "v \<in> views_of env cl \<longleftrightarrow> (\<exists>n. view_at env cl n = Some v)"
  unfolding views_of_def view_at_Some by blast

lemma set_map_filter: "set (List.map_filter f xs) = {y. \<exists>x \<in> set xs. f x = Some y}"
  by (force simp: List.map_filter_def)

lemma run_member:
  "nodes (run env (cluster_init env sk ms) as) n = Some st \<Longrightarrow> n \<in> set ms"
proof (induction as arbitrary: st rule: rev_induct)
  case Nil
  then show ?case using first_start_node by (fastforce simp: run_def cluster_init_def)
next
  case (snoc a as)
  from nodes_act snoc.prems obtain st0 where "nodes (run env (cluster_init env sk ms) as) n = Some st0"
    by (metis run_snoc)
  then show ?case by (rule snoc.IH)
qed

lemma leader_views_of:
  assumes "cl = cluster_init env sk ms"
  shows "set (leader_views env ms cl as) = (\<Union>i \<le> length as. views_of env (run env cl (take i as)))"
proof -
  have "v \<in> set (List.map_filter (view_at env (run env cl xs)) ms) \<longleftrightarrow> v \<in> views_of env (run env cl xs)" for v xs
  proof -
    have "n \<in> set ms" if "view_at env (run env cl xs) n = Some v" for n
      using that run_member [of env sk ms xs n] by (auto simp: view_at_Some assms)
    then show ?thesis unfolding view_at_views set_map_filter by blast
  qed
  then have "set (List.map_filter (view_at env (run env cl xs)) ms) = views_of env (run env cl xs)" for xs by blast
  then show ?thesis by (simp add: set_leader_views)
qed

lemma run_views_historic:
  assumes "\<And>i. i \<le> length as \<Longrightarrow> recorded env h k (run env cl (take i as))"
  shows "historic h k (\<Union>i \<le> length as. views_of env (run env cl (take i as)))"
  using assms unfolding historic_def views_of_def recorded_def by fastforce

theorem run_agreed:
  assumes cod: "codec_ok env" and ms: "distinct ms" and mem: "list_all (member_action ms) as"
    and len: "length as + 102 < 2 ^ 64" and V: "good_views h k V"
    and rec: "\<And>i. i \<le> length as \<Longrightarrow> recorded env h k (run env (cluster_init env sk ms) (take i as))"
    and sub: "\<And>i. i \<le> length as \<Longrightarrow> views_of env (run env (cluster_init env sk ms) (take i as)) \<subseteq> V"
  shows "agreed env V (run env (cluster_init env sk ms) as)"
  using mem len rec sub
proof (induction as rule: rev_induct)
  case Nil
  show ?case using init_agreed [OF cod] by (simp add: run_def)
next
  case (snoc a as)
  let ?cl = "run env (cluster_init env sk ms) as"
  have "recorded env h k (run env (cluster_init env sk ms) (take i as))"
    "views_of env (run env (cluster_init env sk ms) (take i as)) \<subseteq> V" if "i \<le> length as" for i
    using snoc.prems(3,4) [of i] that by simp_all
  note past = this
  have mem: "list_all (member_action ms) as" and len: "length as + 102 < 2 ^ 64" "length as < 2 ^ 64 - 2"
    using snoc.prems(1,2) by simp_all
  have ag: "agreed env V ?cl" using snoc.IH [OF mem len(1) past] by simp
  from run_applied [OF cod ms mem len(1), of sk] obtain b where ap: "applied_ok env b ?cl" by blast
  from run_replicates [OF cod ms mem len(2), of sk] obtain vs s where rep: "replicates env ms (length as) ?cl vs s" by blast
  have "copied h k (entries_of env (inner_of st))" if "nodes ?cl n = Some st" for n st
    using past(1) [of "length as"] that by (simp add: recorded_def)
  moreover have "views_of env (act env ?cl a) \<subseteq> V" using snoc.prems(4) [of "Suc (length as)"] by (simp add: run_snoc)
  ultimately show ?case using act_agreed [OF rep ap len(1) V ag] by (simp add: run_snoc)
qed

text \<open>At all moments of a run, what the state machines got is what leaders had committed.\<close>

theorem run_backed:
  assumes cod: "codec_ok env" and ms: "distinct ms" and mem: "list_all (member_action ms) as"
    and len: "length as + 102 < 2 ^ 64" and comp: "leaders_complete (set (leader_views env ms (cluster_init env sk ms) as))"
  obtains h k V where "historic h k V" and "leaders_complete V"
    and "\<And>i n. i \<le> length as \<Longrightarrow> \<exists>t l. backed V t l \<and> applied (run env (cluster_init env sk ms) (take i as)) n = map le_cmd l"
proof -
  let ?cl = "\<lambda>i. run env (cluster_init env sk ms) (take i as)"
  let ?V = "\<Union>i \<le> length as. views_of env (?cl i)"
  have "length as < 2 ^ 64 - 2" using len by simp
  from run_recorded [OF cod ms mem this, of sk] obtain h where
    rec: "\<And>i. i \<le> length as \<Longrightarrow> recorded env h (length as) (?cl i)" by blast
  have "good_views h (length as) ?V"
    using run_views_historic [OF rec] comp by (simp add: good_views_def leader_views_of [OF refl])
  note V = this
  have "agreed env ?V (?cl i)" if i: "i \<le> length as" for i
  proof (rule run_agreed [OF cod ms _ _ V])
    show "list_all (member_action ms) (take i as)" using mem by (auto simp: list_all_iff dest: in_set_takeD)
    show "length (take i as) + 102 < 2 ^ 64" using len by simp
    fix j assume "j \<le> length (take i as)"
    then have "take j (take i as) = take j as" "j \<le> length as" by (simp_all add: min_absorb1)
    then show "recorded env h (length as) (run env (cluster_init env sk ms) (take j (take i as)))"
      "views_of env (run env (cluster_init env sk ms) (take j (take i as))) \<subseteq> ?V" using rec by auto
  qed
  with V show ?thesis by (intro that [of h "length as" ?V]) (auto simp: good_views_def agreed_def)
qed

text \<open>So any two of them got the same commands, as far as both got.\<close>

theorem run_agree:
  assumes "codec_ok env" and "distinct ms" and "list_all (member_action ms) as" and "length as + 102 < 2 ^ 64"
    and "leaders_complete (set (leader_views env ms (cluster_init env sk ms) as))"
    and "i \<le> length as" and "j \<le> length as"
  shows "let cs = applied (run env (cluster_init env sk ms) (take i as)) n;
             ds = applied (run env (cluster_init env sk ms) (take j as)) p
         in prefix cs ds \<or> prefix ds cs"
proof -
  from run_backed [OF assms(1-5)] obtain h k V where V: "historic h k V" "leaders_complete V"
    and b: "\<And>i n. i \<le> length as \<Longrightarrow> \<exists>t l. backed V t l \<and>
      applied (run env (cluster_init env sk ms) (take i as)) n = map le_cmd l" by metis
  from b [OF assms(6)] b [OF assms(7)] obtain t l t' l' where "backed V t l" "backed V t' l'"
    and "applied (run env (cluster_init env sk ms) (take i as)) n = map le_cmd l"
    and "applied (run env (cluster_init env sk ms) (take j as)) p = map le_cmd l'" by metis
  with backed_agree [OF V \<open>backed V t l\<close> \<open>backed V t' l'\<close>] show ?thesis
    using map_mono_prefix [of l l' le_cmd] map_mono_prefix [of l' l le_cmd] by (auto simp: Let_def)
qed

end
