(* ===== verification/Leadership.thy ===== *)
theory Leadership
  imports Moves
begin

text \<open>
  How a node becomes and stays a leader, and what a leader knows of its peers: its match indices
  start at zero and take over only what a peer has acknowledged in the leader's term; it commits
  what a majority has acknowledged.
\<close>

section \<open>Roles\<close>

text \<open>A leader has led before, or takes over as the candidate it was.\<close>

lemma step_leads:
  assumes ok: "node_ok (inner_of st)" and step: "worker_step env st ev = Inr (st', out)" and lead: "role_of st' = LeaderRole"
  shows "term_of (inner_of st') = term_of (inner_of st)"
    and "role_of st = LeaderRole \<or> (\<exists>v. role_of st = CandidateRole v) \<and> store (inner_of st') = store (inner_of st)"
proof -
  have "term_of (inner_of st') = term_of (inner_of st) \<and>
    (role_of st = LeaderRole \<or> (\<exists>v. role_of st = CandidateRole v) \<and> store (inner_of st') = store (inner_of st))"
  proof (cases st ev rule: event_cases)
    case other
    from step_other(1) [OF ok other step] lead show ?thesis by (simp add: stays_def)
  next
    case (vote req tx)
    from step_vote_request [OF ok step [unfolded vote]] obtain resp
      where "vote_answered (role_of st = LeaderRole) req (inner_of st) (inner_of st') resp"
        "role_of st' = (if term_of (inner_of st) < rv_term req then FollowerRole else role_of st)" by metis
    with lead show ?thesis by (simp add: vote_answered_def max_def not_less split: if_splits)
  next
    case timer
    from step_timer [OF ok timer(2) step [unfolded timer(1)]] lead show ?thesis by simp
  next
    case (count w v)
    from step_vote [of w env v st' out] step ok count show ?thesis by (simp add: quiet_def)
  qed
  then show "term_of (inner_of st') = term_of (inner_of st)"
    and "role_of st = LeaderRole \<or> (\<exists>v. role_of st = CandidateRole v) \<and> store (inner_of st') = store (inner_of st)" by blast+
qed

text \<open>A node that is a candidate after a step has the log it had.\<close>

lemma handled_merge_role:
  "handled env st (RpcEvent (AppendEntries q) tx) w out r \<Longrightarrow> r \<noteq> CandidateRole v"
  by (erule handled.cases) (auto simp: candidate_handle_rpc_def rbind_eq_Inr)

lemma step_candidate_log:
  assumes ok: "inner_ok env (inner_of st)" and room: "room (inner_of st) 102" and ev: "carried ev"
    and step: "worker_step env st ev = Inr (st', out)" and cand: "role_of st' = CandidateRole v"
  shows "entries_of env (inner_of st') = entries_of env (inner_of st)"
proof -
  from step_log [OF ok _ _ step] room ev obtain ch where ch: "log_step env ch (inner_of st) (inner_of st') out"
    "change_allowed st ev (inner_of st') (role_of st') ch" by (auto simp: room_def carried_def)
  show ?thesis
  proof (cases ch)
    case (MergedLog q)
    with ch(2) obtain tx where "ev = RpcEvent (AppendEntries q) tx" by auto
    with worker_step_parts [OF step] handled_merge_role cand show ?thesis by metis
  qed (use ch cand in \<open>auto simp: log_step_def\<close>)
qed

section \<open>Calls and acknowledgements\<close>

text \<open>The task of a call knows the last index that the request reaches.\<close>

lemma step_tags:
  assumes "inner_ok env (inner_of st)" and "room (inner_of st) 102" and "commits_ok (inner_of st)" and "carried ev"
    and step: "worker_step env st ev = Inr (st', out)" and call: "CallAppend p i j q \<in> set out"
  shows "unat j = unat (ae_prev_log_index q) + length (ae_entries q)"
proof -
  from worker_step_parts [OF step] obtain w o1 o2 where h: "handled env st ev w o1 (role_of st')"
    and q: "out = o1 @ o2" "all_local o2" by metis
  from handled_kept [OF assms(1-4) h] have "clean o1" by (simp add: kept_def)
  moreover have "CallAppend p i j q \<in> set o1" using call q by (auto simp: list_all_iff)
  ultimately show ?thesis by (auto simp: list_all_iff)
qed

text \<open>A node that answers a request with success has taken it in.\<close>

lemma rpc_absorbed:
  assumes ok: "inner_ok env w" and u: "update_term env (store w) (ae_term q) = Inr (s, b)"
    and h: "handle_append_entries env (w\<lparr>store := s, leader_id := l\<rparr>) q = Inr (w', resp)"
    and ix: "event_indexed (RpcEvent (AppendEntries q) tx)" and suc: "aer_success resp"
  shows "absorbed env q w w'"
proof -
  from ix have "indexed_from le_idx (unat (ae_prev_log_index q)) (ae_entries q)" by (simp add: event_indexed_def)
  note sp = handle_append_entries_spec [OF update_term_inner(1) [OF ok u] h this]
  note t = update_term_rises [OF ok u] and l = update_term_inner(2) [OF ok u]
  from sp t suc have "ae_term q = current_term s" by (auto simp: max_def split: if_splits)
  with suc sp t(2) l show ?thesis by (simp add: absorbed_def)
qed

lemma handled_absorbs:
  assumes ok: "inner_ok env (inner_of st)" and ix: "event_indexed (RpcEvent (AppendEntries q) tx)"
    and h: "handled env st (RpcEvent (AppendEntries q) tx) w out r"
    and ans: "RpcReply tx' (AppendEntriesR resp) \<in> set out" "aer_success resp"
  shows "absorbed env q (inner_of st) w"
  using h
proof cases
  case (follower_rpc w0)
  then obtain s b resp' where "update_term env (store w0) (ae_term q) = Inr (s, b)"
    "handle_append_entries env (w0\<lparr>store := s, leader_id := Some (ae_leader_id q)\<rparr>) q = Inr (w, resp')"
    "out = [RpcReply tx (AppendEntriesR resp'), ResetElectionTimeout]"
    by (auto simp: follower_handle_rpc_def rbind_eq_Inr)
  with rpc_absorbed [OF _ this(1,2) ix] ok ans follower_rpc(1) show ?thesis by simp
next
  case (candidate_rpc w0 ch v)
  then obtain s b resp' where "update_term env (store w0) (ae_term q) = Inr (s, b)"
    "handle_append_entries env (w0\<lparr>store := s, leader_id := leader_id w0\<rparr>) q = Inr (w, resp')"
    "out = [RpcReply tx (AppendEntriesR resp')]"
    by (auto simp: candidate_handle_rpc_def rbind_eq_Inr)
  with rpc_absorbed [OF _ this(1,2) ix] ok ans candidate_rpc(1) show ?thesis by simp
next
  case (leader_rpc w0 l l' ch)
  then obtain s b where u: "update_term env (store w0) (ae_term q) = Inr (s, b)"
    by (auto simp: leader_handle_rpc_def Let_def rbind_eq_Inr)
  with leader_rpc ans obtain resp' where
    "handle_append_entries env (w0\<lparr>store := s, leader_id := leader_id w0\<rparr>) q = Inr (w, resp')"
    "out = [RpcReply tx (AppendEntriesR resp')]"
    by (cases b) (auto simp: leader_handle_rpc_def Let_def rbind_eq_Inr)
  with rpc_absorbed [OF _ u this(1) ix] ok ans leader_rpc(1) show ?thesis by simp
qed auto

lemma step_absorbs:
  assumes "inner_ok env (inner_of st)" and "event_indexed ev"
    and step: "worker_step env st ev = Inr (st', out)" and ans: "RpcReply tx' (AppendEntriesR resp) \<in> set out" "aer_success resp"
    and ev: "ev = RpcEvent (AppendEntries q) tx"
  obtains w where "absorbed env q (inner_of st) w" and "store w = store (inner_of st')"
proof -
  from worker_step_parts [OF step] obtain w o1 o2 where h: "handled env st ev w o1 (role_of st')"
    and q: "out = o1 @ o2" "quiet w (inner_of st')" "all_local o2" .
  have "RpcReply tx' (AppendEntriesR resp) \<in> set o1" using ans(1) q by (auto simp: list_all_iff)
  from handled_absorbs [OF assms(1) assms(2) [unfolded ev] h [unfolded ev] this ans(2)] q(2) show ?thesis
    by (intro that [of w]) (simp_all add: quiet_def)
qed

section \<open>Match indices\<close>

text \<open>What a peer has acknowledged with an answer to this leader.\<close>

fun acknowledges :: "'cmd event \<Rightarrow> NodeId \<times> LogIndex \<Rightarrow> bool" where
  "acknowledges (AppendResponse p i j (Inr (AppendEntriesR resp))) pj = (aer_success resp \<and> pj = (p, j))"
| "acknowledges ev pj = False"

definition matches :: "'cmd event \<Rightarrow> LeaderState \<Rightarrow> LeaderState \<Rightarrow> bool" where
  "matches ev l l' \<longleftrightarrow> map fst (match_indices l') = map fst (match_indices l) \<and>
     (\<forall>pj \<in> set (match_indices l'). pj \<in> set (match_indices l) \<or> acknowledges ev pj)"

definition by_majority :: "'cmd env \<Rightarrow> Inner \<Rightarrow> LeaderState \<Rightarrow> LogIndex \<Rightarrow> bool" where
  "by_majority env w l c \<longleftrightarrow> c \<noteq> 0 \<and> c \<le> last_log_index (store w) \<and> committable env w l c"

lemma matches_same: "match_indices l' = match_indices l \<Longrightarrow> matches ev l l'"
  by (simp add: matches_def)

lemma append_entries_matches: "append_entries env w l p = Inr (l', out) \<Longrightarrow> match_indices l' = match_indices l"
  by (auto simp: append_entries_def Let_def rbind_eq_Inr split: option.splits if_splits)

lemma append_entries_all_matches: "append_entries_all env w l ps = Inr (l', out) \<Longrightarrow> match_indices l' = match_indices l"
  by (induction ps arbitrary: l l' out) (auto simp: rbind_eq_Inr dest: append_entries_matches split: prod.splits)

lemma handle_client_request_matches:
  "handle_client_request env w l req tx = Inr (w', l', out) \<Longrightarrow> match_indices l' = match_indices l \<and> commit_index w' = commit_index w"
  by (auto simp: handle_client_request_def handle_log_update_def Let_def rbind_eq_Inr dest!: append_entries_all_matches
      split: ClientRequest.splits)

lemma map_fst_update: "k \<in> fst ` set m \<Longrightarrow> map fst (AList.update k v m) = map fst m"
  by (induction m) auto

lemma set_update: "x \<in> set (AList.update k v m) \<Longrightarrow> x = (k, v) \<or> x \<in> set m"
  by (induction m) (auto split: if_splits)

lemma handle_append_entries_response_matches:
  assumes h: "handle_append_entries_response env w l p i j res = Inr (w', l', out, ch)"
  shows "matches (AppendResponse p i j res :: 'cmd event) l l'" and "commit_index w' = commit_index w"
proof -
  have u: "x \<in> set (AList.update p (max m j) (match_indices l)) \<Longrightarrow> map_of (match_indices l) p = Some m \<Longrightarrow>
      x \<in> set (match_indices l) \<or> x = (p, j)" for x m
    using set_update [of x p "max m j"] map_of_SomeD [of "match_indices l" p m] by (auto simp: max_def split: if_splits)
  have k: "map_of (match_indices l) p = Some m \<Longrightarrow> map fst (AList.update p v (match_indices l)) = map fst (match_indices l)" for m v
    by (rule map_fst_update) (force dest: map_of_SomeD)
  have "matches (AppendResponse p i j res :: 'cmd event) l l' \<and> commit_index w' = commit_index w"
    using h u k
    by (auto simp: handle_append_entries_response_def Let_def rbind_eq_Inr matches_def dest!: append_entries_matches
        split: sum.splits RpcResponse.splits if_splits option.splits) blast+
  then show "matches (AppendResponse p i j res :: 'cmd event) l l'" "commit_index w' = commit_index w" by auto
qed

text \<open>While it waits, a leader commits what a majority has.\<close>

lemma leader_wait_matches:
  assumes ok: "inner_ok env w" and max: "commit_index w \<noteq> - 1" and h: "leader_wait env w l = Inr (RaftWorkerState.Leader w' l', out)"
  shows "match_indices l' = match_indices l" and "store w' = store w"
    and "commit_index w' = commit_index w \<or> by_majority env w' l' (commit_index w')"
proof -
  let ?done = "takeWhile (committable env w l) (range_incl (commit_index w + 1) (last_log_index (store w)))"
  let ?w = "if ?done = [] then w else w\<lparr>commit_index := last ?done\<rparr>"
  have "storage_ok env (store w)" using ok by (simp add: inner_ok_def)
  from advance_commit_spec [OF this max, of l] h obtain o2 where a: "apply_log env ?w = Inr (w', o2)"
    and l': "match_indices l' = match_indices l" by (auto simp: leader_wait_def rbind_eq_Inr)
  note q = apply_log_quiet [OF a]
  show "match_indices l' = match_indices l" by (rule l')
  show s: "store w' = store w" using q by (simp add: quiet_def)
  show "commit_index w' = commit_index w \<or> by_majority env w' l' (commit_index w')"
  proof (cases "?done = []")
    case False
    from last_in_set [OF this] have d: "committable env w l (last ?done)" "last ?done \<in>
        set (range_incl (commit_index w + 1) (last_log_index (store w)))" by (metis set_takeWhileD)+
    then have "commit_index w + 1 \<le> last ?done" "last ?done \<le> last_log_index (store w)" by (simp_all add: set_range_incl)
    moreover from this(1) have "last ?done \<noteq> 0" using word_less_plus_one [OF max] by auto
    moreover have "quorum w' = quorum w" using q False by (simp add: quiet_def same_node_def quorum_def)
    ultimately have "by_majority env w' l' (last ?done)" using d(1)
      by (simp add: by_majority_def committable_def agree_def l' s)
    with q False show ?thesis by simp
  qed (use q in simp)
qed

text \<open>A leader's step, and the step in which a candidate takes over.\<close>

definition leader_moves :: "'cmd env \<Rightarrow> 'cmd event \<Rightarrow> Inner \<Rightarrow> LeaderState \<Rightarrow> Inner \<Rightarrow> LeaderState \<Rightarrow> bool" where
  "leader_moves env ev w l w' l' \<longleftrightarrow> matches ev l l' \<and>
     (commit_index w' = commit_index w \<or> by_majority env w' l' (commit_index w'))"

lemma leader_moves_wait:
  assumes "matches ev l l1" and "commit_index w1 = commit_index w" and "inner_ok env w1" and "commit_index w1 \<noteq> - 1"
    and "leader_wait env w1 l1 = Inr (RaftWorkerState.Leader w' l', out)"
  shows "leader_moves env ev w l w' l'"
  using leader_wait_matches [OF assms(3-5)] assms(1,2) by (auto simp: leader_moves_def matches_def)

lemma leader_rpc_matches:
  assumes ok: "inner_ok env w" and h: "leader_handle_rpc env w l rpc tx = Inr (w', l', out, ch)" and ch: "ch \<noteq> BecomeFollower"
  shows "match_indices l' = match_indices l \<and> commit_index w' = commit_index w"
proof (cases rpc)
  case (ForwardClientRequest req)
  with h have "handle_client_request env w l req (RelayTx tx) = Inr (w', l', out)"
    by (auto simp: leader_handle_rpc_def Let_def rbind_eq_Inr)
  from handle_client_request_matches [OF this] show ?thesis .
next
  case (AppendEntries q)
  with h obtain s b where "update_term env (store w) (ae_term q) = Inr (s, b)"
    by (auto simp: leader_handle_rpc_def Let_def rbind_eq_Inr)
  with h ch AppendEntries show ?thesis by (cases b) (auto simp: leader_handle_rpc_def Let_def rbind_eq_Inr)
next
  case (RequestVote q)
  with h obtain s b where "update_term env (store w) (rv_term q) = Inr (s, b)"
    by (auto simp: leader_handle_rpc_def Let_def rbind_eq_Inr)
  with h ch RequestVote show ?thesis by (cases b) (auto simp: leader_handle_rpc_def Let_def rbind_eq_Inr)
qed

lemma not_follower: "after out (to_follower env w) \<noteq> Inr (RaftWorkerState.Leader w' l', out')"
  using to_follower_quiet [of env w] by (fastforce simp: after_eq_Inr)

lemma step_leader_moves:
  assumes ok: "inner_ok env w" and room: "room w 102" and c: "commits_ok w" and ev: "carried ev"
    and step: "worker_step env (RaftWorkerState.Leader w l) ev = Inr (RaftWorkerState.Leader w' l', out)"
  shows "leader_moves env ev w l w' l'"
proof -
  let ?st = "RaftWorkerState.Leader w l"
  note pre = ok room c
  have go: ?thesis if h: "handled env ?st ev w1 o1 LeaderRole" and m: "matches ev l l1" "commit_index w1 = commit_index w"
    and a: "leader_wait env w1 l1 = Inr (RaftWorkerState.Leader w' l', o2)" for w1 l1 o1 o2
  proof -
    have "inner_ok env w1" using handled_log [OF _ _ _ h] ok room ev by (auto simp: log_step_def room_def carried_def)
    moreover have "commit_index w1 \<noteq> - 1"
      by (rule handled_commit_max [OF _ _ h ev handled_kept [OF _ _ _ ev h]]) (use pre in simp_all)
    ultimately show ?thesis by (rule leader_moves_wait [OF m _ _ a])
  qed
  from step have s: "leader_step env w l ev = Inr (RaftWorkerState.Leader w' l', out)" by (simp add: worker_step_def)
  show ?thesis
  proof (cases ev)
    case (RpcEvent rpc tx)
    with s obtain w1 l1 o1 ch where h: "leader_handle_rpc env w l rpc tx = Inr (w1, l1, o1, ch)"
      and a: "after o1 (if ch = BecomeFollower then to_follower env w1 else leader_wait env w1 l1) = Inr (RaftWorkerState.Leader w' l', out)"
      by (auto simp: leader_step_def rbind_eq_Inr)
    from a have ch: "ch \<noteq> BecomeFollower" using not_follower [of o1 env w1 w' l' out] by (cases ch) simp_all
    with a obtain o2 where "leader_wait env w1 l1 = Inr (RaftWorkerState.Leader w' l', o2)" by (auto simp: after_eq_Inr)
    with leader_rpc_matches [OF ok h ch] handled.leader_rpc [OF h] ch show ?thesis unfolding RpcEvent
      by (intro go [unfolded RpcEvent]) (auto intro: matches_same)
  next
    case (ClientEvent req tx)
    with s obtain w1 l1 o1 o2 where h: "handle_client_request env w l req (ClientTx tx) = Inr (w1, l1, o1)"
      and a: "leader_wait env w1 l1 = Inr (RaftWorkerState.Leader w' l', o2)"
      by (auto simp: leader_step_def rbind_eq_Inr after_eq_Inr)
    from handle_client_request_matches [OF h] handled.leader_client [OF h] a show ?thesis unfolding ClientEvent
      by (intro go [unfolded ClientEvent]) (auto intro: matches_same)
  next
    case (PeerEvent p)
    with s have "leader_wait env (handle_new_peer w p) l = Inr (RaftWorkerState.Leader w' l', out)" by (simp add: leader_step_def)
    with handled.peer [of env ?st p] show ?thesis unfolding PeerEvent
      by (intro go [unfolded PeerEvent]) (auto intro: matches_same simp: handle_new_peer_def)
  next
    case TimerEvent
    with s obtain l1 o1 o2 where h: "leader_heartbeat env w l = Inr (l1, o1)"
      and a: "leader_wait env w l1 = Inr (RaftWorkerState.Leader w' l', o2)"
      by (auto simp: leader_step_def rbind_eq_Inr after_eq_Inr)
    from h have "match_indices l1 = match_indices l"
      by (auto simp: leader_heartbeat_def rbind_eq_Inr dest: append_entries_all_matches)
    with handled.leader_timer [OF h] a show ?thesis unfolding TimerEvent
      by (intro go [unfolded TimerEvent]) (auto intro: matches_same)
  next
    case (AppendResponse p i j res)
    with s obtain w1 l1 o1 ch where h: "handle_append_entries_response env w l p i j res = Inr (w1, l1, o1, ch)"
      and a: "after o1 (if ch = BecomeFollower then to_follower env w1 else leader_wait env w1 l1) = Inr (RaftWorkerState.Leader w' l', out)"
      by (auto simp: leader_step_def rbind_eq_Inr)
    from a have ch: "ch \<noteq> BecomeFollower" using not_follower [of o1 env w1 w' l' out] by (cases ch) simp_all
    with a obtain o2 where "leader_wait env w1 l1 = Inr (RaftWorkerState.Leader w' l', o2)" by (auto simp: after_eq_Inr)
    with handle_append_entries_response_matches [OF h] handled.leader_response [OF h] ch show ?thesis unfolding AppendResponse
      by (intro go [unfolded AppendResponse]) auto
  next
    case (ConnectionLost p)
    with s have "leader_wait env (connection_lost w p) l = Inr (RaftWorkerState.Leader w' l', out)" by (simp add: leader_step_def)
    with handled.lost [of env ?st p] show ?thesis unfolding ConnectionLost
      by (intro go [unfolded ConnectionLost]) (auto intro: matches_same simp: connection_lost_def)
  next
    case VoteEvent
    with s show ?thesis by (simp add: leader_step_def leader_moves_def matches_same)
  qed
qed

lemma step_takes_over:
  assumes ok: "inner_ok env w" and room: "room w 102" and c: "commits_ok w"
    and step: "worker_step env (RaftWorkerState.Candidate w v) ev = Inr (RaftWorkerState.Leader w' l', out)"
  shows "match_indices l' = map (\<lambda>p. (p, 0)) (peers w)"
    and "commit_index w' = commit_index w \<or> by_majority env w' l' (commit_index w')"
proof -
  have "node_ok (inner_of (RaftWorkerState.Candidate w v))" using inner_ok_node [OF ok] by simp
  note nok = this
  have ev: "ev = VoteEvent"
  proof (cases "RaftWorkerState.Candidate w v" ev rule: event_cases)
    case other
    from step_other(1) [OF nok other step] show ?thesis by (simp add: stays_def)
  next
    case (vote req tx)
    from step_vote_request [OF nok step [unfolded vote]] obtain resp :: RequestVoteResponse
      where "role_of (RaftWorkerState.Leader w' l') = (if term_of w < rv_term req then FollowerRole else CandidateRole v)"
      by (metis inner_of.simps(2) role_of.simps(2))
    then show ?thesis by (simp split: if_splits)
  next
    case timer
    from step_timer [OF nok timer(2) step [unfolded timer(1)]] show ?thesis by simp
  qed
  let ?w = "w\<lparr>leader_id := Some (node_id w)\<rparr>"
  have cw: "candidate_wait env w1 v1 \<noteq> Inr (RaftWorkerState.Leader w' l', out)" for w1 v1
    using candidate_wait_quiet [of env w1 v1] by fastforce
  from step ev have "to_leader env w = Inr (RaftWorkerState.Leader w' l', out)"
    using cw by (auto simp: worker_step_def candidate_step_def split: if_splits)
  then obtain l where a: "leader_wait env ?w l = Inr (RaftWorkerState.Leader w' l', out)"
    and l: "match_indices l = map (\<lambda>p. (p, 0)) (peers w)"
    by (simp add: to_leader_def become_leader_def)
  have "inner_ok env ?w" using ok by (simp add: inner_ok_def)
  moreover have "commit_index ?w \<noteq> - 1"
    using c room_max [OF room] by (auto simp: commits_ok_def) (metis word_order.extremum_uniqueI)
  ultimately show "match_indices l' = map (\<lambda>p. (p, 0)) (peers w)"
    and "commit_index w' = commit_index w \<or> by_majority env w' l' (commit_index w')"
    using leader_wait_matches [OF _ _ a] l by simp_all
qed

end
