(* ===== verification/AnswerTypes.thy ===== *)
theory AnswerTypes
  imports Terms
begin

text \<open>
  An RPC is answered with a response of its own kind, so the tasks that called never reach the
  \<^verbatim>\<open>unreachable!\<close> arms of raft/worker.rs. A leader keeps the channels of forwarded requests until
  it commits, which is why this is an invariant of the cluster and not only of a handler.
\<close>

section \<open>Kinds\<close>

datatype kind = VoteKind | AppendKind | ForwardKind

fun request_kind :: "'cmd RpcRequest \<Rightarrow> kind" where
  "request_kind (RequestVote q) = VoteKind"
| "request_kind (AppendEntries q) = AppendKind"
| "request_kind (ForwardClientRequest q) = ForwardKind"

fun response_kind :: "'cmd RpcResponse \<Rightarrow> kind" where
  "response_kind (RequestVoteR r) = VoteKind"
| "response_kind (AppendEntriesR r) = AppendKind"
| "response_kind (ForwardClientRequestR r) = ForwardKind"

fun tag_kind :: "tag \<Rightarrow> kind" where
  "tag_kind (VoteTag t) = VoteKind"
| "tag_kind (AppendTag t p i j) = AppendKind"
| "tag_kind (ForwardTag k) = ForwardKind"

fun packet_typed :: "'cmd packet \<Rightarrow> bool" where
  "packet_typed (Call orig req) = (request_kind req = tag_kind (o_tag orig))"
| "packet_typed (Answer orig (Inr resp)) = (response_kind resp = tag_kind (o_tag orig))"
| "packet_typed (Answer orig (Inl err)) = True"

section \<open>A node's answers\<close>

text \<open>The channels that a leader keeps for its clients, and those among them that are an RPC's.\<close>

fun held_channels :: "RaftWorkerState \<Rightarrow> reply_to set" where
  "held_channels (RaftWorkerState.Leader w l) = snd ` set (in_flight_client_requests l)"
| "held_channels _ = {}"

definition relayed :: "'cmd event \<Rightarrow> reply_to set" where
  "relayed ev = (case ev of RpcEvent (ForwardClientRequest req) tx \<Rightarrow> {RelayTx tx}
     | ClientEvent req k \<Rightarrow> {ClientTx k} | _ \<Rightarrow> {})"

text \<open>Every answer is to the RPC of the event, of its kind, or to a channel of \<open>W\<close>.\<close>

fun answers_event :: "'cmd event \<Rightarrow> reply_to set \<Rightarrow> 'cmd effect \<Rightarrow> bool" where
  "answers_event ev W (RpcReply tx resp) = (\<exists>req. ev = RpcEvent req tx \<and> response_kind resp = request_kind req)"
| "answers_event ev W (ClientReply rt res) = (rt \<in> W)"
| "answers_event ev W _ = True"

definition replies_ok :: "'cmd event \<Rightarrow> reply_to set \<Rightarrow> (RaftWorkerState \<times> 'cmd effect list) result \<Rightarrow> bool" where
  "replies_ok ev W r \<longleftrightarrow> (\<forall>st out. r = Inr (st, out) \<longrightarrow> held_channels st \<subseteq> W \<and> list_all (answers_event ev W) out)"

lemma replies_after: "replies_ok ev W r \<Longrightarrow> list_all (answers_event ev W) out \<Longrightarrow> replies_ok ev W (after out r)"
  by (auto simp: replies_ok_def after_eq_Inr)

lemma replies_rbind: "(\<And>x. r = Inr x \<Longrightarrow> replies_ok ev W (f x)) \<Longrightarrow> replies_ok ev W (rbind r f)"
  by (cases r) (simp_all add: rbind_def replies_ok_def)

lemma apply_log_replies: "apply_log env w = Inr (w', out) \<Longrightarrow> list_all (answers_event ev W) out"
  by (erule apply_log_frame) (auto simp: list_all_iff)

lemma ack_requests_replies:
  assumes "snd ` set (in_flight_client_requests l) \<subseteq> W" and "ack_requests l idxs = (l', out)"
  shows "snd ` set (in_flight_client_requests l') \<subseteq> W \<and> list_all (answers_event ev W) out"
proof -
  have "snd ` set (in_flight_client_requests l) \<subseteq> W \<Longrightarrow> list_all (answers_event ev W) out \<Longrightarrow>
      foldl (\<lambda>(l, out) idx. case map_of (in_flight_client_requests l) idx of
          Some tx \<Rightarrow> (l\<lparr>in_flight_client_requests := AList.delete idx (in_flight_client_requests l)\<rparr>,
                      out @ [ClientReply tx (Inr Ack)])
        | None \<Rightarrow> (l, out)) (l, out) idxs = (l', out') \<Longrightarrow>
      snd ` set (in_flight_client_requests l') \<subseteq> W \<and> list_all (answers_event ev W) out'" for l out l' out'
  proof (induction idxs arbitrary: l out)
    case (Cons i idxs)
    show ?case
    proof (cases "map_of (in_flight_client_requests l) i")
      case None
      with Cons show ?thesis by simp
    next
      case (Some tx)
      let ?l = "l\<lparr>in_flight_client_requests := AList.delete i (in_flight_client_requests l)\<rparr>"
      from map_of_SomeD [OF Some] Cons.prems(1) have "tx \<in> W" by force
      moreover have "snd ` set (in_flight_client_requests ?l) \<subseteq> W"
        using Cons.prems(1) by (auto simp: AList.delete_eq)
      ultimately show ?thesis
        using Cons.IH [of ?l "out @ [ClientReply tx (Inr Ack)]"] Cons.prems(2,3) Some by simp
    qed
  qed simp
  from this [OF assms(1), of "[]"] assms(2) show ?thesis by (simp add: ack_requests_def)
qed

lemma wait_replies [intro]:
  "replies_ok ev W (follower_wait env w)" "replies_ok ev W (to_follower env w)"
  "replies_ok ev W (candidate_wait env w v)"
  by (auto simp: replies_ok_def follower_wait_def to_follower_def candidate_wait_def after_eq_Inr rbind_eq_Inr
      dest: apply_log_replies)

lemma leader_wait_replies:
  assumes "snd ` set (in_flight_client_requests l) \<subseteq> W"
  shows "replies_ok ev W (leader_wait env w l)"
  unfolding replies_ok_def
proof (intro allI impI)
  fix st out assume "leader_wait env w l = Inr (st, out)"
  then obtain w1 l1 o1 w2 o2 where a: "advance_commit_index env w l = Inr (w1, l1, o1)"
    and b: "apply_log env w1 = Inr (w2, o2)" and st: "st = RaftWorkerState.Leader w2 l1" "out = o1 @ o2"
    by (auto simp: leader_wait_def rbind_eq_Inr)
  from a obtain idxs where "ack_requests l idxs = (l1, o1)"
    by (auto simp: advance_commit_index_def Let_def rbind_eq_Inr split: prod.splits)
  from ack_requests_replies [OF assms this] apply_log_replies [OF b] st
  show "held_channels st \<subseteq> W \<and> list_all (answers_event ev W) out" by simp
qed

lemma to_leader_replies [intro]: "replies_ok ev W (to_leader env w)"
  by (simp add: to_leader_def become_leader_def leader_wait_replies)

section \<open>Each role's step\<close>

lemma append_entries_replies:
  assumes "append_entries env w l p = Inr (l', out)"
  shows "in_flight_client_requests l' = in_flight_client_requests l \<and> list_all (answers_event ev W) out"
proof (cases "map_of (peer_clients w) p")
  case (Some client)
  with assms show ?thesis
    by (auto simp: append_entries_def Let_def rbind_eq_Inr split: option.splits if_splits)
qed (use assms in \<open>simp add: append_entries_def\<close>)

lemma append_entries_all_replies:
  "append_entries_all env w l ps = Inr (l', out) \<Longrightarrow>
   in_flight_client_requests l' = in_flight_client_requests l \<and> list_all (answers_event ev W) out"
proof (induction ps arbitrary: l l' out)
  case (Cons p ps)
  then obtain l1 o1 o2 where "append_entries env w l p = Inr (l1, o1)" "append_entries_all env w l1 ps = Inr (l', o2)"
    and "out = o1 @ o2" by (auto simp: rbind_eq_Inr)
  with Cons.IH append_entries_replies [of env w l p l1 o1] show ?case by fastforce
qed simp

lemma handle_client_request_replies:
  assumes h: "handle_client_request env w l req rt = Inr (w', l', out)"
    and W: "snd ` set (in_flight_client_requests l) \<subseteq> W" and rt: "rt \<in> W"
  shows "snd ` set (in_flight_client_requests l') \<subseteq> W \<and> list_all (answers_event ev W) out"
proof (cases req)
  case (Apply cmd)
  let ?l = "l\<lparr>in_flight_client_requests :=
    AList.update (last_log_index (store w) + 1) rt (in_flight_client_requests l)\<rparr>"
  from h Apply obtain w1 ps o1 where a: "append_entries_all env w1 ?l ps = Inr (l', o1)"
    and out: "out = o1 @ [ResetHeartbeat]"
    by (auto simp: handle_client_request_def handle_log_update_def Let_def rbind_eq_Inr)
  have "snd ` set (AList.update i rt m) \<subseteq> insert rt (snd ` set m)" for i :: u64 and m
    by (induction m) auto
  with W rt append_entries_all_replies [OF a, of ev W] out show ?thesis by fastforce
qed (use h W rt in \<open>auto simp: handle_client_request_def handle_debug_def\<close>)

lemma follower_step_replies: "replies_ok ev (relayed ev) (follower_step env w ev)"
proof (cases ev)
  case (RpcEvent rpc tx)
  have "list_all (answers_event ev (relayed ev)) o1" if "follower_handle_rpc env w rpc tx = Inr (w1, o1)" for w1 o1
    using that by (cases rpc) (auto simp: follower_handle_rpc_def rbind_eq_Inr RpcEvent)
  then show ?thesis by (auto simp: follower_step_def RpcEvent intro!: replies_rbind replies_after)
next
  case (ClientEvent req tx)
  then show ?thesis
    by (auto simp: follower_step_def follower_handle_client_def forward_client_request_def handle_debug_def relayed_def
        intro!: replies_after split: ClientRequest.splits option.splits)
next
  case TimerEvent
  have "list_all (answers_event ev (relayed ev)) o1" if "candidate_start env w0 = Inr (w1, v, o1)" for w0 w1 v o1
    using that by (auto simp: candidate_start_def request_votes_def Let_def rbind_eq_Inr list_all_iff split: if_splits)
  then show ?thesis by (auto simp: follower_step_def to_candidate_def TimerEvent intro!: replies_rbind replies_after)
qed (auto simp: follower_step_def replies_ok_def [of _ _ "Inr _"])

lemma candidate_step_replies: "replies_ok ev (relayed ev) (candidate_step env w v ev)"
proof (cases ev)
  case (RpcEvent rpc tx)
  have "list_all (answers_event ev (relayed ev)) o1" if "candidate_handle_rpc env w rpc tx = Inr (w1, o1, ch)" for w1 o1 ch
    using that by (cases rpc) (auto simp: candidate_handle_rpc_def rbind_eq_Inr RpcEvent)
  then show ?thesis by (auto simp: candidate_step_def RpcEvent intro!: replies_rbind replies_after)
next
  case (ClientEvent req tx)
  then show ?thesis
    by (auto simp: candidate_step_def candidate_handle_client_def handle_debug_def relayed_def
        intro!: replies_after split: ClientRequest.splits)
next
  case TimerEvent
  have "list_all (answers_event ev (relayed ev)) o1" if "candidate_start env w0 = Inr (w1, v, o1)" for w0 w1 v o1
    using that by (auto simp: candidate_start_def request_votes_def Let_def rbind_eq_Inr list_all_iff split: if_splits)
  then show ?thesis by (auto simp: candidate_step_def to_candidate_def TimerEvent intro!: replies_rbind replies_after)
qed (auto simp: candidate_step_def replies_ok_def [of _ _ "Inr _"])


lemma leader_rpc_replies:
  assumes h: "leader_handle_rpc env w l rpc tx = Inr (w', l', out, ch)"
    and W: "snd ` set (in_flight_client_requests l) \<union> relayed (RpcEvent rpc tx) \<subseteq> W"
  shows "snd ` set (in_flight_client_requests l') \<subseteq> W \<and> list_all (answers_event (RpcEvent rpc tx) W) out"
proof (cases rpc)
  case (ForwardClientRequest req)
  with h have "handle_client_request env w l req (RelayTx tx) = Inr (w', l', out)"
    by (auto simp: leader_handle_rpc_def Let_def rbind_eq_Inr)
  from handle_client_request_replies [OF this] W ForwardClientRequest show ?thesis by (simp add: relayed_def)
qed (use h W in \<open>auto simp: leader_handle_rpc_def Let_def rbind_eq_Inr split: if_splits\<close>)

lemma response_replies:
  assumes h: "handle_append_entries_response env w l p i j res = Inr (w', l', out, ch)"
  shows "in_flight_client_requests l' = in_flight_client_requests l \<and> list_all (answers_event ev W) out"
proof (cases "out = []")
  case True
  with h show ?thesis
    by (auto simp: handle_append_entries_response_def Let_def rbind_eq_Inr dest: append_entries_replies
        split: sum.splits RpcResponse.splits if_splits option.splits)
next
  case False
  with h obtain w1 l1 l2 where "append_entries env w1 l1 p = Inr (l2, out)" "l' = l2"
    "in_flight_client_requests l1 = in_flight_client_requests l"
    by (auto simp: handle_append_entries_response_def Let_def rbind_eq_Inr
        split: sum.splits RpcResponse.splits if_splits option.splits)
  with append_entries_replies [of env w1 l1 p l2 out] show ?thesis by simp
qed

lemma leader_turn_replies:
  assumes "\<And>w l out ch. r = Inr (w, l, out, ch) \<Longrightarrow>
      snd ` set (in_flight_client_requests l) \<subseteq> W \<and> list_all (answers_event ev W) out"
  shows "replies_ok ev W (rbind r (\<lambda>(w, l, out, ch).
      after out (if ch = BecomeFollower then to_follower env w else leader_wait env w l)))"
proof (rule replies_rbind)
  fix x assume "r = Inr x"
  moreover obtain w l out ch where "x = (w, l, out, ch)" by (cases x)
  ultimately show "replies_ok ev W (case x of (w, l, out, ch) \<Rightarrow>
      after out (if ch = BecomeFollower then to_follower env w else leader_wait env w l))"
    using assms wait_replies(2) [of ev W env w] leader_wait_replies [of l W ev env w] by (auto intro!: replies_after)
qed

lemma leader_step_replies:
  assumes W: "snd ` set (in_flight_client_requests l) \<union> relayed ev \<subseteq> W"
  shows "replies_ok ev W (leader_step env w l ev)"
proof (cases ev)
  case (RpcEvent rpc tx)
  have "replies_ok (RpcEvent rpc tx) W (leader_step env w l (RpcEvent rpc tx))"
    unfolding leader_step_def event.case
    by (rule leader_turn_replies) (rule leader_rpc_replies, use W RpcEvent in auto)
  then show ?thesis by (simp only: RpcEvent)
next
  case (ClientEvent req tx)
  have "replies_ok ev W (case x of (w, l, out) \<Rightarrow> after out (leader_wait env w l))"
    if "handle_client_request env w l req (ClientTx tx) = Inr x" for x
  proof -
    obtain w1 l1 o1 where x: "x = (w1, l1, o1)" by (cases x)
    have "snd ` set (in_flight_client_requests l1) \<subseteq> W \<and> list_all (answers_event ev W) o1"
      by (rule handle_client_request_replies [OF that [unfolded x]]) (use W in \<open>simp_all add: ClientEvent relayed_def\<close>)
    then show ?thesis by (simp add: x replies_after leader_wait_replies)
  qed
  then show ?thesis by (simp add: leader_step_def ClientEvent replies_rbind)
next
  case TimerEvent
  have "in_flight_client_requests l1 = in_flight_client_requests l \<and> list_all (answers_event ev W) o1"
    if "leader_heartbeat env w l = Inr (l1, o1)" for l1 o1
    using that append_entries_all_replies [of env w l "peers w"] by (auto simp: leader_heartbeat_def rbind_eq_Inr)
  with W have "replies_ok ev W (case x of (l, out) \<Rightarrow> after out (leader_wait env w l))"
    if "leader_heartbeat env w l = Inr x" for x
    using that by (cases x) (simp add: replies_after leader_wait_replies)
  then show ?thesis by (simp add: leader_step_def TimerEvent replies_rbind)
next
  case (AppendResponse p i j res)
  have "replies_ok ev W (leader_step env w l (AppendResponse p i j res))"
    unfolding leader_step_def event.case
  proof (rule leader_turn_replies)
    fix w1 l1 o1 ch assume "handle_append_entries_response env w l p i j res = Inr (w1, l1, o1, ch)"
    from response_replies [OF this, of ev W] W
    show "snd ` set (in_flight_client_requests l1) \<subseteq> W \<and> list_all (answers_event ev W) o1" by simp
  qed
  then show ?thesis by (simp only: AppendResponse)
qed (use W in \<open>auto simp: leader_step_def replies_ok_def [of _ _ "Inr _"] intro!: leader_wait_replies\<close>)

lemma worker_step_replies:
  assumes "worker_step env st ev = Inr (st', out)"
  shows "held_channels st' \<subseteq> held_channels st \<union> relayed ev \<and> list_all (answers_event ev (held_channels st \<union> relayed ev)) out"
proof -
  have "replies_ok ev (held_channels st \<union> relayed ev) (worker_step env st ev)"
  proof (cases st)
    case (Leader w l)
    with leader_step_replies [of l ev "held_channels st \<union> relayed ev" env w] show ?thesis by (simp add: worker_step_def)
  qed (simp_all add: worker_step_def follower_step_replies candidate_step_replies)
  with assms show ?thesis by (simp add: replies_ok_def)
qed


section \<open>The cluster\<close>

text \<open>Channel \<open>tx\<close> has been used, and if its RPC is still being served it is of kind \<open>k\<close>.\<close>

definition channel_for :: "kind \<Rightarrow> nat \<Rightarrow> 'cmd cluster \<Rightarrow> bool" where
  "channel_for k tx cl \<longleftrightarrow> tx < next_tx cl \<and> (\<forall>orig. (tx, orig) \<in> set (pending cl) \<longrightarrow> tag_kind (o_tag orig) = k)"

definition typed :: "'cmd cluster \<Rightarrow> bool" where
  "typed cl \<longleftrightarrow> (\<forall>pk \<in> set (net cl). packet_typed pk) \<and> (\<forall>p \<in> set (pending cl). fst p < next_tx cl) \<and>
     (\<forall>n st tx. nodes cl n = Some st \<longrightarrow> RelayTx tx \<in> held_channels st \<longrightarrow> channel_for ForwardKind tx cl)"

fun effect_typed :: "'cmd cluster \<Rightarrow> 'cmd effect \<Rightarrow> bool" where
  "effect_typed cl (RpcReply tx resp) = channel_for (response_kind resp) tx cl"
| "effect_typed cl (ClientReply (RelayTx tx) res) = channel_for ForwardKind tx cl"
| "effect_typed cl _ = True"

text \<open>Emitting only ends RPCs.\<close>

lemma emit_pending: "set (pending (emit n cl e)) \<subseteq> set (pending cl) \<and> next_tx (emit n cl e) = next_tx cl"
proof (cases e)
  case (ClientReply rt res)
  then show ?thesis by (cases rt) (auto simp: respond_def AList.delete_eq split: option.splits)
qed (auto simp: respond_def send_def AList.delete_eq split: option.splits)

lemma emit_channel: "channel_for k tx cl \<Longrightarrow> channel_for k tx (emit n cl e)"
  using emit_pending [of n cl e] by (auto simp: channel_for_def)

lemma emit_effect_typed: "effect_typed cl e' \<Longrightarrow> effect_typed (emit n cl e) e'"
  by (cases "(cl, e')" rule: effect_typed.cases) (simp_all add: emit_channel)

lemma respond_typed:
  assumes "typed cl" and "channel_for (response_kind resp) tx cl"
  shows "\<forall>pk \<in> set (net (respond tx resp cl)). packet_typed pk"
  using assms by (auto simp: respond_def typed_def channel_for_def split: option.splits dest: map_of_SomeD)

lemma emit_typed:
  assumes "typed cl" and "effect_typed cl e"
  shows "typed (emit n cl e)"
proof -
  have "\<forall>pk \<in> set (net (emit n cl e)). packet_typed pk"
    using assms respond_typed [OF assms(1)] respond_typed [OF assms(1), of "ForwardClientRequestR res" for res]
    by (cases "(n, cl, e)" rule: emit.cases) (auto simp: send_def typed_def)
  moreover have "nodes (emit n cl e) = nodes cl" using emits_frame(1) [of n cl "[e]"] by simp
  ultimately show ?thesis using assms(1) emit_pending [of n cl e] emit_channel
    unfolding typed_def by (metis subsetD)
qed

lemma emits_typed:
  "typed cl \<Longrightarrow> list_all (effect_typed cl) out \<Longrightarrow> typed (foldl (emit n) cl out)"
proof (induction out arbitrary: cl)
  case (Cons e out)
  have "list_all (effect_typed (emit n cl e)) out"
    using Cons.prems(2) by (auto simp: list_all_iff intro: emit_effect_typed)
  with Cons emit_typed [of cl e n] show ?case by simp
qed simp


lemma typed_run_event:
  assumes ok: "typed cl" and ev: "\<And>req tx. ev = RpcEvent req tx \<Longrightarrow> channel_for (request_kind req) tx cl"
  shows "typed (run_event env n ev cl)"
proof (cases "nodes cl n")
  case None
  with ok show ?thesis by (simp add: run_event_def)
next
  case (Some st)
  show ?thesis
  proof (cases "worker_step env st ev")
    case (Inl e)
    with ok show ?thesis by (simp add: run_event_def Some finish_def typed_def set_node_def channel_for_def)
  next
    case (Inr x)
    obtain st' out where x: "x = (st', out)" by force
    from worker_step_replies [OF Inr [unfolded x]] have wt: "held_channels st' \<subseteq> held_channels st \<union> relayed ev"
      and out: "list_all (answers_event ev (held_channels st \<union> relayed ev)) out" by simp_all
    let ?cl = "set_node n (Some st') cl"
    have ch: "channel_for k tx ?cl = channel_for k tx cl" for k tx by (simp add: channel_for_def set_node_def)
    have relay: "channel_for ForwardKind tx cl" if "RelayTx tx \<in> held_channels st \<union> relayed ev" for tx
      using that
    proof
      assume "RelayTx tx \<in> held_channels st"
      with ok Some show ?thesis by (auto simp: typed_def)
    next
      assume "RelayTx tx \<in> relayed ev"
      then obtain req where "ev = RpcEvent (ForwardClientRequest req) tx"
        by (auto simp: relayed_def split: event.splits RpcRequest.splits)
      with ev show ?thesis by fastforce
    qed
    have "typed ?cl" using ok wt relay unfolding typed_def ch by (auto simp: set_node_def)
    moreover have "effect_typed ?cl e" if "answers_event ev (held_channels st \<union> relayed ev) e" for e
      using that ev relay by (cases "(cl, e)" rule: effect_typed.cases) (auto simp: ch)
    then have "list_all (effect_typed ?cl) out" using out by (auto simp: list_all_iff)
    ultimately show ?thesis by (simp add: run_event_def Some finish_def Inr x emits_typed)
  qed
qed

lemma typed_frame:
  "typed cl \<Longrightarrow> nodes cl' = nodes cl \<Longrightarrow> set (net cl') \<subseteq> set (net cl) \<Longrightarrow> set (pending cl') \<subseteq> set (pending cl) \<Longrightarrow>
   next_tx cl' = next_tx cl \<Longrightarrow> typed cl'"
  by (auto simp: typed_def channel_for_def subset_iff)

lemma typed_take: "typed cl \<Longrightarrow> typed (take_packet k cl)"
  by (erule typed_frame) (auto simp: take_packet_def dest: in_set_takeD in_set_dropD)

lemma typed_outcome:
  assumes "typed cl"
  shows "typed (call_outcome env orig res cl)"
proof -
  have "typed (run_event env n ev cl)" if "\<And>req tx. ev \<noteq> RpcEvent req tx" for n ev
    using assms that by (intro typed_run_event) auto
  moreover have "typed (foldl (emit n) cl out)" if "forward_outcome res k = Inr out" for n k out
    using that assms by (intro emits_typed) (auto simp: forward_outcome_def split: sum.splits RpcResponse.splits)
  ultimately show ?thesis using assms by (auto simp: call_outcome_def Let_def split: tag.splits sum.splits)
qed

lemma typed_serve:
  assumes ok: "typed cl" and "request_kind req = tag_kind (o_tag orig)"
  shows "typed (serve env orig req cl)"
proof -
  let ?cl = "cl\<lparr>pending := (next_tx cl, orig) # pending cl, next_tx := next_tx cl + 1\<rparr>"
  have old: "channel_for k tx ?cl" if "channel_for k tx cl" for k tx
    using that by (auto simp: channel_for_def)
  have "\<forall>p \<in> set (pending ?cl). fst p < next_tx ?cl" using ok by (auto simp: typed_def intro: less_SucI)
  then have "typed ?cl" using ok old by (simp add: typed_def)
  moreover have "channel_for (request_kind req) (next_tx cl) ?cl"
    using assms by (auto simp: channel_for_def typed_def)
  ultimately show ?thesis by (auto simp: serve_def Let_def intro!: typed_run_event)
qed

lemma typed_restart:
  assumes "typed cl"
  shows "typed (restart env n cl)"
proof (cases "nodes cl n")
  case None
  with assms show ?thesis by (simp add: restart_def)
next
  case (Some st)
  let ?w = "inner_of st"
  let ?cl = "cl\<lparr>boots := (boots cl)(n := boots cl n + 1), applied := (applied cl)(n := [])\<rparr>"
  let ?r = "rbind (worker_new (node_id ?w) (inner_session_key ?w) (peers ?w) [] (storage (store ?w))) (to_follower env)"
  have ok: "typed ?cl" by (rule typed_frame [OF assms]) simp_all
  have "replies_ok TimerEvent {} ?r" by (intro replies_rbind wait_replies)
  then have r: "held_channels st' = {} \<and> list_all (answers_event TimerEvent {}) out" if "?r = Inr (st', out)" for st' out
    using that unfolding replies_ok_def by blast
  have "typed (finish n ?r ?cl)"
  proof (cases ?r)
    case (Inl e)
    with ok show ?thesis by (simp add: finish_def typed_def set_node_def channel_for_def)
  next
    case (Inr x)
    obtain st' out where x: "x = (st', out)" by force
    have "typed (set_node n (Some st') ?cl)" using ok r [OF Inr [unfolded x]]
      by (auto simp: typed_def set_node_def channel_for_def)
    moreover have "effect_typed cl' e" if "answers_event TimerEvent {} e" for cl' and e :: "'a effect"
      using that by (cases "(cl', e)" rule: effect_typed.cases) auto
    then have "list_all (effect_typed (set_node n (Some st') ?cl)) out"
      using r [OF Inr [unfolded x]] by (auto simp: list_all_iff)
    ultimately show ?thesis unfolding finish_def Inr x by (simp add: emits_typed)
  qed
  then show ?thesis by (simp add: restart_def Let_def Some)
qed

lemma typed_act:
  assumes ok: "typed cl"
  shows "typed (act env cl a)"
proof (cases a)
  case (Deliver k)
  show ?thesis
  proof (cases "k < length (net cl)")
    case True
    then have "packet_typed (net cl ! k)" using ok by (simp add: typed_def)
    with True Deliver show ?thesis
      by (auto simp: typed_take ok typed_serve typed_outcome split: packet.splits)
  qed (use Deliver ok in simp)
next
  case (Expire tx err)
  have "typed (cl\<lparr>pending := AList.delete tx (pending cl)\<rparr>)"
    by (rule typed_frame [OF ok]) (auto simp: AList.delete_eq)
  with Expire ok show ?thesis by (auto intro: typed_outcome split: option.splits)
qed (use ok in \<open>auto intro!: typed_run_event typed_outcome typed_take typed_restart\<close>)

lemma typed_init: "typed (cluster_init env sk ms)"
proof -
  have "held_channels st = {}" if st: "first_start env sk ms n = Some st" for n st
  proof -
    from st obtain w out where "to_follower env w = Inr (st, out)"
      by (auto simp: first_start_def rbind_eq_Inr split: if_splits sum.splits)
    with wait_replies(2) [of TimerEvent "{}" env w] show ?thesis by (auto simp: replies_ok_def)
  qed
  then show ?thesis by (auto simp: typed_def cluster_init_def)
qed

lemma run_typed: "typed (run env (cluster_init env sk ms) as)"
  by (induction as rule: rev_induct) (simp_all add: run_snoc typed_act, simp add: run_def typed_init)

end
