(* ===== verification/Turns.thy ===== *)
theory Turns
  imports AnswerTypes LogMatching
begin

text \<open>
  What one action makes of a cluster, with the calls that requests and answers belong to: at most
  one node takes a turn, and calls with entries and their successful answers appear only in the
  turn of the node that makes them.
\<close>

section \<open>Packets\<close>

fun append_packet :: "'cmd packet \<Rightarrow> bool" where
  "append_packet (Call orig (AppendEntries q)) = True"
| "append_packet (Answer orig (Inr (AppendEntriesR resp))) = aer_success resp"
| "append_packet _ = False"

text \<open>An event of the node \<open>n\<close>, from what is under way.\<close>

definition event_from :: "'cmd cluster \<Rightarrow> NodeId \<Rightarrow> 'cmd event \<Rightarrow> bool" where
  "event_from cl n ev \<longleftrightarrow> (case ev of
     RpcEvent req tx \<Rightarrow> \<exists>orig. Call orig req \<in> set (net cl) \<and> o_to orig = n
   | AppendResponse p i j (Inr resp) \<Rightarrow> \<exists>orig t. Answer orig (Inr resp) \<in> set (net cl) \<and>
       o_tag orig = AppendTag t p i j \<and> is_leader_in cl n t
   | _ \<Rightarrow> True)"

text \<open>The calls with entries, and their answers, of a turn.\<close>

definition new_packets :: "'cmd cluster \<Rightarrow> NodeId \<Rightarrow> 'cmd event \<Rightarrow> 'cmd effect list \<Rightarrow> 'cmd packet set" where
  "new_packets cl n ev out =
     {Call orig (AppendEntries q) | orig q. \<exists>p i j. CallAppend p i j q \<in> set out \<and> o_to orig = p \<and>
        o_tag orig = AppendTag (ae_term q) p i j} \<union>
     {Answer orig (Inr (AppendEntriesR resp)) | orig resp. \<exists>tx req. ev = RpcEvent req tx \<and>
        RpcReply tx (AppendEntriesR resp) \<in> set out \<and> Call orig req \<in> set (net cl) \<and> o_to orig = n}"

definition packets_from :: "'cmd cluster \<Rightarrow> 'cmd packet set \<Rightarrow> 'cmd cluster \<Rightarrow> bool" where
  "packets_from cl N cl' \<longleftrightarrow> (\<forall>pk \<in> set (net cl'). append_packet pk \<longrightarrow> pk \<in> set (net cl) \<union> N)"

lemma packets_from_mono: "packets_from cl N cl' \<Longrightarrow> set (net cl) \<subseteq> set (net cl0) \<Longrightarrow> N \<subseteq> N' \<Longrightarrow> packets_from cl0 N' cl'"
  unfolding packets_from_def by blast

lemma emit_pending_lookup: "map_of (pending (emit n cl e)) tx = Some orig \<Longrightarrow> map_of (pending cl) tx = Some orig"
proof (cases e)
  case (ClientReply rt res)
  then show "map_of (pending (emit n cl e)) tx = Some orig \<Longrightarrow> ?thesis"
    by (cases rt) (auto simp: respond_def delete_conv split: option.splits if_splits)
qed (auto simp: respond_def send_def delete_conv split: option.splits if_splits)

definition emitted :: "'cmd cluster \<Rightarrow> 'cmd effect set \<Rightarrow> 'cmd packet set" where
  "emitted cl E =
     {Call orig (AppendEntries q) | orig q. \<exists>p i j. CallAppend p i j q \<in> E \<and> o_to orig = p \<and> o_tag orig = AppendTag (ae_term q) p i j} \<union>
     {Answer orig (Inr (AppendEntriesR resp)) | orig resp. \<exists>tx. RpcReply tx (AppendEntriesR resp) \<in> E \<and> map_of (pending cl) tx = Some orig}"

lemma emit_packets_from: "packets_from cl (emitted cl {e}) (emit n cl e)"
proof (cases e)
  case (RpcReply tx resp)
  then show ?thesis by (cases resp) (auto simp: packets_from_def emitted_def respond_def split: option.splits)
next
  case (ClientReply rt res)
  then show ?thesis by (cases rt) (auto simp: packets_from_def emitted_def respond_def split: option.splits)
qed (auto simp: packets_from_def emitted_def send_def)

lemma emits_packets_from: "packets_from cl (emitted cl (set out)) (foldl (emit n) cl out)"
proof (induction out arbitrary: cl)
  case (Cons e out)
  have sub: "emitted (emit n cl e) (set out) \<subseteq> emitted cl (set (e # out))"
    unfolding emitted_def by (intro Un_mono) (auto dest: emit_pending_lookup)
  have one: "emitted cl {e} \<subseteq> emitted cl (set (e # out))" unfolding emitted_def by auto
  show ?case unfolding packets_from_def
  proof (intro ballI impI)
    fix pk assume pk: "pk \<in> set (net (foldl (emit n) cl (e # out)))" "append_packet pk"
    with Cons.IH [of "emit n cl e"] have "pk \<in> set (net (emit n cl e)) \<union> emitted (emit n cl e) (set out)"
      by (simp add: packets_from_def)
    with sub one emit_packets_from [of cl e n] pk(2) show "pk \<in> set (net cl) \<union> emitted cl (set (e # out))"
      unfolding packets_from_def by blast
  qed
qed (simp add: packets_from_def)

section \<open>Turns\<close>

inductive turn :: "'cmd env \<Rightarrow> 'cmd cluster \<Rightarrow> 'cmd cluster \<Rightarrow> bool" for env :: "'cmd env" where
  no_turn: "nodes cl' = nodes cl \<Longrightarrow> packets_from cl {} cl' \<Longrightarrow> turn env cl cl'"
| halts: "nodes cl' = (nodes cl)(n := None) \<Longrightarrow> packets_from cl {} cl' \<Longrightarrow> turn env cl cl'"
| restarts: "nodes cl n = Some st \<Longrightarrow>
    rbind (worker_new (node_id (inner_of st)) (inner_session_key (inner_of st)) (peers (inner_of st)) []
      (storage (store (inner_of st)))) (to_follower env) = Inr (st', out) \<Longrightarrow>
    nodes cl' = (nodes cl)(n := Some st') \<Longrightarrow> packets_from cl {} cl' \<Longrightarrow> turn env cl cl'"
| steps: "nodes cl n = Some st \<Longrightarrow> event_from cl n ev \<Longrightarrow> worker_step env st ev = Inr (st', out) \<Longrightarrow>
    nodes cl' = (nodes cl)(n := Some st') \<Longrightarrow> packets_from cl (new_packets cl n ev out) cl' \<Longrightarrow> turn env cl cl'"

lemma no_turn_refl [simp]: "turn env cl cl"
  by (rule no_turn) (simp_all add: packets_from_def)

text \<open>The frame of a turn: it may start from fewer packets.\<close>

lemma event_from_mono: "event_from cl n ev \<Longrightarrow> nodes cl' = nodes cl \<Longrightarrow> set (net cl) \<subseteq> set (net cl') \<Longrightarrow> event_from cl' n ev"
  unfolding event_from_def is_leader_in_def by (auto split: event.splits sum.splits)

lemma turn_mono:
  assumes "turn env cl cl'" and "nodes cl = nodes cl0" and "set (net cl) \<subseteq> set (net cl0)"
  shows "turn env cl0 cl'"
  using assms(1)
proof cases
  case no_turn
  with assms(2) packets_from_mono [OF no_turn(2) assms(3) order_refl] show ?thesis by (intro turn.no_turn) simp_all
next
  case (halts n)
  with assms(2) packets_from_mono [OF halts(2) assms(3) order_refl] show ?thesis by (intro turn.halts [of _ _ n]) simp_all
next
  case (restarts n st st' out)
  with assms(2) packets_from_mono [OF restarts(4) assms(3) order_refl] show ?thesis
    by (intro turn.restarts [OF _ restarts(2)]) simp_all
next
  case (steps n st ev st' out)
  have "new_packets cl n ev out \<subseteq> new_packets cl0 n ev out" using assms(3) unfolding new_packets_def by blast
  from packets_from_mono [OF steps(5) assms(3) this] steps assms event_from_mono [OF steps(2) assms(2) [symmetric]]
  show ?thesis by (intro turn.steps [OF _ _ steps(3)]) simp_all
qed

lemma turn_run_event:
  assumes src: "event_from cl0 n ev" and nodes: "nodes cl = nodes cl0" and net: "set (net cl) \<subseteq> set (net cl0)"
    and orig: "\<And>req tx orig. ev = RpcEvent req tx \<Longrightarrow> map_of (pending cl) tx = Some orig \<Longrightarrow> Call orig req \<in> set (net cl0) \<and> o_to orig = n"
  shows "turn env cl0 (run_event env n ev cl)"
proof (cases "nodes cl n")
  case None
  with nodes net show ?thesis by (intro turn.no_turn) (auto simp: run_event_def packets_from_def)
next
  case (Some st)
  show ?thesis
  proof (cases "worker_step env st ev")
    case (Inl e)
    with Some nodes net show ?thesis
      by (intro turn.halts [of _ _ n]) (auto simp: run_event_def finish_def set_node_def packets_from_def)
  next
    case (Inr x)
    obtain st' out where x: "x = (st', out)" by force
    note step = Inr [unfolded x]
    let ?cl = "set_node n (Some st') cl"
    have run: "run_event env n ev cl = foldl (emit n) ?cl out" by (simp add: run_event_def Some finish_def step)
    have rep: "\<exists>req. ev = RpcEvent req tx" if "RpcReply tx resp \<in> set out" for tx resp
      using worker_step_replies [OF step] that by (fastforce simp: list_all_iff)
    have "emitted ?cl (set out) \<subseteq> new_packets cl0 n ev out"
      unfolding emitted_def new_packets_def using rep orig by (fastforce simp: set_node_def)
    then have "packets_from cl0 (new_packets cl0 n ev out) (foldl (emit n) ?cl out)"
      using packets_from_mono [OF emits_packets_from [of ?cl out n]] net by (simp add: set_node_def)
    then show ?thesis using Some nodes src step
      by (intro turn.steps [OF _ src step]) (simp_all add: run set_node_def)
  qed
qed

lemma turn_serve:
  assumes pk: "Call orig req \<in> set (net cl0)" and nodes: "nodes cl = nodes cl0" and net: "set (net cl) \<subseteq> set (net cl0)"
  shows "turn env cl0 (serve env orig req cl)"
  unfolding serve_def Let_def
proof (rule turn_run_event)
  show "event_from cl0 (o_to orig) (RpcEvent req (next_tx cl))" using pk by (auto simp: event_from_def)
  show "Call orig' req' \<in> set (net cl0) \<and> o_to orig' = o_to orig"
    if "RpcEvent req (next_tx cl) = RpcEvent req' tx"
      "map_of (pending (cl\<lparr>pending := (next_tx cl, orig) # pending cl, next_tx := next_tx cl + 1\<rparr>)) tx = Some orig'" for req' tx orig'
    using that pk by auto
qed (use nodes net in simp_all)

lemma turn_outcome:
  assumes nodes: "nodes cl = nodes cl0" and net: "set (net cl) \<subseteq> set (net cl0)"
    and res: "\<And>resp. res = Inr resp \<Longrightarrow> Answer orig (Inr resp) \<in> set (net cl0)"
  shows "turn env cl0 (call_outcome env orig res cl)"
proof -
  have same: "turn env cl0 cl" using nodes net by (intro turn.no_turn) (auto simp: packets_from_def)
  have ev: "turn env cl0 (run_event env n ev cl)" if "event_from cl0 n ev" "\<And>req tx. ev \<noteq> RpcEvent req tx" for n ev
    by (rule turn_run_event [OF that(1) nodes net]) (use that(2) in blast)
  have fwd: "turn env cl0 (foldl (emit n) cl out)" if "forward_outcome res k = Inr out" for n k out
  proof -
    have "emitted cl (set out) = {}" using that
      by (auto simp: forward_outcome_def emitted_def split: sum.splits RpcResponse.splits)
    with emits_packets_from [of cl out n] net have "packets_from cl0 {} (foldl (emit n) cl out)"
      by (auto simp: packets_from_def)
    then show ?thesis using nodes by (intro turn.no_turn) simp_all
  qed
  show ?thesis
  proof (cases "o_tag orig")
    case (AppendTag t p i j)
    have "event_from cl0 n (AppendResponse p i j res)" if "is_leader_in cl n t" for n
      using that res nodes AppendTag by (cases res) (auto simp: event_from_def is_leader_in_def)
    with AppendTag same ev show ?thesis by (auto simp: call_outcome_def Let_def)
  next
    case (VoteTag t)
    with same ev [of _ VoteEvent] show ?thesis by (auto simp: call_outcome_def Let_def event_from_def)
  next
    case (ForwardTag k)
    with same fwd show ?thesis by (auto simp: call_outcome_def Let_def split: sum.splits)
  qed
qed

lemma turn_restart: "turn env cl (restart env n cl)"
proof (cases "nodes cl n")
  case None
  then show ?thesis by (simp add: restart_def)
next
  case (Some st)
  let ?w = "inner_of st"
  let ?r = "rbind (worker_new (node_id ?w) (inner_session_key ?w) (peers ?w) [] (storage (store ?w))) (to_follower env)"
  show ?thesis
  proof (cases ?r)
    case (Inl e)
    with Some show ?thesis
      by (intro turn.halts [of _ _ n]) (auto simp: restart_def Let_def finish_def set_node_def packets_from_def)
  next
    case (Inr x)
    obtain st' out where x: "x = (st', out)" by force
    from Inr x obtain w1 where "to_follower env w1 = Inr (st', out)" by (auto simp: rbind_eq_Inr)
    then have loc: "all_local out" using to_follower_quiet by blast
    let ?cl = "set_node n (Some st') (cl\<lparr>boots := (boots cl)(n := boots cl n + 1), applied := (applied cl)(n := [])\<rparr>)"
    have run: "restart env n cl = foldl (emit n) ?cl out" using Some Inr x by (simp add: restart_def Let_def finish_def)
    have "emitted ?cl (set out) = {}" using loc by (auto simp: emitted_def list_all_iff)
    with emits_packets_from [of ?cl out n] have "packets_from cl {} (foldl (emit n) ?cl out)"
      by (simp add: packets_from_def set_node_def)
    then show ?thesis unfolding run by (intro turn.restarts [OF Some Inr [unfolded x]]) (simp_all add: set_node_def)
  qed
qed

theorem act_turn: "turn env cl (act env cl a)"
proof -
  have take: "nodes (take_packet k cl) = nodes cl" "set (net (take_packet k cl)) \<subseteq> set (net cl)" for k
    by (auto simp: take_packet_def dest: in_set_takeD in_set_dropD)
  have ev: "turn env cl (run_event env n ev cl)" if "event_from cl n ev" "\<And>req tx. ev \<noteq> RpcEvent req tx" for n ev
    by (rule turn_run_event [OF that(1)]) (use that(2) in auto)
  show ?thesis
  proof (cases a)
    case (Deliver k)
    show ?thesis
    proof (cases "k < length (net cl)")
      case True
      then have "net cl ! k \<in> set (net cl)" by simp
      show ?thesis
      proof (cases "net cl ! k")
        case (Call orig req)
        with turn_serve [OF _ take, of orig req] \<open>net cl ! k \<in> set (net cl)\<close> Deliver True show ?thesis by simp
      next
        case (Answer orig res)
        have "turn env cl (call_outcome env orig res (take_packet k cl))"
          by (rule turn_outcome [OF take]) (use \<open>net cl ! k \<in> set (net cl)\<close> Answer in simp)
        with Answer Deliver True show ?thesis by simp
      qed
    qed (use Deliver in simp)
  next
    case (Expire tx err)
    have "turn env cl (call_outcome env orig (Inl err) (cl\<lparr>pending := AList.delete tx (pending cl)\<rparr>))" for orig
      by (rule turn_outcome) simp_all
    with Expire show ?thesis by (auto split: option.splits)
  next
    case (Fail k err)
    have "turn env cl (call_outcome env orig (Inl err) (take_packet k cl))" for orig
      by (rule turn_outcome [OF take]) simp
    with Fail show ?thesis by simp
  next
    case (Drop k)
    then show ?thesis using take [of k] by (intro turn.no_turn) (auto simp: packets_from_def)
  next
    case (Restart n)
    with turn_restart show ?thesis by simp
  qed (use ev in \<open>auto simp: event_from_def\<close>)
qed

end
