(* ===== verification/Ballots.thy ===== *)
theory Ballots
  imports LogMatching Completeness
begin

text \<open>
  Raft's rule for votes, which the source does not check, as a condition on runs; and the moment at
  which each voter of a leader cast its ballot.
\<close>

section \<open>Raft's rule\<close>

text \<open>
  Where the node \<open>p\<close> has given its vote to another node in an action, and that node is still a
  candidate of the term, its log is at least as up to date as the voter's.
\<close>

definition raft_vote :: "'cmd env \<Rightarrow> 'cmd cluster \<Rightarrow> 'cmd cluster \<Rightarrow> NodeId \<Rightarrow> bool" where
  "raft_vote env cl cl' p = (case (nodes cl p, nodes cl' p) of
     (Some st, Some st') \<Rightarrow>
       (case vote_of (inner_of st') of
          Some c \<Rightarrow>
            (term_of (inner_of st'), Some c) = (term_of (inner_of st), vote_of (inner_of st)) \<or> c = p \<or>
            \<not> is_candidate_in cl c (term_of (inner_of st')) \<or>
            up_to_date le_term (entries_of env (inner_of st)) (entries_of env (inner_of (the (nodes cl c))))
        | None \<Rightarrow> True)
   | _ \<Rightarrow> True)"

fun raft_votes :: "'cmd env \<Rightarrow> NodeId list \<Rightarrow> 'cmd cluster \<Rightarrow> 'cmd action list \<Rightarrow> bool" where
  "raft_votes env ms cl [] = True"
| "raft_votes env ms cl (a # as) =
     (list_all (raft_vote env cl (act env cl a)) ms \<and> raft_votes env ms (act env cl a) as)"

lemma raft_votes_at:
  "raft_votes env ms cl as \<Longrightarrow> i < length as \<Longrightarrow> p \<in> set ms \<Longrightarrow>
   raft_vote env (run env cl (take i as)) (run env cl (take (Suc i) as)) p"
proof (induction as arbitrary: cl i)
  case (Cons a as)
  then show ?case by (cases i) (auto simp: Let_def run_def list_all_iff)
qed simp

section \<open>Steps of the voting system\<close>

lemma vstep_wins:
  "vstep M q s s' \<Longrightarrow> v_role s' c = VLeader \<Longrightarrow> \<not> (v_role s c = VLeader \<and> v_term s c = v_term s' c) \<Longrightarrow>
   (\<exists>v. v_role s c = VCandidate v) \<and> v_term s' c = v_term s c"
  by (erule vstepE) (auto split: if_splits)

lemma vstep_candidate:
  "vstep M q s s' \<Longrightarrow> v_role s' c = VCandidate v \<Longrightarrow> v_term s' c = v_term s c \<Longrightarrow> \<exists>v. v_role s c = VCandidate v"
  by (erule vstepE) (auto split: if_splits)

lemma vstep_casts:
  assumes ok: "ballots_ok s" and step: "vstep M q s s'" and new: "ballot s' p t = Some c" "ballot s p t \<noteq> Some c" and p: "p \<noteq> c"
  shows "(c, t, p) \<in> called s" and "v_term s p \<le> t" and "v_term s' p = t" and "v_vote s' p = Some c"
    and "(v_term s' p, Some c) \<noteq> (v_term s p, v_vote s p)"
proof -
  have "(c, t, p) \<in> called s \<and> v_term s p \<le> t \<and> v_term s' p = t \<and> v_vote s' p = Some c"
    using step new p by cases (auto split: if_splits)
  moreover have "ballot s p (v_term s p) = v_vote s p" using ok by (simp add: ballots_ok_def)
  ultimately show "(c, t, p) \<in> called s" "v_term s p \<le> t" "v_term s' p = t" "v_vote s' p = Some c"
    "(v_term s' p, Some c) \<noteq> (v_term s p, v_vote s p)" using new(2) by auto
qed

section \<open>Runs\<close>

text \<open>The cluster at a moment of a run, and the voting system beside it.\<close>

definition cluster_at :: "'cmd env \<Rightarrow> u128 \<Rightarrow> NodeId list \<Rightarrow> 'cmd action list \<Rightarrow> nat \<Rightarrow> 'cmd cluster" where
  "cluster_at env sk ms as i = run env (cluster_init env sk ms) (take i as)"

lemma cluster_at_Suc: "i < length as \<Longrightarrow> cluster_at env sk ms as (Suc i) = act env (cluster_at env sk ms as i) (as ! i)"
  by (simp add: cluster_at_def take_Suc_conv_app_nth run_snoc)

definition votes_along :: "NodeId list \<Rightarrow> (nat \<Rightarrow> 'cmd cluster) \<Rightarrow> nat \<Rightarrow> (nat \<Rightarrow> (NodeId, u64) vsys) \<Rightarrow> bool" where
  "votes_along ms C k vs \<longleftrightarrow> vs 0 = v_init (\<lambda>_. 0) (\<lambda>_. None) \<and> (\<forall>i \<le> k. elects ms i (C i) (vs i)) \<and>
     (\<forall>i < k. vstep (set ms) (majority (length ms)) (vs i) (vs (Suc i)) \<and> frozen (C (Suc i)) (vs i) (vs (Suc i)))"

lemma run_votes:
  assumes ms: "distinct ms" and mem: "list_all (member_action ms) as" and len: "length as < 2 ^ 64 - 1"
  shows "k \<le> length as \<Longrightarrow> \<exists>vs. votes_along ms (cluster_at env sk ms as) k vs"
proof (induction k)
  case 0
  show ?case
    by (rule exI [of _ "\<lambda>_. v_init (\<lambda>_. 0) (\<lambda>_. None)"])
      (simp add: votes_along_def cluster_at_def run_def elects_init [OF ms])
next
  case (Suc k)
  let ?C = "cluster_at env sk ms as"
  from Suc obtain vs where vs: "votes_along ms ?C k vs" by auto
  from mem Suc.prems have "member_action ms (as ! k)" by (simp add: list_all_length)
  from elects_act [of ms k "?C k" "vs k" "as ! k" env] vs this Suc.prems len obtain v where
    v: "vstep (set ms) (majority (length ms)) (vs k) v" "elects ms (Suc k) (?C (Suc k)) v" "frozen (?C (Suc k)) (vs k) v"
    by (auto simp: votes_along_def cluster_at_Suc)
  have "votes_along ms ?C (Suc k) (vs(Suc k := v))"
    using vs v by (auto simp: votes_along_def le_Suc_eq less_Suc_eq)
  then show ?case by blast
qed

lemma node_vs:
  assumes "elects ms b cl vs" and "nodes cl n = Some st"
  shows "v_term vs n = term_of (inner_of st)" and "v_vote vs n = vote_of (inner_of st)" and "v_role vs n = vrole_of (role_of st)"
    and "n \<in> set ms"
  using simD [of ms cl vs n st] assms by (simp_all add: elects_def node_rel_def Let_def)

lemma nodes_before:
  "i \<le> j \<Longrightarrow> j \<le> length as \<Longrightarrow> nodes (cluster_at env sk ms as j) n = Some st \<Longrightarrow>
   \<exists>st0. nodes (cluster_at env sk ms as i) n = Some st0"
proof (induction j arbitrary: st rule: dec_induct)
  case (step j)
  then obtain st1 where "nodes (cluster_at env sk ms as j) n = Some st1"
    using nodes_act [of env "cluster_at env sk ms as j" "as ! j" n st] by (auto simp: cluster_at_Suc)
  with step.IH [of st1] step.prems(1) show ?case by simp
qed blast

text \<open>A member's term in the voting system does not fall, and a candidate of a term has been one since it is in the term.\<close>

lemma votes_term:
  assumes "votes_along ms C k vs"
  shows "i \<le> j \<Longrightarrow> j \<le> k \<Longrightarrow> v_term (vs i) p \<le> v_term (vs j) p"
proof (induction j rule: dec_induct)
  case (step j)
  with assms vstep_term [of "set ms" "majority (length ms)" "vs j" "vs (Suc j)" p] show ?case
    by (auto simp: votes_along_def intro: order_trans)
qed simp

lemma votes_candidate:
  assumes vs: "votes_along ms C k vs"
  shows "i \<le> j \<Longrightarrow> j \<le> k \<Longrightarrow> v_role (vs j) c = VCandidate v \<Longrightarrow> v_term (vs i) c = v_term (vs j) c \<Longrightarrow>
    \<exists>v. v_role (vs i) c = VCandidate v"
proof (induction j arbitrary: v rule: dec_induct)
  case (step j)
  have "v_term (vs i) c \<le> v_term (vs j) c" "v_term (vs j) c \<le> v_term (vs (Suc j)) c"
    using step.hyps step.prems(1) votes_term [OF vs] by auto
  then have t: "v_term (vs (Suc j)) c = v_term (vs j) c" using step.prems(3) by simp
  from vs step.prems(1) have "vstep (set ms) (majority (length ms)) (vs j) (vs (Suc j))" by (simp add: votes_along_def)
  from vstep_candidate [OF this step.prems(2) t] step.IH step.prems t show ?case by auto
qed auto

text \<open>The moment of a ballot: the first after which it is in the box.\<close>

lemma ballot_cast:
  assumes vs: "votes_along ms C k vs" and b: "ballot (vs k) p t = Some c"
  obtains e where "e < k" and "ballot (vs (Suc e)) p t = Some c" and "ballot (vs e) p t \<noteq> Some c"
proof -
  have "ballot (vs 0) p t \<noteq> Some c" using vs by (simp add: votes_along_def v_init_def)
  with b have "\<exists>e < k. ballot (vs (Suc e)) p t = Some c \<and> ballot (vs e) p t \<noteq> Some c"
  proof (induction k)
    case (Suc k)
    then show ?case by (cases "ballot (vs k) p t = Some c") (auto intro: less_SucI)
  qed simp
  with that show ?thesis by blast
qed

lemma votes_along_mono: "votes_along ms C k vs \<Longrightarrow> j \<le> k \<Longrightarrow> votes_along ms C j vs"
  by (auto simp: votes_along_def)

lemma candidate_in:
  assumes "elects ms b cl vs" and "nodes cl n = Some st" and "v_role vs n = VCandidate v" and "v_term vs n = t"
  shows "is_candidate_in cl n t" and "term_of (inner_of st) = t" and "role_of st = CandidateRole v"
proof -
  from node_vs [OF assms(1,2)] assms(3,4) show r: "role_of st = CandidateRole v" and t: "term_of (inner_of st) = t"
    by (cases "role_of st"; simp)+
  then show "is_candidate_in cl n t" using assms(2) by (cases st) (simp_all add: is_candidate_in_def)
qed

text \<open>
  How a voter of the candidate \<open>n\<close> cast its ballot of the term \<open>u\<close>: it was not beyond the term,
  the candidate's log was at least as up to date, and afterwards it has reached the term.
\<close>

definition ballot_for ::
  "'cmd env \<Rightarrow> (nat \<Rightarrow> 'cmd cluster) \<Rightarrow> (nat \<Rightarrow> (NodeId, u64) vsys) \<Rightarrow> NodeId \<Rightarrow> TermIndex \<Rightarrow> nat \<Rightarrow> NodeId \<Rightarrow> bool" where
  "ballot_for env C vs n u e p \<longleftrightarrow> (\<exists>st stn v. nodes (C e) p = Some st \<and> term_of (inner_of st) \<le> u \<and>
     nodes (C e) n = Some stn \<and> role_of stn = CandidateRole v \<and> term_of (inner_of stn) = u \<and>
     up_to_date le_term (entries_of env (inner_of st)) (entries_of env (inner_of stn)) \<and> v_term (vs (Suc e)) p = u)"

lemma ballot_cast_for:
  assumes vs: "votes_along ms (cluster_at env sk ms as) (length as) vs"
    and rv: "raft_votes env ms (cluster_init env sk ms) as" and i: "i < length as"
    and n: "nodes (cluster_at env sk ms as (Suc i)) n \<noteq> None" and cand: "v_role (vs i) n = VCandidate v" "v_term (vs i) n = u"
    and b: "ballot (vs (Suc i)) p u = Some n" and p: "p \<noteq> n" "p \<in> set ms"
  obtains e where "e \<le> i" and "ballot_for env (cluster_at env sk ms as) vs n u e p"
proof -
  let ?C = "cluster_at env sk ms as"
  have vs': "votes_along ms ?C (Suc i) vs" by (rule votes_along_mono [OF vs]) (use i in simp)
  obtain e where e: "e < Suc i" "ballot (vs (Suc e)) p u = Some n" "ballot (vs e) p u \<noteq> Some n"
    by (rule ballot_cast [OF vs' b])
  with i have lt: "e < length as" by simp
  have el: "elects ms e (?C e) (vs e)" "elects ms (Suc e) (?C (Suc e)) (vs (Suc e))"
    and st: "vstep (set ms) (majority (length ms)) (vs e) (vs (Suc e))" and fr: "frozen (?C (Suc e)) (vs e) (vs (Suc e))"
    using vs lt by (auto simp: votes_along_def)
  from el(1) have bal: "ballots_ok (vs e)" and tok: "tokens_ok (set ms) (vs e)" by (simp_all add: elects_def voting_ok_def)
  note c = vstep_casts [OF bal st e(2,3) p(1)]
  have "u \<le> v_term (vs e) n" using tok c(1) by (auto simp: tokens_ok_def)
  moreover have "v_term (vs e) n \<le> v_term (vs i) n" by (rule votes_term [OF vs]) (use e i in auto)
  ultimately have un: "v_term (vs e) n = u" using cand(2) by simp
  from votes_candidate [OF vs _ _ cand(1), of e] e(1) i un cand(2) obtain v' where v': "v_role (vs e) n = VCandidate v'" by auto
  have "nodes (?C (Suc e)) p \<noteq> None" using fr e(2,3) by (auto simp: frozen_def)
  then obtain st' where st': "nodes (?C (Suc e)) p = Some st'" by blast
  with nodes_before [of e "Suc e" as env sk ms p st'] lt obtain stp where stp: "nodes (?C e) p = Some stp" by auto
  from n nodes_before [of e "Suc i" as env sk ms n] e(1) i obtain stn where stn: "nodes (?C e) n = Some stn" by auto
  note cn = candidate_in [OF el(1) stn v' un]
  have "raft_vote env (?C e) (?C (Suc e)) p" using raft_votes_at [OF rv lt p(2)] by (simp add: cluster_at_def)
  moreover have "vote_of (inner_of st') = Some n" "term_of (inner_of st') = u"
    using node_vs [OF el(2) st'] c(3,4) by simp_all
  moreover have "(u, Some n) \<noteq> (term_of (inner_of stp), vote_of (inner_of stp))"
    using node_vs [OF el(1) stp] c(3,5) by simp
  ultimately have "up_to_date le_term (entries_of env (inner_of stp)) (entries_of env (inner_of stn))"
    using st' stp stn cn(1) p(1) by (auto simp: raft_vote_def)
  then have "ballot_for env ?C vs n u e p"
    unfolding ballot_for_def using stp stn cn(2,3) c(2,3) node_vs(1) [OF el(1) stp] by auto
  with e(1) show ?thesis by (intro that [of e]) simp_all
qed

theorem elected_by:
  assumes ms: "distinct ms" and vs: "votes_along ms (cluster_at env sk ms as) (length as) vs"
    and rv: "raft_votes env ms (cluster_init env sk ms) as" and i: "i < length as"
    and lead: "is_leader_in (cluster_at env sk ms as (Suc i)) n u" and new: "\<not> is_leader_in (cluster_at env sk ms as i) n u"
  shows "is_candidate_in (cluster_at env sk ms as i) n u"
    and "\<exists>Q \<subseteq> set ms. majority (length ms) \<le> card Q \<and>
      (\<forall>p \<in> Q. p = n \<or> (\<exists>e \<le> i. ballot_for env (cluster_at env sk ms as) vs n u e p))"
proof -
  let ?C = "cluster_at env sk ms as"
  have el: "elects ms i (?C i) (vs i)" "elects ms (Suc i) (?C (Suc i)) (vs (Suc i))"
    and st: "vstep (set ms) (majority (length ms)) (vs i) (vs (Suc i))" using vs i by (auto simp: votes_along_def)
  note r = leader_role [OF el(2) lead]
  from lead obtain w l where wl: "nodes (?C (Suc i)) n = Some (RaftWorkerState.Leader w l)"
    by (auto simp: is_leader_in_def split: option.splits RaftWorkerState.splits)
  with nodes_before [of i "Suc i" as env sk ms n] i obtain st0 where st0: "nodes (?C i) n = Some st0" by auto
  have "\<not> (v_role (vs i) n = VLeader \<and> v_term (vs i) n = v_term (vs (Suc i)) n)"
    using led_before [OF el(1) _ _ st0] new r(2) by auto
  from vstep_wins [OF st r(1) this] r(2) obtain v where c: "v_role (vs i) n = VCandidate v" "v_term (vs i) n = u" by auto
  from candidate_in(1) [OF el(1) st0 c] show "is_candidate_in (?C i) n u" .
  from el(2) have tok: "tokens_ok (set ms) (vs (Suc i))" and eo: "elected_ok (set ms) (majority (length ms)) (vs (Suc i))"
    by (simp_all add: elects_def voting_ok_def)
  let ?V = "voters (vs (Suc i)) n u"
  from eo r(3) have nm: "n \<in> set ms" "majority (length ms) \<le> Suc (card ?V)" by (auto simp: elected_ok_def)
  have V: "p \<in> set ms \<and> p \<noteq> n \<and> ballot (vs (Suc i)) p u = Some n" if "p \<in> ?V" for p
    using that tok by (auto simp: voters_def tokens_ok_def)
  have "finite ?V" by (rule voters_finite [OF _ tok]) simp
  moreover have "n \<notin> ?V" using V by blast
  ultimately have "card (insert n ?V) = Suc (card ?V)" by simp
  moreover have "\<exists>e \<le> i. ballot_for env ?C vs n u e p" if "p \<in> ?V" for p
    using ballot_cast_for [OF vs rv i _ c, of p] V [OF that] wl by auto
  ultimately show "\<exists>Q \<subseteq> set ms. majority (length ms) \<le> card Q \<and>
      (\<forall>p \<in> Q. p = n \<or> (\<exists>e \<le> i. ballot_for env ?C vs n u e p))"
    using nm V by (intro exI [of _ "insert n ?V"]) auto
qed

end
