(* ===== verification/VotedRuns.thy ===== *)
theory VotedRuns
  imports Agreement Leadership Turns Ballots
begin

text \<open>
  The runs of the cluster in which every vote obeys Raft's rule satisfy the laws of theory
  Completeness, so their leaders' logs are complete. What theories Turns, Leadership and Ballots say
  of single actions is put together here, along a run.
\<close>

section \<open>A node in one action\<close>

lemma turn_node:
  assumes "turn env cl cl'" and "nodes cl' n = Some st'"
  obtains (same) "nodes cl n = Some st'"
  | (restart) st out where "nodes cl n = Some st"
      "rbind (worker_new (node_id (inner_of st)) (inner_session_key (inner_of st)) (peers (inner_of st)) []
        (storage (store (inner_of st)))) (to_follower env) = Inr (st', out)"
  | (step) st ev out where "nodes cl n = Some st" "event_from cl n ev" "worker_step env st ev = Inr (st', out)"
  using assms(1)
proof cases
  case no_turn
  with assms(2) same show ?thesis by simp
next
  case (halts m)
  with assms(2) same show ?thesis by (simp split: if_splits)
next
  case (restarts m st st'' out)
  with assms(2) same restart show ?thesis by (cases "n = m") simp_all
next
  case (steps m st ev st'' out)
  with assms(2) same step show ?thesis by (cases "n = m") simp_all
qed

lemma restart_kept:
  assumes ok: "node_ok w"
    and r: "rbind (worker_new (node_id w) (inner_session_key w) (peers w) [] (storage (store w))) (to_follower env) = Inr (st', out)"
  shows "role_of st' = FollowerRole" and "store (inner_of st') = store w" and "peers (inner_of st') = peers w"
    and "commit_index (inner_of st') = 0"
proof -
  from r obtain w1 where n: "worker_new (node_id w) (inner_session_key w) (peers w) [] (storage (store w)) = Inr w1"
    and f: "to_follower env w1 = Inr (st', out)" by (auto simp: rbind_eq_Inr)
  from f obtain w2 o2 where "apply_log env w1 = Inr (w2, o2)" "st' = RaftWorkerState.Follower w2"
    by (auto simp: to_follower_def after_eq_Inr follower_wait_def rbind_eq_Inr)
  moreover from n have "commit_index w1 = 0" by (auto simp: worker_new_def rbind_eq_Inr)
  ultimately show "role_of st' = FollowerRole" "store (inner_of st') = store w" "peers (inner_of st') = peers w"
    "commit_index (inner_of st') = 0"
    using worker_new_recovers [OF ok n] apply_log_quiet [of env w1 w2 o2] by (simp_all add: quiet_def same_node_def)
qed

section \<open>The history of a run\<close>

definition snap :: "'cmd env \<Rightarrow> RaftWorkerState \<Rightarrow> (TermIndex, 'cmd LogEntry) snapshot" where
  "snap env st = \<lparr>s_term = term_of (inner_of st), s_log = entries_of env (inner_of st),
     s_commit = unat (commit_index (inner_of st)), s_leads = (role_of st = LeaderRole)\<rparr>"

definition history_of ::
  "'cmd env \<Rightarrow> u128 \<Rightarrow> NodeId list \<Rightarrow> 'cmd action list \<Rightarrow> (TermIndex \<Rightarrow> 'cmd LogEntry list) \<Rightarrow>
   (NodeId, TermIndex, 'cmd LogEntry) history" where
  "history_of env sk ms as h = \<lparr>h_members = set ms, h_end = length as,
     h_node = (\<lambda>i n. map_option (snap env) (nodes (cluster_at env sk ms as i) n)), h_hist = h\<rparr>"

lemma snap_simps [simp]:
  "s_term (snap env st) = term_of (inner_of st)" "s_log (snap env st) = entries_of env (inner_of st)"
  "s_commit (snap env st) = unat (commit_index (inner_of st))" "s_leads (snap env st) \<longleftrightarrow> role_of st = LeaderRole"
  by (simp_all add: snap_def)

lemma history_of_simps [simp]:
  "h_members (history_of env sk ms as h) = set ms" "h_end (history_of env sk ms as h) = length as"
  "h_node (history_of env sk ms as h) i n = map_option (snap env) (nodes (cluster_at env sk ms as i) n)"
  "h_hist (history_of env sk ms as h) = h"
  by (simp_all add: history_of_def)

definition run_ok ::
  "'cmd env \<Rightarrow> u128 \<Rightarrow> NodeId list \<Rightarrow> 'cmd action list \<Rightarrow> (TermIndex \<Rightarrow> 'cmd LogEntry list) \<Rightarrow> bool" where
  "run_ok env sk ms as h \<longleftrightarrow> codec_ok env \<and> distinct ms \<and> list_all (member_action ms) as \<and> length as + 102 < 2 ^ 64 \<and>
     (\<forall>i \<le> length as. recorded env h (length as) (cluster_at env sk ms as i))"

lemma run_ok_at:
  assumes "run_ok env sk ms as h" and "i \<le> length as"
  obtains vs s b where "replicates env ms i (cluster_at env sk ms as i) vs s" and "applied_ok env b (cluster_at env sk ms as i)"
proof -
  from assms have "codec_ok env" "distinct ms" "list_all (member_action ms) (take i as)" "length (take i as) + 102 < 2 ^ 64"
    "length (take i as) < 2 ^ 64 - 2" "length (take i as) = i" by (auto simp: run_ok_def list_all_iff dest: in_set_takeD)
  with run_replicates [of env ms "take i as" sk] run_applied [of env ms "take i as" sk] that show ?thesis
    unfolding cluster_at_def by metis
qed

text \<open>What a node and an event bring to a step, at every moment of a run.\<close>

lemma node_at:
  assumes run: "run_ok env sk ms as h" and i: "i \<le> length as" and st: "nodes (cluster_at env sk ms as i) n = Some st"
  shows "inner_ok env (inner_of st)" and "room (inner_of st) 102" and "commits_ok (inner_of st)"
    and "term_of (inner_of st) \<noteq> - 1" and "copied h (length as) (entries_of env (inner_of st))"
    and "role_of st = LeaderRole \<Longrightarrow> prefix (entries_of env (inner_of st)) (h (term_of (inner_of st)))"
    and "n \<in> set ms" and "cluster_size (inner_of st) = length ms"
proof -
  let ?cl = "cluster_at env sk ms as i"
  obtain vs s b where rep: "replicates env ms i ?cl vs s" and ap: "applied_ok env b ?cl" by (rule run_ok_at [OF run i])
  have len: "i + 102 < 2 ^ 64" using run i by (simp add: run_ok_def)
  from rep have sim: "lsim env ?cl s" and logs: "logs_ok s" "l_size s \<le> i" and el: "elects ms i ?cl vs"
    by (simp_all add: replicates_def)
  then have "applied_before env (had ?cl) s ?cl" using applied_rebase [OF ap] len by (simp add: applied_before_def)
  from applied_node [OF this st] show "inner_ok env (inner_of st)" "room (inner_of st) 102" "commits_ok (inner_of st)" by simp_all
  have "below_max ?cl" using el len by (intro terms_below_max [of i]) (simp_all add: elects_def)
  with st show "term_of (inner_of st) \<noteq> - 1" by (simp add: below_max_def)
  from run i have rc: "recorded env h (length as) ?cl" by (simp add: run_ok_def)
  with st show "copied h (length as) (entries_of env (inner_of st))"
    and "role_of st = LeaderRole \<Longrightarrow> prefix (entries_of env (inner_of st)) (h (term_of (inner_of st)))"
    by (auto simp: recorded_def leads_role)
  show "n \<in> set ms" by (rule node_vs(4) [OF el st])
  from el have "sim ms ?cl vs" by (simp add: elects_def)
  from simD(2) [OF this st] show "cluster_size (inner_of st) = length ms" by (simp add: node_rel_def Let_def)
qed

lemma event_at:
  assumes run: "run_ok env sk ms as h" and i: "i \<le> length as" and ev: "event_from (cluster_at env sk ms as i) n ev"
  shows "carried ev"
proof -
  let ?cl = "cluster_at env sk ms as i"
  obtain vs s b where rep: "replicates env ms i ?cl vs s" and ap: "applied_ok env b ?cl" by (rule run_ok_at [OF run i])
  then have sub: "set (net ?cl) \<subseteq> append_packets (l_wire s)" "set (net ?cl) \<subseteq> carried_packets UNIV" and logs: "logs_ok s"
    by (simp_all add: replicates_def lsim_def applied_ok_def)
  have "sourced (append_packets (l_wire s)) ev"
    using ev sub(1) by (fastforce simp: event_from_def sourced_def split: event.splits sum.splits)
  then show ?thesis
  proof (rule wire_carried [OF logs])
    fix q tx assume "ev = RpcEvent (AppendEntries q) tx"
    with ev sub(2) show "commit_carried q" by (fastforce simp: event_from_def carried_packets_def append_packets_def)
  qed
qed

section \<open>Requests and acknowledgements under way\<close>

text \<open>
  At the moment \<open>i\<close>: a request is from a leader up to then, and its task knows how far it reaches;
  a successful answer says that the node called held the leader's log as far; and so does a match
  index of a leader.
\<close>

fun packet_known :: "(NodeId, TermIndex, 'cmd LogEntry) history \<Rightarrow> nat \<Rightarrow> 'cmd packet \<Rightarrow> bool" where
  "packet_known H i (Call orig (AppendEntries q)) =
     ((\<exists>a j. o_tag orig = AppendTag (ae_term q) (o_to orig) a j \<and>
        unat j = unat (ae_prev_log_index q) + length (ae_entries q)) \<and>
      (\<exists>v \<in> past_leaders H i. s_term v = ae_term q \<and> segment (s_log v) q \<and> unat (ae_leader_commit q) \<le> s_commit v))"
| "packet_known H i (Answer orig (Inr (AppendEntriesR resp))) =
     (aer_success resp \<longrightarrow> (\<exists>t p a j. o_tag orig = AppendTag t p a j \<and> held H i t (unat j) p))"
| "packet_known H i _ = True"

fun matches_known :: "(NodeId, TermIndex, 'cmd LogEntry) history \<Rightarrow> nat \<Rightarrow> RaftWorkerState \<Rightarrow> bool" where
  "matches_known H i (RaftWorkerState.Leader w l) = (map fst (match_indices l) = peers w \<and>
     (\<forall>(p, j) \<in> set (match_indices l). j \<noteq> 0 \<longrightarrow> held H i (term_of w) (unat j) p))"
| "matches_known H i _ = True"

definition known_at ::
  "NodeId list \<Rightarrow> (NodeId, TermIndex, 'cmd LogEntry) history \<Rightarrow> nat \<Rightarrow> 'cmd cluster \<Rightarrow> bool" where
  "known_at ms H i cl \<longleftrightarrow> (\<forall>pk \<in> set (net cl). packet_known H i pk) \<and>
     (\<forall>n st. nodes cl n = Some st \<longrightarrow> peers (inner_of st) = remove1 n ms \<and> matches_known H i st)"

lemma held_mono: "held H i t j p \<Longrightarrow> i \<le> k \<Longrightarrow> held H k t j p"
  unfolding held_def using order_trans by blast

lemma packet_known_mono:
  assumes "packet_known H i pk" and "i \<le> k"
  shows "packet_known H k pk"
proof (cases pk rule: append_packet.cases)
  case (1 orig q)
  from past_leaders_mono [OF assms(2), of H] assms(1) show ?thesis unfolding 1 packet_known.simps by blast
next
  case (2 orig resp)
  from held_mono [OF _ assms(2), of H] assms(1) show ?thesis unfolding 2 packet_known.simps by blast
qed simp_all

lemma matches_known_mono: "matches_known H i st \<Longrightarrow> i \<le> k \<Longrightarrow> matches_known H k st"
  using held_mono [of H i _ _ _ k] by (cases st) (simp, simp, fastforce)

lemma other_packets_known: "\<not> append_packet pk \<Longrightarrow> packet_known H i pk"
  by (cases pk rule: append_packet.cases) auto

lemma packets_known:
  assumes "packets_from cl N cl'" and "\<forall>pk \<in> set (net cl). packet_known H i pk" and "\<forall>pk \<in> N. packet_known H k pk" and "i \<le> k"
  shows "\<forall>pk \<in> set (net cl'). packet_known H k pk"
  using assms other_packets_known packet_known_mono unfolding packets_from_def by blast

text \<open>A node that answered with success holds the leader's log as far as the request reached.\<close>

lemma absorbed_held:
  assumes run: "run_ok env sk ms as h" and i: "i < length as" and H: "H = history_of env sk ms as h"
    and st: "nodes (cluster_at env sk ms as i) n = Some st" and st': "nodes (cluster_at env sk ms as (Suc i)) n = Some st'"
    and v: "v \<in> past_leaders H i" "s_term v = ae_term q" "segment (s_log v) q"
    and ab: "absorbed env q (inner_of st) w" "store w = store (inner_of st')"
  shows "held H (Suc i) (ae_term q) (unat (ae_prev_log_index q) + length (ae_entries q)) n"
    and "takes_in (entries_of env (inner_of st)) (s_log v) (entries_of env (inner_of st'))"
    and "take (unat (ae_prev_log_index q) + length (ae_entries q)) (entries_of env (inner_of st')) =
      take (unat (ae_prev_log_index q) + length (ae_entries q)) (s_log v)"
proof -
  let ?l = "entries_of env (inner_of st)" and ?l' = "entries_of env (inner_of st')" and ?m = "s_log v"
  let ?p = "unat (ae_prev_log_index q)" and ?k = "unat (ae_prev_log_index q) + length (ae_entries q)"
  from v(1) obtain k m stv where stv: "k \<le> i" "nodes (cluster_at env sk ms as k) m = Some stv" "v = snap env stv" "role_of stv = LeaderRole"
    by (auto simp: past_leaders_def H)
  have m: "copied h (length as) ?m" and own: "prefix ?m (h (ae_term q))"
    using node_at(5,6) [OF run _ stv(2)] stv i v(2) by simp_all
  have l: "copied h (length as) ?l" using node_at(5) [OF run _ st] i by simp
  from ab have pm: "prev_matches ?l (ae_prev_log_index q) (ae_prev_log_term q)"
    and mg: "?l' = raft_merge le_term ?l ?p (ae_entries q)" and t: "ae_term q = term_of (inner_of st')"
    by (simp_all add: absorbed_def)
  from segment_prev [OF l m v(3) pm] obtain j
    where j: "ae_entries q = take j (drop ?p ?m)" "?p \<le> length ?m" "?p \<le> length ?l" "take ?p ?l = take ?p ?m" by metis
  show tin: "take ?k ?l' = take ?k ?m" unfolding mg by (rule merge_takes_in [OF l m j(4,3,2,1)])
  have "?l' \<in> {?l, take ?k ?m}" unfolding mg by (rule merge_copies [OF l m j(4,3,2,1)])
  moreover have "take x ?l' = take x ?l" if "x \<le> length ?l" "\<forall>i < x. i < length ?m \<longrightarrow> ?l ! i = ?m ! i" for x
    unfolding mg by (rule merge_keeps [OF _ that(1) j(1,3)]) (use that(2) in auto)
  ultimately show "takes_in ?l ?m ?l'" unfolding takes_in_def by blast
  have "length (ae_entries q) \<le> length ?m - ?p" using arg_cong [OF j(1), of length] by simp
  then have "?k \<le> length ?m" using j(2) by simp
  then have "take ?k ?l' = take ?k (h (ae_term q))" using tin take_prefix [OF own] by simp
  moreover have "?k \<le> length ?l'" unfolding mg by (rule raft_merge_reaches [OF j(3)])
  ultimately show "held H (Suc i) (ae_term q) ?k n"
    unfolding held_def using st' t by (intro exI [of _ "Suc i"] conjI exI [of _ "snap env st'"]) (simp_all add: H)
qed

lemma leader_past:
  "i \<le> k \<Longrightarrow> H = history_of env sk ms as h \<Longrightarrow> nodes (cluster_at env sk ms as i) n = Some st \<Longrightarrow> role_of st = LeaderRole \<Longrightarrow>
   snap env st \<in> past_leaders H k"
  unfolding past_leaders_def by (auto intro!: exI [of _ i] exI [of _ n])

lemma new_packets_known:
  assumes run: "run_ok env sk ms as h" and i: "i < length as" and H: "H = history_of env sk ms as h"
    and st: "nodes (cluster_at env sk ms as i) n = Some st" and st': "nodes (cluster_at env sk ms as (Suc i)) n = Some st'"
    and ev: "event_from (cluster_at env sk ms as i) n ev" and step: "worker_step env st ev = Inr (st', out)"
    and known: "known_at ms H i (cluster_at env sk ms as i)"
  shows "\<forall>pk \<in> new_packets (cluster_at env sk ms as i) n ev out. packet_known H (Suc i) pk"
proof -
  let ?cl = "cluster_at env sk ms as i"
  have "i \<le> length as" using i by simp
  note nd = node_at [OF run this st] and ca = event_at [OF run this ev]
  have "packet_known H (Suc i) (Call orig (AppendEntries q))" if c: "CallAppend p a j q \<in> set out" "o_to orig = p"
    "o_tag orig = AppendTag (ae_term q) p a j" for orig q p a j
  proof -
    from c(1) have "q \<in> sent out" by force
    with step_moves [OF nd(1-4) ca step] have q: "role_of st' = LeaderRole" "ae_term q = term_of (inner_of st')"
      "ae_leader_commit q \<le> commit_index (inner_of st')" by (auto simp: step_moves_def)
    have "calls_ok (entries_of env (inner_of st')) out"
      using step_log [OF nd(1) _ _ step] nd(2) ca by (auto simp: log_step_def room_def carried_def)
    with c(1) have seg: "segment (entries_of env (inner_of st')) q" by (auto simp: calls_ok_def)
    have "snap env st' \<in> past_leaders H (Suc i)" by (rule leader_past [OF order_refl H st' q(1)])
    moreover have "unat j = unat (ae_prev_log_index q) + length (ae_entries q)"
      by (rule step_tags [OF nd(1-3) ca step c(1)])
    ultimately show ?thesis using c q seg by (auto simp: word_le_nat_alt intro!: bexI [of _ "snap env st'"])
  qed
  moreover have "packet_known H (Suc i) (Answer orig (Inr (AppendEntriesR resp)))"
    if a: "ev = RpcEvent req tx" "RpcReply tx (AppendEntriesR resp) \<in> set out" "Call orig req \<in> set (net ?cl)" "o_to orig = n"
    for orig resp req tx
  proof (cases "aer_success resp")
    case True
    have "answers_event ev (held_channels st \<union> relayed ev) (RpcReply tx (AppendEntriesR resp))"
      using worker_step_replies [OF step] a(2) by (auto simp: list_all_iff)
    then obtain q where q: "req = AppendEntries q" using a(1) by (cases req) auto
    with known a(3) have "packet_known H i (Call orig (AppendEntries q))" by (auto simp: known_at_def)
    then obtain b j v where k: "o_tag orig = AppendTag (ae_term q) n b j" "unat j = unat (ae_prev_log_index q) + length (ae_entries q)"
      "v \<in> past_leaders H i" "s_term v = ae_term q" "segment (s_log v) q" using a(4) by auto
    have "event_indexed ev" using ca by (simp add: carried_def)
    from step_absorbs [OF nd(1) this step a(2) True, of q tx] a(1) q obtain w where
      "absorbed env q (inner_of st) w" "store w = store (inner_of st')" by auto
    from absorbed_held(1) [OF run i H st st' k(3-5) this] have "held H (Suc i) (ae_term q) (unat j) n" by (simp add: k(2))
    with k(1) show ?thesis by auto
  qed simp
  ultimately show ?thesis by (auto simp: new_packets_def simp del: packet_known.simps)
qed

lemma new_matches_known:
  assumes run: "run_ok env sk ms as h" and i: "i < length as" and H: "H = history_of env sk ms as h"
    and st: "nodes (cluster_at env sk ms as i) n = Some st"
    and ev: "event_from (cluster_at env sk ms as i) n ev" and step: "worker_step env st ev = Inr (st', out)"
    and known: "known_at ms H i (cluster_at env sk ms as i)"
  shows "matches_known H (Suc i) st'"
proof (cases st')
  case (Leader w' l')
  have "i \<le> length as" using i by simp
  note nd = node_at [OF run this st] and ca = event_at [OF run this ev]
  note nok = inner_ok_node [OF nd(1)]
  have lead: "role_of st' = LeaderRole" by (simp add: Leader)
  note ld = step_leads [OF nok step lead]
  have ps: "peers w' = peers (inner_of st)" using step_node_ok [OF nok step] by (simp add: same_node_def Leader)
  show ?thesis
  proof (cases st)
    case (Follower w)
    with ld(2) show ?thesis by simp
  next
    case (Candidate w v)
    from step_takes_over(1) [of env w v ev w' l' out] nd(1-3) step have "match_indices l' = map (\<lambda>p. (p, 0)) (peers w)"
      by (simp add: Leader Candidate)
    with ps show ?thesis by (auto simp: Leader Candidate comp_def)
  next
    case (Leader w l)
    note st_l = this
    have "leader_moves env ev w l w' l'"
      using step_leader_moves [of env w ev l w' l' out] nd(1-3) ca step by (simp add: \<open>st' = _\<close> st_l)
    then have m: "map fst (match_indices l') = map fst (match_indices l)"
      "\<And>pj. pj \<in> set (match_indices l') \<Longrightarrow> pj \<in> set (match_indices l) \<or> acknowledges ev pj" by (auto simp: leader_moves_def matches_def)
    from known st have old: "map fst (match_indices l) = peers w"
      "\<And>p j. (p, j) \<in> set (match_indices l) \<Longrightarrow> j \<noteq> 0 \<Longrightarrow> held H i (term_of w) (unat j) p"
      by (fastforce simp: known_at_def st_l)+
    have "held H (Suc i) (term_of w') (unat j) p" if pj: "(p, j) \<in> set (match_indices l')" "j \<noteq> 0" for p j
    proof -
      have "held H i (term_of w) (unat j) p" using m(2) [OF pj(1)]
      proof
        assume "acknowledges ev (p, j)"
        then obtain a resp where e: "ev = AppendResponse p a j (Inr (AppendEntriesR resp))" "aer_success resp"
          by (cases "(ev, (p, j))" rule: acknowledges.cases) auto
        with ev obtain orig t where o: "Answer orig (Inr (AppendEntriesR resp)) \<in> set (net (cluster_at env sk ms as i))"
          "o_tag orig = AppendTag t p a j" "is_leader_in (cluster_at env sk ms as i) n t" by (auto simp: event_from_def)
        with known e(2) have "held H i t (unat j) p" by (fastforce simp: known_at_def)
        with o(3) st show ?thesis by (simp add: is_leader_in_def st_l)
      qed (use old(2) pj(2) in blast)
      with held_mono [of H i _ _ p "Suc i"] ld(1) show ?thesis by (simp add: \<open>st' = _\<close> st_l)
    qed
    with m(1) old(1) ps show ?thesis by (auto simp: \<open>st' = _\<close> st_l)
  qed
qed simp_all

lemma known_step:
  assumes run: "run_ok env sk ms as h" and i: "i < length as" and H: "H = history_of env sk ms as h"
    and known: "known_at ms H i (cluster_at env sk ms as i)"
  shows "known_at ms H (Suc i) (cluster_at env sk ms as (Suc i))"
proof -
  let ?cl = "cluster_at env sk ms as i" and ?cl' = "cluster_at env sk ms as (Suc i)"
  have turn: "turn env ?cl ?cl'" by (simp add: cluster_at_Suc [OF i] act_turn)
  have pks: "\<forall>pk \<in> set (net ?cl). packet_known H i pk" using known by (simp add: known_at_def)
  have "\<forall>pk \<in> set (net ?cl'). packet_known H (Suc i) pk" using turn
  proof cases
    case (steps n st ev st' out)
    then have "nodes ?cl' n = Some st'" by simp
    from new_packets_known [OF run i H steps(1) this steps(2,3) known] packets_known [OF steps(5) pks]
    show ?thesis by simp
  qed (use packets_known [OF _ pks, where N = "{}" and cl' = ?cl' and k = "Suc i"] in simp_all)
  moreover have "peers (inner_of st') = remove1 n ms \<and> matches_known H (Suc i) st'" if st': "nodes ?cl' n = Some st'" for n st'
    using turn st'
  proof (cases rule: turn_node)
    case same
    with known matches_known_mono [of H i st' "Suc i"] show ?thesis by (simp add: known_at_def)
  next
    case (restart st out)
    have "node_ok (inner_of st)" using node_at(1) [OF run _ restart(1)] i by (intro inner_ok_node) simp
    from restart_kept [OF this restart(2)] known restart(1) show ?thesis by (cases st') (auto simp: known_at_def)
  next
    case (step st ev out)
    have "node_ok (inner_of st)" using node_at(1) [OF run _ step(1)] i by (intro inner_ok_node) simp
    from step_node_ok [OF this step(3)] known step(1) have "peers (inner_of st') = remove1 n ms"
      by (simp add: known_at_def same_node_def)
    with new_matches_known [OF run i H step known] show ?thesis by simp
  qed
  ultimately show ?thesis by (simp add: known_at_def)
qed

lemma run_known:
  assumes run: "run_ok env sk ms as h" and H: "H = history_of env sk ms as h"
  shows "i \<le> length as \<Longrightarrow> known_at ms H i (cluster_at env sk ms as i)"
proof (induction i)
  case 0
  have "peers (inner_of st) = remove1 n ms \<and> matches_known H 0 st" if "first_start env sk ms n = Some st" for n st
    using first_start_node [OF that] by auto
  then show ?case by (simp add: known_at_def cluster_at_def run_def cluster_init_def)
next
  case (Suc i)
  with known_step [OF run _ H] show ?case by simp
qed

section \<open>The laws\<close>

lemma moves_at:
  assumes run: "run_ok env sk ms as h" and i: "i < length as" and H: "H = history_of env sk ms as h"
    and st': "nodes (cluster_at env sk ms as (Suc i)) n = Some st'"
  shows "\<exists>st. nodes (cluster_at env sk ms as i) n = Some st \<and> term_of (inner_of st) \<le> term_of (inner_of st') \<and>
    log_moves le_term (past_leaders H i) (snap env st) (snap env st') \<and>
    (commit_index (inner_of st') \<le> commit_index (inner_of st) \<or> role_of st' = LeaderRole \<or>
     commit_moves le_term H i (snap env st) (snap env st'))"
proof -
  let ?cl = "cluster_at env sk ms as i"
  have le: "i \<le> length as" using i by simp
  have turn: "turn env ?cl (cluster_at env sk ms as (Suc i))" by (simp add: cluster_at_Suc [OF i] act_turn)
  from turn st' show ?thesis
  proof (cases rule: turn_node)
    case same
    then show ?thesis by (auto simp: log_moves_def)
  next
    case (restart st out)
    have "node_ok (inner_of st)" by (rule inner_ok_node [OF node_at(1) [OF run le restart(1)]])
    from restart_kept [OF this restart(2)] restart(1) show ?thesis by (auto simp: log_moves_def)
  next
    case (step st ev out)
    note nd = node_at [OF run le step(1)] and ca = event_at [OF run le step(2)]
    from step_moves [OF nd(1-4) ca step(3)] obtain w where mv: "moved env ev (role_of st') (inner_of st) w"
      and s: "store w = store (inner_of st')" and ci: "role_of st' = LeaderRole \<or> commit_index (inner_of st') = commit_index w"
      unfolding step_moves_def by blast
    have t: "term_of (inner_of st) \<le> term_of (inner_of st')" using mv by (simp add: moved_def s)
    from mv have "extended env (role_of st') (inner_of st) w \<or>
        (\<exists>q tx. ev = RpcEvent (AppendEntries q) tx \<and> absorbed env q (inner_of st) w)" by (simp add: moved_def)
    then have "log_moves le_term (past_leaders H i) (snap env st) (snap env st') \<and>
      (commit_index (inner_of st') \<le> commit_index (inner_of st) \<or> role_of st' = LeaderRole \<or>
       commit_moves le_term H i (snap env st) (snap env st'))"
    proof (elim disjE exE conjE)
      assume "extended env (role_of st') (inner_of st) w"
      with ci show ?thesis by (auto simp: extended_def log_moves_def s)
    next
      fix q tx assume ev: "ev = RpcEvent (AppendEntries q) tx" and ab: "absorbed env q (inner_of st) w"
      with step(2) obtain orig where "Call orig (AppendEntries q) \<in> set (net ?cl)" by (auto simp: event_from_def)
      with run_known [OF run H le] have "packet_known H i (Call orig (AppendEntries q))" by (auto simp: known_at_def)
      then obtain v where v: "v \<in> past_leaders H i" "s_term v = ae_term q" "segment (s_log v) q"
        "unat (ae_leader_commit q) \<le> s_commit v" by auto
      note ah = absorbed_held [OF run i H step(1) st' v(1-3) ab s]
      have tq: "ae_term q = term_of (inner_of st')" using ab by (simp add: absorbed_def s)
      have "log_moves le_term (past_leaders H i) (snap env st) (snap env st')"
        using ah(2) v(1,2) tq by (auto simp: log_moves_def)
      moreover have "commit_moves le_term H i (snap env st) (snap env st')" if "commit_index w \<noteq> commit_index (inner_of st)"
        "commit_index (inner_of st') = commit_index w"
      proof -
        note r = absorbed_reach [OF ca [unfolded ev] ab that(1)]
        then have "take (unat (commit_index w)) (entries_of env (inner_of st')) = take (unat (commit_index w)) (s_log v)"
          using arg_cong [OF ah(3), of "take (unat (commit_index w))"] by (simp add: min_absorb1)
        then show ?thesis unfolding commit_moves_def using v tq r that(2) by (auto intro!: bexI [of _ v])
      qed
      ultimately show ?thesis using ci by fastforce
    qed
    with step(1) t show ?thesis by blast
  qed
qed

lemma held_less: "held H i t k p \<Longrightarrow> j \<le> k \<Longrightarrow> held H i t j p"
proof -
  assume "held H i t k p" and j: "j \<le> k"
  then obtain m s where m: "m \<le> i" "h_node H m p = Some s" "s_term s = t" "k \<le> length (s_log s)"
    "take k (s_log s) = take k (h_hist H t)" unfolding held_def by blast
  from arg_cong [OF m(5), of "take j"] j have "take j (s_log s) = take j (h_hist H t)" by (simp add: min_absorb1)
  with m j order_trans [OF j] show ?thesis unfolding held_def by blast
qed

text \<open>What a leader commits by its match indices, a majority holds.\<close>

lemma by_majority_chosen:
  assumes run: "run_ok env sk ms as h" and i: "i \<le> length as" and H: "H = history_of env sk ms as h"
    and st: "nodes (cluster_at env sk ms as i) n = Some (RaftWorkerState.Leader w l)" and maj: "by_majority env w l c"
  shows "chosen le_term H (term_of w) (unat c)"
proof -
  note nd = node_at [OF run i st]
  have own: "prefix (entries_of env w) (h (term_of w))" using nd(6) by simp
  from maj have c: "c \<noteq> 0" "unat c \<le> length (entries_of env w)" "majority (length ms) - 1 \<le> agree l c"
    "le_term (entries_of env w ! (unat c - 1)) = term_of w"
    using nd(8) by (simp_all add: by_majority_def committable_def word_le_nat_alt quorum_def majority_def)
  from c(1) have pos: "0 < unat c" by (simp add: unat_gt_0)
  from run_known [OF run H i] st have k: "map fst (match_indices l) = remove1 n ms"
    "\<And>p j. (p, j) \<in> set (match_indices l) \<Longrightarrow> j \<noteq> 0 \<Longrightarrow> held H i (term_of w) (unat j) p" by (fastforce simp: known_at_def)+
  have dist: "distinct ms" using run by (simp add: run_ok_def)
  let ?f = "filter (\<lambda>(_, idx). c \<le> idx) (match_indices l)"
  let ?P = "set (map fst ?f)"
  have sub: "?P \<subseteq> set (remove1 n ms)" unfolding k(1) [symmetric] by auto
  have "distinct (map fst (match_indices l))" using dist by (simp add: k(1))
  then have "distinct (map fst ?f)" by (rule distinct_map_filter)
  from distinct_card [OF this] have card: "card ?P = agree l c" by (simp add: agree_def)
  have "n \<notin> ?P" using sub dist by auto
  then have "card (insert n ?P) = Suc (agree l c)" using card by simp
  then have "majority (card (set ms)) \<le> card (insert n ?P)" using c(3) by (simp add: distinct_card [OF dist] majority_def)
  moreover have "insert n ?P \<subseteq> set ms" using sub dist nd(7) by auto
  moreover have "held H (length as) (term_of w) (unat c) p" if "p \<in> insert n ?P" for p
  proof (cases "p = n")
    case True
    have "held H i (term_of w) (unat c) n"
      unfolding held_def using st c(2) take_prefix [OF own c(2)]
      by (intro exI [of _ i] conjI exI [of _ "snap env (RaftWorkerState.Leader w l)"]) (simp_all add: H)
    from held_mono [OF this i] True show ?thesis by simp
  next
    case False
    with that obtain j where j: "(p, j) \<in> set (match_indices l)" "c \<le> j" by auto
    with c(1) have "j \<noteq> 0" by auto
    from held_less [OF k(2) [OF j(1) this], of "unat c"] j(2) held_mono [OF _ i] show ?thesis
      by (simp add: word_le_nat_alt)
  qed
  moreover have "le_term (h (term_of w) ! (unat c - 1)) = term_of w"
    using own c(2,4) pos by (auto simp: prefix_def nth_append)
  ultimately show ?thesis unfolding chosen_def using pos by (auto simp: H intro!: exI [of _ "insert n ?P"])
qed

lemma commits_at:
  assumes run: "run_ok env sk ms as h" and i: "i < length as" and H: "H = history_of env sk ms as h"
    and st: "nodes (cluster_at env sk ms as i) n = Some st" and st': "nodes (cluster_at env sk ms as (Suc i)) n = Some st'"
  shows "unat (commit_index (inner_of st')) \<le> length (entries_of env (inner_of st')) \<and> commit_moves le_term H i (snap env st) (snap env st')"
proof -
  have le: "i \<le> length as" and le': "Suc i \<le> length as" using i by simp_all
  have turn: "turn env (cluster_at env sk ms as i) (cluster_at env sk ms as (Suc i))" by (simp add: cluster_at_Suc [OF i] act_turn)
  have "commits_ok (inner_of st')" by (rule node_at(3) [OF run le' st'])
  then have "unat (commit_index (inner_of st')) \<le> length (entries_of env (inner_of st'))" by (simp add: commits_ok_def word_le_nat_alt)
  moreover have "commit_moves le_term H i (snap env st) (snap env st')"
  proof (cases "role_of st' = LeaderRole")
    case False
    with moves_at [OF run i H st'] st show ?thesis by (auto simp: commit_moves_def word_le_nat_alt)
  next
    case True
    then obtain w' l' where l': "st' = RaftWorkerState.Leader w' l'" by (cases st') auto
    have "commit_index w' = commit_index (inner_of st) \<or> by_majority env w' l' (commit_index w')"
      using turn st'
    proof (cases rule: turn_node)
      case same
      with st have "inner_of st = inner_of st'" by simp
      then show ?thesis by (simp add: l')
    next
      case (restart st0 out)
      have "node_ok (inner_of st0)" by (rule inner_ok_node [OF node_at(1) [OF run le restart(1)]])
      from restart_kept(1) [OF this restart(2)] True show ?thesis by simp
    next
      case (step st0 ev out)
      with st have st0: "st0 = st" by simp
      note nd = node_at [OF run le st] and ca = event_at [OF run le step(2)]
      from step_leads(2) [OF inner_ok_node [OF nd(1)] step(3) [unfolded st0] True] show ?thesis
      proof (cases st)
        case (Candidate w v)
        from step_takes_over(2) [of env w v ev w' l' out] nd(1-3) step(3) show ?thesis by (simp add: st0 l' Candidate)
      next
        case (Leader w l)
        from step_leader_moves [of env w ev l w' l' out] nd(1-3) ca step(3) show ?thesis by (simp add: st0 l' Leader leader_moves_def)
      qed simp
    qed
    with by_majority_chosen [OF run le' H st' [unfolded l']] show ?thesis
      by (auto simp: commit_moves_def l')
  qed
  ultimately show ?thesis ..
qed

text \<open>A candidate's log does not change while it is one.\<close>

lemma candidate_log:
  assumes run: "run_ok env sk ms as h" and vs: "votes_along ms (cluster_at env sk ms as) (length as) vs"
    and e: "nodes (cluster_at env sk ms as e) n = Some st0" "term_of (inner_of st0) = u"
  shows "e \<le> i \<Longrightarrow> i \<le> length as \<Longrightarrow> nodes (cluster_at env sk ms as i) n = Some st \<Longrightarrow> role_of st = CandidateRole v \<Longrightarrow>
    term_of (inner_of st) = u \<Longrightarrow> entries_of env (inner_of st) = entries_of env (inner_of st0)"
proof (induction i arbitrary: st v rule: dec_induct)
  case (step i)
  let ?C = "cluster_at env sk ms as"
  have i: "i < length as" "e \<le> length as" using step by simp_all
  have el: "elects ms e (?C e) (vs e)" "elects ms i (?C i) (vs i)" "elects ms (Suc i) (?C (Suc i)) (vs (Suc i))"
    using vs i step.hyps by (simp_all add: votes_along_def)
  from nodes_before [OF _ _ step.prems(2), of i] i obtain st1 where st1: "nodes (?C i) n = Some st1" by auto
  have "v_term (vs e) n \<le> v_term (vs i) n" "v_term (vs i) n \<le> v_term (vs (Suc i)) n"
    using i step.hyps votes_term [OF vs] by auto
  then have t: "v_term (vs i) n = u" using node_vs(1) [OF el(1) e(1)] node_vs(1) [OF el(3) step.prems(2)] e(2) step.prems(4) by simp
  have "v_role (vs (Suc i)) n = VCandidate v" "v_term (vs (Suc i)) n = u"
    using node_vs(1,3) [OF el(3) step.prems(2)] step.prems(3,4) by simp_all
  with votes_candidate [OF vs, of i "Suc i" n v] t i obtain v1 where "v_role (vs i) n = VCandidate v1" by auto
  note c1 = candidate_in [OF el(2) st1 this t]
  from step.IH [OF _ st1 c1(3,2)] i have IH: "entries_of env (inner_of st1) = entries_of env (inner_of st0)" by simp
  have turn: "turn env (?C i) (?C (Suc i))" by (simp add: cluster_at_Suc [OF i(1)] act_turn)
  have le: "i \<le> length as" using i by simp
  from turn step.prems(2) show ?case
  proof (cases rule: turn_node)
    case same
    with st1 IH show ?thesis by simp
  next
    case (restart st2 out)
    have "node_ok (inner_of st2)" by (rule inner_ok_node [OF node_at(1) [OF run le restart(1)]])
    from restart_kept(1) [OF this restart(2)] step.prems(3) show ?thesis by simp
  next
    case stp: (step st2 ev out)
    with st1 have st2: "st2 = st1" by simp
    from step_candidate_log [OF node_at(1,2) [OF run le stp(1)] event_at [OF run le stp(2)] stp(3) step.prems(3)] IH
    show ?thesis by (simp add: st2)
  qed
qed (use e in simp)

lemma up_to_date_refl [simp]: "up_to_date tm l l"
  by (simp add: up_to_date_def)

lemma voted_at:
  assumes vs: "votes_along ms (cluster_at env sk ms as) (length as) vs" and e: "e \<le> i" "i < length as" and H: "H = history_of env sk ms as h"
    and st: "nodes (cluster_at env sk ms as e) p = Some st" "term_of (inner_of st) \<le> u"
    and up: "up_to_date le_term (entries_of env (inner_of st)) l" and t: "v_term (vs (Suc e)) p = u"
  shows "voted le_term H i l u p"
  unfolding voted_def
proof (intro exI [of _ e] conjI exI [of _ "snap env st"] allI impI)
  fix k s assume k: "e < k" "k \<le> h_end H" "h_node H k p = Some s"
  then obtain st' where st': "nodes (cluster_at env sk ms as k) p = Some st'" "s = snap env st'" by (auto simp: H)
  have "elects ms k (cluster_at env sk ms as k) (vs k)" using vs k(2) by (simp add: votes_along_def H)
  from node_vs(1) [OF this st'(1)] votes_term [OF vs, of "Suc e" k p] k t show "u \<le> s_term s" by (simp add: H st'(2))
qed (use e st up in \<open>simp_all add: H\<close>)

lemma leads_at:
  assumes run: "run_ok env sk ms as h" and i: "i < length as" and H: "H = history_of env sk ms as h"
    and rv: "raft_votes env ms (cluster_init env sk ms) as"
    and st: "nodes (cluster_at env sk ms as i) n = Some st" and st': "nodes (cluster_at env sk ms as (Suc i)) n = Some st'"
    and lead: "role_of st' = LeaderRole"
  shows "role_of st = LeaderRole \<and> term_of (inner_of st') = term_of (inner_of st) \<and>
      prefix (entries_of env (inner_of st)) (entries_of env (inner_of st')) \<or>
    entries_of env (inner_of st') = entries_of env (inner_of st) \<and> term_of (inner_of st) = term_of (inner_of st') \<and>
      (\<exists>Q \<subseteq> set ms. majority (card (set ms)) \<le> card Q \<and>
        (\<forall>p \<in> Q. voted le_term H i (entries_of env (inner_of st')) (term_of (inner_of st')) p))"
proof -
  let ?C = "cluster_at env sk ms as" and ?u = "term_of (inner_of st')"
  have le: "i \<le> length as" and ms: "distinct ms" using i run by (simp_all add: run_ok_def)
  have turn: "turn env (?C i) (?C (Suc i))" by (simp add: cluster_at_Suc [OF i] act_turn)
  note nd = node_at [OF run le st] and nok = inner_ok_node [OF node_at(1) [OF run le st]]
  from turn st' show ?thesis
  proof (cases rule: turn_node)
    case same
    with st lead show ?thesis by simp
  next
    case (restart st2 out)
    with st have "st2 = st" by simp
    from restart_kept(1) [OF nok restart(2) [unfolded this]] lead show ?thesis by simp
  next
    case (step st2 ev out)
    with st have ev: "event_from (?C i) n ev" and step: "worker_step env st ev = Inr (st', out)" by simp_all
    note ca = event_at [OF run le ev] and ld = step_leads [OF nok step lead]
    show ?thesis
    proof (cases "role_of st = LeaderRole")
      case True
      from step_log [OF nd(1) _ _ step] nd(2) ca obtain ch where ch: "log_step env ch (inner_of st) (inner_of st') out"
        "change_allowed st ev (inner_of st') (role_of st') ch" by (auto simp: room_def carried_def)
      then have "prefix (entries_of env (inner_of st)) (entries_of env (inner_of st'))"
        using lead by (cases ch) (auto simp: log_step_def)
      with True ld(1) show ?thesis by simp
    next
      case False
      with ld(2) have same: "store (inner_of st') = store (inner_of st)" and c: "\<exists>v. role_of st = CandidateRole v" by auto
      have "length as < 2 ^ 64 - 1" "list_all (member_action ms) as" using run by (simp_all add: run_ok_def)
      from run_votes [OF ms this(2,1) order_refl, of env sk] obtain vs where vs: "votes_along ms ?C (length as) vs" ..
      have l1: "is_leader_in (?C (Suc i)) n ?u" using st' lead by (cases st') (simp_all add: is_leader_in_def)
      have l0: "\<not> is_leader_in (?C i) n ?u" using st c by (cases st) (simp_all add: is_leader_in_def)
      from elected_by(2) [OF ms vs rv i l1 l0] obtain Q where Q: "Q \<subseteq> set ms" "majority (length ms) \<le> card Q"
        "\<And>p. p \<in> Q \<Longrightarrow> p = n \<or> (\<exists>e \<le> i. ballot_for env ?C vs n ?u e p)" by blast
      have el: "elects ms (Suc i) (?C (Suc i)) (vs (Suc i))" using vs i by (simp add: votes_along_def)
      have "voted le_term H i (entries_of env (inner_of st')) ?u p" if p: "p \<in> Q" for p
        using Q(3) [OF p]
      proof (elim disjE exE conjE)
        assume "p = n"
        from voted_at [OF vs order_refl i H st _ up_to_date_refl] node_vs(1) [OF el st'] same
        show ?thesis by (simp add: \<open>p = n\<close>)
      next
        fix e assume e: "e \<le> i" and b: "ballot_for env ?C vs n ?u e p"
        then obtain stp stn v where stp: "nodes (?C e) p = Some stp" "term_of (inner_of stp) \<le> ?u"
          and stn: "nodes (?C e) n = Some stn" "term_of (inner_of stn) = ?u"
          and up: "up_to_date le_term (entries_of env (inner_of stp)) (entries_of env (inner_of stn))"
            "v_term (vs (Suc e)) p = ?u" unfolding ballot_for_def by blast
        from c obtain v' where "role_of st = CandidateRole v'" ..
        from candidate_log [OF run vs stn e le st this] same have "entries_of env (inner_of stn) = entries_of env (inner_of st')" by simp
        with voted_at [OF vs e i H stp _ up(2)] up(1) show ?thesis by simp
      qed
      with Q same show ?thesis by (auto simp: distinct_card [OF ms])
    qed
  qed
qed

section \<open>Leader completeness\<close>

definition raft_history :: "'cmd env \<Rightarrow> (NodeId, TermIndex, 'cmd LogEntry) history \<Rightarrow> bool" where
  "raft_history env H \<longleftrightarrow> (\<exists>sk ms as h. H = history_of env sk ms as h \<and> run_ok env sk ms as h \<and>
     raft_votes env ms (cluster_init env sk ms) as)"

lemma raft_historyE:
  assumes "raft_history env H"
  obtains sk ms as h where "H = history_of env sk ms as h" and "run_ok env sk ms as h" and "raft_votes env ms (cluster_init env sk ms) as"
  using assms unfolding raft_history_def by blast

interpretation raft: histories "raft_history env" le_term for env :: "'cmd env"
proof
  fix H :: "(NodeId, TermIndex, 'cmd LogEntry) history" and n :: NodeId
  assume "raft_history env H"
  then obtain sk ms as h where H: "H = history_of env sk ms as h" and run: "run_ok env sk ms as h"
    and rv: "raft_votes env ms (cluster_init env sk ms) as" by (rule raft_historyE)
  show "finite (h_members H)" by (simp add: H)
  show "s_log s = [] \<and> s_commit s = 0 \<and> \<not> s_leads s" if "h_node H 0 n = Some s" for s
  proof -
    from that obtain st where st: "first_start env sk ms n = Some st" and s: "s = snap env st"
      by (auto simp: H cluster_at_def run_def cluster_init_def)
    have "codec_ok env" using run by (simp add: run_ok_def)
    from l_init_sim [OF this, of sk ms] st have "entries_of env (inner_of st) = []" "leads st = None"
      by (auto simp: lsim_def l_init_def cluster_init_def)
    moreover have "commits_ok (inner_of st)"
      by (rule node_at(3) [OF run, of 0 n]) (use st in \<open>simp_all add: cluster_at_def run_def cluster_init_def\<close>)
    moreover from arg_cong [OF \<open>entries_of env (inner_of st) = []\<close>, of length]
    have "unat (last_log_index (store (inner_of st))) = 0" by simp
    ultimately show ?thesis by (auto simp: s leads_role commits_ok_def word_le_nat_alt split: if_splits)
  qed
  fix i
  show "take (Suc k) (s_log s) = take (Suc k) (h_hist H (le_term (s_log s ! k)))"
    if "i \<le> h_end H" "h_node H i n = Some s" "k < length (s_log s)" for s k
    using that node_at(5) [OF run] by (auto simp: H copied_def)
  show "prefix (s_log s) (h_hist H (s_term s))" if "i \<le> h_end H" "h_node H i n = Some s" "s_leads s" for s
    using that node_at(6) [OF run] by (auto simp: H)
  show "\<exists>s. h_node H i n = Some s \<and> s_term s \<le> s_term s' \<and> log_moves le_term (past_leaders H i) s s'"
    if "i < h_end H" "h_node H (Suc i) n = Some s'" for s'
    using that moves_at [OF run _ H, of i n] by (fastforce simp: H)
  show "s_leads s \<and> s_term s' = s_term s \<and> prefix (s_log s) (s_log s') \<or>
      s_log s' = s_log s \<and> s_term s = s_term s' \<and>
      (\<exists>Q \<subseteq> h_members H. majority (card (h_members H)) \<le> card Q \<and> (\<forall>p \<in> Q. voted le_term H i (s_log s') (s_term s') p))"
    if "i < h_end H" "h_node H (Suc i) n = Some s'" "s_leads s'" "h_node H i n = Some s" for s s'
    using that leads_at [OF run _ H rv, of i n] by (fastforce simp: H)
  show "s_commit s' \<le> length (s_log s') \<and> commit_moves le_term H i s s'"
    if "i < h_end H" "h_node H i n = Some s" "h_node H (Suc i) n = Some s'" for s s'
    using that commits_at [OF run _ H, of i n] by (fastforce simp: H)
qed

theorem run_complete:
  assumes cod: "codec_ok env" and ms: "distinct ms" and mem: "list_all (member_action ms) as" and len: "length as + 102 < 2 ^ 64"
    and rv: "raft_votes env ms (cluster_init env sk ms) as"
  shows "leaders_complete (set (leader_views env ms (cluster_init env sk ms) as))"
proof -
  have "length as < 2 ^ 64 - 2" using len by simp
  from run_recorded [OF cod ms mem this, of sk] obtain h where
    "\<And>i. i \<le> length as \<Longrightarrow> recorded env h (length as) (cluster_at env sk ms as i)" unfolding cluster_at_def by blast
  with assms have run: "run_ok env sk ms as h" by (simp add: run_ok_def)
  let ?H = "history_of env sk ms as h"
  from run rv have H: "raft_history env ?H" unfolding raft_history_def by blast
  show ?thesis unfolding leaders_complete_def
  proof (clarify)
    fix t m c t' m' c'
    assume v: "(t, m, c) \<in> set (leader_views env ms (cluster_init env sk ms) as)"
      and v': "(t', m', c') \<in> set (leader_views env ms (cluster_init env sk ms) as)" and t: "t < t'"
    have ex: "\<exists>i n st. i \<le> length as \<and> nodes (cluster_at env sk ms as i) n = Some st \<and> role_of st = LeaderRole \<and>
        v = (term_of (inner_of st), entries_of env (inner_of st), commit_index (inner_of st))"
      if "v \<in> set (leader_views env ms (cluster_init env sk ms) as)" for v
      using that unfolding leader_views_of [OF refl] views_of_def cluster_at_def [symmetric] by fastforce
    from ex [OF v] obtain i n st where st: "i \<le> length as" "nodes (cluster_at env sk ms as i) n = Some st"
      "(t, m, c) = (term_of (inner_of st), entries_of env (inner_of st), commit_index (inner_of st))" by blast
    from ex [OF v'] obtain i' n' st' where st': "i' \<le> length as" "nodes (cluster_at env sk ms as i') n' = Some st'" "role_of st' = LeaderRole"
      "(t', m', c') = (term_of (inner_of st'), entries_of env (inner_of st'), commit_index (inner_of st'))" by blast
    from raft.leaders_have_committed [OF H, of i n "snap env st" i' n' "snap env st'"] st st' t
    show "prefix (take (unat c) m) m'" by simp
  qed
qed

end
