(* ===== verification/Timers.thy ===== *)
theory Timers
  imports Prelude
begin

text \<open>
  The timers of util/mod.rs over the browser's window, and the election timer that a follower
  keeps with them. A \<^verbatim>\<open>Sleep\<close> shares a one-shot channel with the callback that the window runs when
  its time has come; dropping it takes the callback back.
\<close>

section \<open>The window\<close>

text \<open>
  The documented part of \<^verbatim>\<open>setTimeout\<close> and \<^verbatim>\<open>clearTimeout\<close>: handles are not reused, and a callback
  runs once, not before its time, unless it was cleared. \<open>armed\<close> has the time of each, in
  milliseconds.
\<close>

record window =
  clock :: nat
  next_handle :: nat
  armed :: "nat \<rightharpoonup> nat"

definition set_timeout :: "nat \<Rightarrow> window \<Rightarrow> nat \<times> window" where
  "set_timeout d w =
     (next_handle w, w\<lparr>armed := (armed w)(next_handle w \<mapsto> clock w + d), next_handle := next_handle w + 1\<rparr>)"

definition clear_timeout :: "nat \<Rightarrow> window \<Rightarrow> window" where
  "clear_timeout h w = w\<lparr>armed := (armed w)(h := None)\<rparr>"

section \<open>Sleep\<close>

text \<open>The receiver: nothing sent yet, the unit sent, or taken.\<close>

datatype oneshot = Empty | Sent | Taken

record Sleep =
  timeout_handle :: nat
  sleep_rx :: oneshot

text \<open>\<^verbatim>\<open>Sleep::new\<close>; the milliseconds must fit an \<^verbatim>\<open>i32\<close>.\<close>

definition Sleep_new :: "nat \<Rightarrow> window \<Rightarrow> (Sleep \<times> window) result" where
  "Sleep_new d w =
     rbind (rassert (d < 2 ^ 31) UnwrapErr) (\<lambda>_.
       let (h, w) = set_timeout d w in Inr (\<lparr>timeout_handle = h, sleep_rx = Empty\<rparr>, w))"

text \<open>The callback: sending fails if the receiver is gone (\<^const>\<open>None\<close>).\<close>

definition sleep_callback :: "Sleep option \<Rightarrow> Sleep result" where
  "sleep_callback s = (case s of None \<Rightarrow> Inl UnwrapErr | Some s \<Rightarrow> Inr (s\<lparr>sleep_rx := Sent\<rparr>))"

definition sleep_drop :: "Sleep \<Rightarrow> window \<Rightarrow> window" where
  "sleep_drop s w = clear_timeout (timeout_handle s) w"

text \<open>Polling yields whether the future is ready; a receiver whose value was taken yields an error.\<close>

definition sleep_poll :: "Sleep \<Rightarrow> (bool \<times> Sleep) result" where
  "sleep_poll s =
     (case sleep_rx s of
        Sent \<Rightarrow> Inr (True, s\<lparr>sleep_rx := Taken\<rparr>)
      | Taken \<Rightarrow> Inl ExplicitPanic
      | Empty \<Rightarrow> Inr (False, s))"

definition sleep_terminated :: "Sleep \<Rightarrow> bool" where
  "sleep_terminated s \<longleftrightarrow> sleep_rx s = Taken"

section \<open>Sleeps in use\<close>

text \<open>
  The sleeps that tasks hold, by their handle, over one window. The browser decides when time
  passes and when a callback that is due runs; a \<^verbatim>\<open>select!\<close> polls only what has not terminated.
\<close>

record timers =
  win :: window
  sleeps :: "nat \<rightharpoonup> Sleep"

datatype timer_action = StartSleep nat | Elapse nat | Fire nat | PollSleep nat | DropSleep nat

fun timer_step :: "timers \<Rightarrow> timer_action \<Rightarrow> timers result" where
  "timer_step t (StartSleep d) =
     rbind (Sleep_new d (win t)) (\<lambda>(s, w). Inr (t\<lparr>win := w, sleeps := (sleeps t)(timeout_handle s \<mapsto> s)\<rparr>))"
| "timer_step t (Elapse k) = Inr (t\<lparr>win := (win t)\<lparr>clock := clock (win t) + k\<rparr>\<rparr>)"
| "timer_step t (Fire h) =
     (case armed (win t) h of
        None \<Rightarrow> Inr t
      | Some due \<Rightarrow>
          if due \<le> clock (win t)
          then rbind (sleep_callback (sleeps t h)) (\<lambda>s.
                 Inr (t\<lparr>win := clear_timeout h (win t), sleeps := (sleeps t)(h \<mapsto> s)\<rparr>))
          else Inr t)"
| "timer_step t (PollSleep h) =
     (case sleeps t h of
        Some s \<Rightarrow>
          if sleep_terminated s then Inr t
          else rbind (sleep_poll s) (\<lambda>(ready, s). Inr (t\<lparr>sleeps := (sleeps t)(h \<mapsto> s)\<rparr>))
      | None \<Rightarrow> Inr t)"
| "timer_step t (DropSleep h) =
     (case sleeps t h of
        Some s \<Rightarrow> Inr (t\<lparr>win := sleep_drop s (win t), sleeps := (sleeps t)(h := None)\<rparr>)
      | None \<Rightarrow> Inr t)"

definition no_timers :: timers where
  "no_timers = \<lparr>win = \<lparr>clock = 0, next_handle = 0, armed = Map.empty\<rparr>, sleeps = Map.empty\<rparr>"

text \<open>Only a sleep that is still held, and has not fired, has a callback with the window.\<close>

definition timers_ok :: "timers \<Rightarrow> bool" where
  "timers_ok t \<longleftrightarrow>
     (\<forall>h s. sleeps t h = Some s \<longrightarrow> timeout_handle s = h \<and> h < next_handle (win t)) \<and>
     (\<forall>h. armed (win t) h \<noteq> None \<longrightarrow> (\<exists>s. sleeps t h = Some s \<and> sleep_rx s = Empty))"

definition short_sleep :: "timer_action \<Rightarrow> bool" where
  "short_sleep a = (case a of StartSleep d \<Rightarrow> d < 2 ^ 31 | _ \<Rightarrow> True)"

lemmas timer_defs = Sleep_new_def set_timeout_def clear_timeout_def sleep_callback_def sleep_drop_def
  sleep_poll_def sleep_terminated_def

lemma timer_step_calm:
  assumes "timers_ok t" and "short_sleep a"
  obtains t' where "timer_step t a = Inr t'" and "timers_ok t'"
proof (cases a)
  case (StartSleep d)
  with assms show ?thesis
    by (intro that [of "t\<lparr>win := snd (set_timeout d (win t)),
          sleeps := (sleeps t)(next_handle (win t) \<mapsto> \<lparr>timeout_handle = next_handle (win t), sleep_rx = Empty\<rparr>)\<rparr>"])
      (auto simp: timer_defs timers_ok_def short_sleep_def less_Suc_eq)
next
  case (Elapse k)
  with assms show ?thesis
    by (intro that [of "t\<lparr>win := (win t)\<lparr>clock := clock (win t) + k\<rparr>\<rparr>"]) (auto simp: timers_ok_def)
next
  case (Fire h)
  show ?thesis
  proof (cases "armed (win t) h")
    case None
    with Fire assms show ?thesis by (intro that [of t]) simp_all
  next
    case (Some due)
    with assms(1) obtain s where s: "sleeps t h = Some s" "sleep_rx s = Empty" unfolding timers_ok_def by blast
    show ?thesis
    proof (cases "due \<le> clock (win t)")
      case True
      with Fire Some s assms(1) show ?thesis
        by (intro that [of "t\<lparr>win := clear_timeout h (win t), sleeps := (sleeps t)(h \<mapsto> s\<lparr>sleep_rx := Sent\<rparr>)\<rparr>"])
          (auto simp: timer_defs timers_ok_def)
    qed (use Fire Some assms in \<open>auto intro: that [of t]\<close>)
  qed
next
  case (PollSleep h)
  show ?thesis
  proof (cases "sleeps t h")
    case (Some s)
    show ?thesis
    proof (cases "sleep_rx s")
      case Sent
      with PollSleep Some assms(1) show ?thesis
        by (intro that [of "t\<lparr>sleeps := (sleeps t)(h \<mapsto> s\<lparr>sleep_rx := Taken\<rparr>)\<rparr>"])
          (fastforce simp: timer_defs timers_ok_def)+
    next
      case Empty
      with PollSleep Some assms(1) show ?thesis by (intro that [of t]) (simp_all add: timer_defs fun_upd_idem)
    next
      case Taken
      with PollSleep Some assms(1) show ?thesis by (intro that [of t]) (simp_all add: timer_defs)
    qed
  qed (use PollSleep assms in \<open>auto intro: that [of t]\<close>)
next
  case (DropSleep h)
  show ?thesis
  proof (cases "sleeps t h")
    case (Some s)
    with DropSleep assms(1) show ?thesis
      by (intro that [of "t\<lparr>win := sleep_drop s (win t), sleeps := (sleeps t)(h := None)\<rparr>"])
        (auto simp: timer_defs timers_ok_def)
  qed (use DropSleep assms in \<open>auto intro: that [of t]\<close>)
qed

text \<open>No callback and no poll ever panics.\<close>

lemma timers_calm:
  assumes "list_all short_sleep as" and "timers_ok t"
  shows "\<exists>t'. rfold timer_step t as = Inr t' \<and> timers_ok t'"
  using assms
proof (induction as arbitrary: t)
  case (Cons a as)
  then obtain t1 where "timer_step t a = Inr t1" "timers_ok t1" using timer_step_calm [of t a] by auto
  with Cons show ?case by simp
qed simp

lemma no_timers_ok: "timers_ok no_timers"
  by (simp add: timers_ok_def no_timers_def)


section \<open>Never early\<close>

text \<open>A sleep that is held is armed for its time, or the time has come.\<close>

definition not_early :: "nat \<Rightarrow> nat \<Rightarrow> timers \<Rightarrow> bool" where
  "not_early h due t \<longleftrightarrow> h < next_handle (win t) \<and>
     (due \<le> clock (win t) \<or> sleeps t h = None \<or> armed (win t) h = Some due)"

lemma timer_step_not_early:
  assumes "timers_ok t" and "not_early h due t" and "timer_step t a = Inr t'"
  shows "not_early h due t'"
  using assms
  by (cases a) (auto simp: not_early_def timers_ok_def timer_defs rbind_eq_Inr rassert_eq_Inr
      split: option.splits if_splits oneshot.splits)

lemma timers_not_early:
  assumes "list_all short_sleep as" and "timers_ok t" and "not_early h due t" and "rfold timer_step t as = Inr t'"
  shows "not_early h due t'"
  using assms
proof (induction as arbitrary: t)
  case (Cons a as)
  then obtain t1 where t1: "timer_step t a = Inr t1" "rfold timer_step t1 as = Inr t'" by (auto simp: rbind_eq_Inr)
  from Cons.prems(1,2) t1(1) have "timers_ok t1" using timer_step_calm [of t a] by auto
  from Cons.IH [OF _ this timer_step_not_early [OF Cons.prems(2,3) t1(1)] t1(2)] Cons.prems(1) show ?case by simp
qed simp

section \<open>The election timer\<close>

text \<open>
  \<^verbatim>\<open>election_timeout\<close> and \<^verbatim>\<open>heartbeat_timeout\<close> of raft/worker.rs; the delay is what the random number
  generator yields, from 1000 to 1499.
\<close>

definition election_delay :: "nat \<Rightarrow> bool" where
  "election_delay d \<longleftrightarrow> 1000 \<le> d \<and> d < 1500"

definition HEARTBEAT_INTERVAL_MILLIS :: nat where
  "HEARTBEAT_INTERVAL_MILLIS = 100"

definition election_timeout :: "nat \<Rightarrow> window \<Rightarrow> (Sleep \<times> window) result" where
  "election_timeout delay w = Sleep_new delay w"

definition heartbeat_timeout :: "window \<Rightarrow> (Sleep \<times> window) result" where
  "heartbeat_timeout w = Sleep_new HEARTBEAT_INTERVAL_MILLIS w"

text \<open>
  \<^verbatim>\<open>*timeout = Self::election_timeout()\<close> on an append-entries request: the new sleep, then the old one
  is dropped.
\<close>

definition reset_election :: "nat \<Rightarrow> Sleep \<Rightarrow> window \<Rightarrow> (Sleep \<times> window) result" where
  "reset_election delay old w = rbind (election_timeout delay w) (\<lambda>(s, w). Inr (s, sleep_drop old w))"

text \<open>
  A follower's timer while requests arrive: before each, \<open>gap\<close> milliseconds pass, the window runs
  the callback if it is due, and the \<^verbatim>\<open>select!\<close> polls the timer. The result tells whether it expired.
\<close>

fun follower_timer :: "Sleep \<Rightarrow> window \<Rightarrow> (nat \<times> nat) list \<Rightarrow> bool result" where
  "follower_timer s w [] = Inr False"
| "follower_timer s w ((gap, delay) # rs) =
     (let w = w\<lparr>clock := clock w + gap\<rparr>
      in rbind (case armed w (timeout_handle s) of
                  Some due \<Rightarrow> if due \<le> clock w then sleep_callback (Some s) else Inr s
                | None \<Rightarrow> Inr s) (\<lambda>s.
         rbind (sleep_poll s) (\<lambda>(ready, s).
           if ready then Inr True
           else rbind (reset_election delay s w) (\<lambda>(s, w). follower_timer s w rs))))"

text \<open>
  A follower that hears from a leader before 1000 ms have passed, each time, calls no election; one
  that is left alone for 1500 ms does. With a heartbeat every 100 ms it takes ten lost in a row.
\<close>

definition waiting_timer :: "Sleep \<Rightarrow> window \<Rightarrow> nat \<Rightarrow> bool" where
  "waiting_timer s w d \<longleftrightarrow> sleep_rx s = Empty \<and> armed w (timeout_handle s) = Some (clock w + d) \<and>
     timeout_handle s < next_handle w"

lemma reset_election_waits:
  assumes "election_delay delay" and "timeout_handle s < next_handle w"
  obtains s' w' where "reset_election delay s w = Inr (s', w')" and "waiting_timer s' w' delay"
  using assms
  by (auto simp: reset_election_def election_timeout_def election_delay_def waiting_timer_def timer_defs Let_def)

lemma follower_timer_kept:
  assumes "waiting_timer s w d" and "1000 \<le> d" and "\<forall>(gap, delay) \<in> set rs. gap < 1000 \<and> election_delay delay"
  shows "follower_timer s w rs = Inr False"
  using assms
proof (induction rs arbitrary: s w d)
  case (Cons r rs)
  obtain gap delay where r: "r = (gap, delay)" by force
  let ?w = "w\<lparr>clock := clock w + gap\<rparr>"
  from Cons.prems r have g: "gap < 1000" "election_delay delay" "timeout_handle s < next_handle ?w"
    by (simp_all add: waiting_timer_def)
  from reset_election_waits [OF g(2,3)] obtain s' w' where s': "reset_election delay s ?w = Inr (s', w')"
    "waiting_timer s' w' delay" .
  have "follower_timer s' w' rs = Inr False"
    by (rule Cons.IH [OF s'(2)]) (use g(2) Cons.prems(3) in \<open>auto simp: election_delay_def\<close>)
  with s'(1) g(1) Cons.prems(1,2) r show ?case by (simp add: waiting_timer_def sleep_poll_def Let_def)
qed simp

lemma follower_timer_expires:
  assumes "waiting_timer s w d" and "1000 \<le> d" and "d < 1500" and "1500 \<le> gap"
    and "\<forall>(gap, delay) \<in> set rs. gap < 1000 \<and> election_delay delay"
  shows "follower_timer s w (rs @ [(gap, delay)]) = Inr True"
  using assms
proof (induction rs arbitrary: s w d)
  case Nil
  then show ?case by (simp add: waiting_timer_def sleep_callback_def sleep_poll_def)
next
  case (Cons r rs)
  obtain gap1 delay1 where r: "r = (gap1, delay1)" by force
  let ?w = "w\<lparr>clock := clock w + gap1\<rparr>"
  from Cons.prems r have g: "gap1 < 1000" "election_delay delay1" "timeout_handle s < next_handle ?w"
    by (simp_all add: waiting_timer_def)
  from reset_election_waits [OF g(2,3)] obtain s' w' where s': "reset_election delay1 s ?w = Inr (s', w')"
    "waiting_timer s' w' delay1" .
  have "follower_timer s' w' (rs @ [(gap, delay)]) = Inr True"
    by (rule Cons.IH [OF s'(2)]) (use g(2) Cons.prems in \<open>auto simp: election_delay_def\<close>)
  with s'(1) g(1) Cons.prems(1,2) r show ?case by (simp add: waiting_timer_def sleep_poll_def Let_def)
qed

lemma election_timeout_waits: "election_delay d \<Longrightarrow> election_timeout d w = Inr (s, w') \<Longrightarrow> waiting_timer s w' d"
  by (auto simp: election_timeout_def election_delay_def waiting_timer_def timer_defs)

section \<open>The heartbeat\<close>

text \<open>
  A leader's timer: \<open>gap\<close> milliseconds pass, the window runs the callback if it is due, and the
  \<^verbatim>\<open>select!\<close> polls the timer; when it has expired, a heartbeat goes out and a new sleep replaces it.
  The result is the times of the heartbeats.
\<close>

fun heartbeat_timer :: "Sleep \<Rightarrow> window \<Rightarrow> nat list \<Rightarrow> nat list result" where
  "heartbeat_timer s w [] = Inr []"
| "heartbeat_timer s w (gap # gaps) =
     (let w = w\<lparr>clock := clock w + gap\<rparr>
      in rbind (case armed w (timeout_handle s) of
                  Some due \<Rightarrow> if due \<le> clock w then sleep_callback (Some s) else Inr s
                | None \<Rightarrow> Inr s) (\<lambda>s.
         rbind (sleep_poll s) (\<lambda>(ready, s).
           if ready
           then rbind (heartbeat_timeout w) (\<lambda>(s', w').
                  rbind (heartbeat_timer s' (sleep_drop s w') gaps) (\<lambda>ts. Inr (clock w # ts)))
           else heartbeat_timer s w gaps)))"

lemma heartbeat_timeout_waits:
  assumes "timeout_handle s0 < next_handle w"
  obtains s w' where "heartbeat_timeout w = Inr (s, w')" and "waiting_timer s (sleep_drop s0 w') HEARTBEAT_INTERVAL_MILLIS"
    and "clock w' = clock w"
  using assms by (auto simp: heartbeat_timeout_def HEARTBEAT_INTERVAL_MILLIS_def waiting_timer_def timer_defs)

text \<open>A timer that is polled every millisecond is silent until its time has come.\<close>

lemma heartbeat_silent:
  assumes "waiting_timer s w d" and "n < d"
  shows "heartbeat_timer s w (replicate n 1 @ gaps) = heartbeat_timer s (w\<lparr>clock := clock w + n\<rparr>) gaps
    \<and> waiting_timer s (w\<lparr>clock := clock w + n\<rparr>) (d - n)"
  using assms
proof (induction n arbitrary: w d)
  case (Suc n)
  let ?w = "w\<lparr>clock := clock w + 1\<rparr>"
  have "waiting_timer s ?w (d - 1)" using Suc.prems by (simp add: waiting_timer_def)
  from Suc.IH [OF this] Suc.prems show ?case by (simp add: waiting_timer_def sleep_poll_def)
qed simp

lemma heartbeat_beats:
  assumes "waiting_timer s w HEARTBEAT_INTERVAL_MILLIS"
  shows "heartbeat_timer s w (replicate (k * HEARTBEAT_INTERVAL_MILLIS) 1) =
    Inr (map (\<lambda>i. clock w + HEARTBEAT_INTERVAL_MILLIS * Suc i) [0..<k])"
  using assms
proof (induction k arbitrary: s w)
  case (Suc k)
  let ?d = HEARTBEAT_INTERVAL_MILLIS and ?w = "w\<lparr>clock := clock w + (HEARTBEAT_INTERVAL_MILLIS - 1)\<rparr>"
  have d: "?d - 1 < ?d" "?d - (?d - 1) = 1" "Suc (?d - 1) = ?d" by (simp_all add: HEARTBEAT_INTERVAL_MILLIS_def)
  have "Suc k * ?d = (?d - 1) + Suc (k * ?d)" using d(3) by simp
  then have r: "replicate (Suc k * ?d) (1 :: nat) = replicate (?d - 1) 1 @ 1 # replicate (k * ?d) 1"
    by (simp only: replicate_add replicate_Suc)
  note silent = heartbeat_silent [OF Suc.prems d(1), of "1 # replicate (k * ?d) 1"]
  let ?v = "w\<lparr>clock := clock w + ?d\<rparr>"
  have due: "armed ?v (timeout_handle s) = Some (clock w + ?d)" "sleep_rx s = Empty" "timeout_handle s < next_handle ?v"
    using Suc.prems by (simp_all add: waiting_timer_def)
  have v: "?w\<lparr>clock := clock ?w + 1\<rparr> = ?v" using d(3) by simp
  from heartbeat_timeout_waits [of "s\<lparr>sleep_rx := Taken\<rparr>" ?v] due(3) obtain s' w' where
    s': "heartbeat_timeout ?v = Inr (s', w')" "waiting_timer s' (sleep_drop (s\<lparr>sleep_rx := Taken\<rparr>) w') ?d" "clock w' = clock w + ?d"
    by auto
  have "heartbeat_timer s ?w (1 # replicate (k * ?d) 1) =
      rbind (heartbeat_timer s' (sleep_drop (s\<lparr>sleep_rx := Taken\<rparr>) w') (replicate (k * ?d) 1)) (\<lambda>ts. Inr ((clock w + ?d) # ts))"
    unfolding heartbeat_timer.simps Let_def v using due s'(1) by (simp add: sleep_callback_def sleep_poll_def)
  with silent Suc.IH [OF s'(2)] s'(3) have "heartbeat_timer s w (replicate (Suc k * ?d) 1) =
      Inr ((clock w + ?d) # map (\<lambda>i. clock w + ?d + ?d * Suc i) [0..<k])"
    unfolding r by (simp add: sleep_drop_def clear_timeout_def)
  also have "(clock w + ?d) # map (\<lambda>i. clock w + ?d + ?d * Suc i) [0..<k] = map (\<lambda>i. clock w + ?d * Suc i) [0..<Suc k]"
    by (simp only: upt_conv_Cons [of 0 "Suc k"] map_Suc_upt [symmetric]) (simp add: comp_def)
  finally show ?case .
qed simp

lemma heartbeat_timeout_beats:
  "heartbeat_timeout w = Inr (s, w') \<Longrightarrow> waiting_timer s w' HEARTBEAT_INTERVAL_MILLIS \<and> clock w' = clock w"
  by (auto simp: heartbeat_timeout_def HEARTBEAT_INTERVAL_MILLIS_def waiting_timer_def timer_defs)

section \<open>Intervals\<close>

text \<open>
  \<^verbatim>\<open>Interval\<close>: every tick clones the sender and spawns a task that sends on the clone, which has a slot
  of its own in the channel; \<open>pending_ticks\<close> counts these tasks, \<open>queued\<close> what the stream has still to
  yield. Dropping it takes the callback back, but not the tasks.
\<close>

record Interval =
  interval_id :: nat
  pending_ticks :: nat
  queued :: nat
  interval_live :: bool

definition Interval_new :: "nat \<Rightarrow> nat \<Rightarrow> Interval result" where
  "Interval_new h d =
     rbind (rassert (d < 2 ^ 31) UnwrapErr) (\<lambda>_.
       Inr \<lparr>interval_id = h, pending_ticks = 0, queued = 0, interval_live = True\<rparr>)"

definition interval_tick :: "Interval \<Rightarrow> Interval" where
  "interval_tick i = (if interval_live i then i\<lparr>pending_ticks := pending_ticks i + 1\<rparr> else i)"

definition interval_send :: "Interval \<Rightarrow> Interval result" where
  "interval_send i =
     (if pending_ticks i = 0 then Inr i
      else if interval_live i then Inr (i\<lparr>pending_ticks := pending_ticks i - 1, queued := queued i + 1\<rparr>)
      else Inl UnwrapErr)"

definition interval_poll :: "Interval \<Rightarrow> bool \<times> Interval" where
  "interval_poll i = (if 0 < queued i then (True, i\<lparr>queued := queued i - 1\<rparr>) else (False, i))"

definition interval_drop :: "Interval \<Rightarrow> Interval" where
  "interval_drop i = i\<lparr>interval_live := False\<rparr>"

lemma dropped_interval_panics:
  assumes "interval_live i"
  shows "interval_send (interval_drop (interval_tick i)) = Inl UnwrapErr"
  using assms by (simp add: interval_tick_def interval_drop_def interval_send_def)

end
