(* ===== verification/Introducer.thy ===== *)
theory Introducer
  imports Radix
begin

text \<open>
  The introducer, the server through which browsers find each other (webrtc-introducer), and the
  commands it exchanges with them (webrtc-introducer-types). Every socket has two tasks: one reads
  commands from it, the other sends it what its session's broadcast channel delivers.
\<close>

section \<open>Commands\<close>

record Join =
  j_node_id :: u64
  j_session_id :: u128

text \<open>A \<^verbatim>\<open>HashSet\<close> is a set.\<close>

record Session =
  s_session_id :: u128
  s_online :: "u64 set"

record Offer =
  o_session_id :: u128
  o_node_id :: u64
  o_target_id :: u64
  o_sdp_data :: string

record IceCandidate =
  c_session_id :: u128
  c_node_id :: u64
  c_target_id :: u64
  c_candidate :: string
  c_sdp_mid :: "string option"

datatype Command =
    Join Join
  | SessionStatus Session
  | Offer Offer
  | Answer Offer
  | IceCandidate IceCandidate

text \<open>The errors of the libraries, all boxed in \<^verbatim>\<open>RustError\<close>, by their origin.\<close>

datatype RustError = BroadcastClosed | QueueClosed | WebSocketError | BincodeError

datatype IntroducerError = SessionNotFound string | RustError RustError

section \<open>Channels\<close>

text \<open>
  \<^verbatim>\<open>messages\<close> holds a broadcast sender for each session; the sender is its session here.
  \<open>poisoned\<close> is the state of the lock around \<^verbatim>\<open>online\<close>: a panic of a writer poisons it, and
  taking it is then an error, which the code unwraps.
\<close>

record Channels =
  messages :: "u128 set"
  online :: "u128 \<rightharpoonup> u64 set"
  poisoned :: bool

definition channels_default :: Channels where
  "channels_default = \<lparr>messages = {}, online = Map.empty, poisoned = False\<rparr>"

text \<open>
  An operation yields the channels and either a panic or its result, which is an error or the
  command that it broadcasts. Broadcasting fails if nobody receives: \<open>received s\<close> tells whether
  the channel of session \<open>s\<close> has a receiver.
\<close>

type_synonym published = "u128 \<times> Command"

definition get_messages :: "Channels \<Rightarrow> u128 \<Rightarrow> u128 option" where
  "get_messages ch session_id = (if session_id \<in> messages ch then Some session_id else None)"

definition broadcast :: "Channels \<Rightarrow> (u128 \<Rightarrow> bool) \<Rightarrow> u128 \<Rightarrow> Command \<Rightarrow> IntroducerError + published" where
  "broadcast ch received session_id command =
     (case get_messages ch session_id of
        None \<Rightarrow> Inl (SessionNotFound (format_032x session_id))
      | Some tx \<Rightarrow> if received tx then Inr (tx, command) else Inl (RustError BroadcastClosed))"

definition broadcast_session_info ::
  "Channels \<Rightarrow> (u128 \<Rightarrow> bool) \<Rightarrow> u128 \<Rightarrow> (IntroducerError + published) result" where
  "broadcast_session_info ch received session_id =
     (if poisoned ch then Inl UnwrapErr
      else case online ch session_id of
             None \<Rightarrow> Inl UnwrapNone
           | Some nodes \<Rightarrow>
               let status = \<lparr>s_session_id = session_id, s_online = nodes\<rparr>
               in Inr (broadcast ch received session_id (SessionStatus status)))"

definition joined ::
  "Channels \<Rightarrow> (u128 \<Rightarrow> bool) \<Rightarrow> u64 \<Rightarrow> u128 \<Rightarrow> Channels \<times> (IntroducerError + published) result" where
  "joined ch received node_id session_id =
     (if poisoned ch then (ch, Inl UnwrapErr)
      else let nodes = (case online ch session_id of None \<Rightarrow> {} | Some nodes \<Rightarrow> nodes);
               ch = ch\<lparr>online := (online ch)(session_id \<mapsto> insert node_id nodes)\<rparr>
           in (ch, broadcast_session_info ch received session_id))"

definition left ::
  "Channels \<Rightarrow> (u128 \<Rightarrow> bool) \<Rightarrow> u64 \<Rightarrow> u128 \<Rightarrow> Channels \<times> (IntroducerError + published) result" where
  "left ch received node_id session_id =
     (if poisoned ch then (ch, Inl UnwrapErr)
      else case online ch session_id of
             None \<Rightarrow> (ch\<lparr>poisoned := True\<rparr>, Inl UnwrapNone)
           | Some nodes \<Rightarrow>
               let ch = ch\<lparr>online := (online ch)(session_id \<mapsto> nodes - {node_id})\<rparr>
               in (ch, broadcast_session_info ch received session_id))"

definition ensure_session :: "Channels \<Rightarrow> u128 \<Rightarrow> Channels" where
  "ensure_session ch session_id =
     (if session_id \<in> messages ch then ch else ch\<lparr>messages := insert session_id (messages ch)\<rparr>)"

section \<open>Reading from a socket\<close>

text \<open>What \<^verbatim>\<open>process_message\<close> does besides its result: a join for the other task, or a broadcast.\<close>

datatype reaction = QueueJoin u64 u128 | Publish published

text \<open>
  \<open>cmd\<close> is what \<^verbatim>\<open>bincode::deserialize\<close> makes of the data; \<open>queue_open\<close> tells whether the other
  task still receives joins.
\<close>

definition process_message ::
  "Channels \<Rightarrow> (u128 \<Rightarrow> bool) \<Rightarrow> bool \<Rightarrow> Command option \<Rightarrow>
   (IntroducerError + (u64 \<times> u128) option \<times> reaction) result" where
  "process_message ch received queue_open cmd =
     (let publish = (\<lambda>session_id cmd. Inr (map_sum id (\<lambda>p. (None, Publish p)) (broadcast ch received session_id cmd)))
      in case cmd of
           None \<Rightarrow> Inr (Inl (RustError BincodeError))
         | Some (Join join) \<Rightarrow>
             let info = (j_node_id join, j_session_id join)
             in Inr (if queue_open then Inr (Some info, QueueJoin (j_node_id join) (j_session_id join))
                     else Inl (RustError QueueClosed))
         | Some (Offer offer) \<Rightarrow> publish (o_session_id offer) (Offer offer)
         | Some (Answer answer) \<Rightarrow> publish (o_session_id answer) (Answer answer)
         | Some (IceCandidate candidate) \<Rightarrow> publish (c_session_id candidate) (IceCandidate candidate)
         | Some (SessionStatus _) \<Rightarrow> Inl Unreachable)"

datatype ws_message =
    Binary "Command option"
  | Pong
  | CloseFrame
  | OtherMessage
  | ReceiveError

text \<open>
  One round of the loop that reads the socket: the new value of its variable \<^verbatim>\<open>ids\<close>, and the
  reaction.
\<close>

definition read_message ::
  "Channels \<Rightarrow> (u128 \<Rightarrow> bool) \<Rightarrow> bool \<Rightarrow> (u64 \<times> u128) option \<Rightarrow> ws_message \<Rightarrow>
   ((u64 \<times> u128) option \<times> reaction option) result" where
  "read_message ch received queue_open ids msg =
     (case msg of
        Binary data \<Rightarrow>
          rbind (process_message ch received queue_open data) (\<lambda>r. Inr (case r of
            Inr (info, reaction) \<Rightarrow> (info, Some reaction)
          | Inl err \<Rightarrow> (ids, None)))
      | Pong \<Rightarrow> Inr (ids, None)
      | CloseFrame \<Rightarrow> Inr (ids, None)
      | OtherMessage \<Rightarrow> Inr (ids, None)
      | ReceiveError \<Rightarrow> Inr (ids, None))"

section \<open>Sending to a socket\<close>

text \<open>Whether the sending task passes a command of its session's channel on to its socket.\<close>

definition relays :: "u64 \<Rightarrow> u128 \<Rightarrow> Command \<Rightarrow> bool result" where
  "relays node_id session_id msg =
     (case msg of
        SessionStatus _ \<Rightarrow> Inr True
      | Offer offer \<Rightarrow> Inr (o_session_id offer = session_id \<and> o_target_id offer = node_id)
      | Answer answer \<Rightarrow> Inr (o_session_id answer = session_id \<and> o_target_id answer = node_id)
      | IceCandidate answer \<Rightarrow> Inr (c_session_id answer = session_id \<and> c_target_id answer = node_id)
      | Join _ \<Rightarrow> Inl Unreachable)"

section \<open>The server\<close>

text \<open>The sending task of a socket, with the node and session it serves once it got a join.\<close>

datatype sender_task =
    AwaitJoin
  | Serving u64 u128
  | Ended "IntroducerError option"
  | Panicked

text \<open>
  \<open>joins\<close> is the channel between the two tasks; \<open>inbox\<close> what the task's receiver of the broadcast
  channel has yet to deliver; \<open>leaving\<close> is set when the reading loop has ended.
\<close>

record conn =
  joins :: "(u64 \<times> u128) list"
  ids :: "(u64 \<times> u128) option"
  task :: sender_task
  inbox :: "Command list"
  leaving :: bool

record introducer =
  channels :: Channels
  conns :: "(nat \<times> conn) list"
  sent :: "(nat \<times> Command) list"

definition introducer_init :: introducer where
  "introducer_init = \<lparr>channels = channels_default, conns = [], sent = []\<rparr>"

definition serves :: "u128 \<Rightarrow> conn \<Rightarrow> bool" where
  "serves s c = (case task c of Serving n s' \<Rightarrow> s' = s | _ \<Rightarrow> False)"

definition received :: "introducer \<Rightarrow> u128 \<Rightarrow> bool" where
  "received srv s = list_ex (\<lambda>(k, c). serves s c) (conns srv)"

definition publish :: "published \<Rightarrow> introducer \<Rightarrow> introducer" where
  "publish p srv =
     srv\<lparr>conns := map (\<lambda>(k, c). (k, if serves (fst p) c then c\<lparr>inbox := inbox c @ [snd p]\<rparr> else c)) (conns srv)\<rparr>"

definition set_conn :: "nat \<Rightarrow> conn \<Rightarrow> introducer \<Rightarrow> introducer" where
  "set_conn k c srv = srv\<lparr>conns := AList.update k c (conns srv)\<rparr>"

definition drop_conn :: "nat \<Rightarrow> introducer \<Rightarrow> introducer" where
  "drop_conn k srv = srv\<lparr>conns := AList.delete k (conns srv)\<rparr>"

text \<open>
  The reading task. If it panics, its end of the channels goes with it, which the other task takes
  for the end of the socket; nobody is left to announce that the node has gone.
\<close>

definition task_open :: "sender_task \<Rightarrow> bool" where
  "task_open t = (case t of AwaitJoin \<Rightarrow> True | Serving _ _ \<Rightarrow> True | _ \<Rightarrow> False)"

definition incoming :: "nat \<Rightarrow> ws_message \<Rightarrow> conn \<Rightarrow> introducer \<Rightarrow> introducer" where
  "incoming k msg c srv =
     (case read_message (channels srv) (received srv) (task_open (task c)) (ids c) msg of
        Inl _ \<Rightarrow> set_conn k (c\<lparr>ids := None, leaving := True\<rparr>) srv
      | Inr (info, r) \<Rightarrow>
          let c = c\<lparr>ids := info\<rparr>
          in (case r of
                None \<Rightarrow> set_conn k c srv
              | Some (QueueJoin n s) \<Rightarrow> set_conn k (c\<lparr>joins := joins c @ [(n, s)]\<rparr>) srv
              | Some (Publish p) \<Rightarrow> publish p (set_conn k c srv)))"

text \<open>The sending task takes its join: it subscribes, and then announces the node.\<close>

definition serve_join :: "nat \<Rightarrow> u64 \<Rightarrow> u128 \<Rightarrow> conn \<Rightarrow> introducer \<Rightarrow> introducer" where
  "serve_join k node_id session_id c srv =
     (let ch = ensure_session (channels srv) session_id;
          srv = set_conn k (c\<lparr>task := Serving node_id session_id, inbox := []\<rparr>) (srv\<lparr>channels := ch\<rparr>);
          (ch, r) = joined ch (received srv) node_id session_id;
          srv = srv\<lparr>channels := ch\<rparr>
      in case r of
           Inl _ \<Rightarrow> set_conn k (c\<lparr>task := Panicked\<rparr>) srv
         | Inr (Inl err) \<Rightarrow> set_conn k (c\<lparr>task := Ended (Some err)\<rparr>) srv
         | Inr (Inr p) \<Rightarrow> publish p srv)"

text \<open>\<open>ok\<close> tells whether the web socket takes the message.\<close>

definition relay :: "nat \<Rightarrow> u64 \<Rightarrow> u128 \<Rightarrow> bool \<Rightarrow> conn \<Rightarrow> Command \<Rightarrow> Command list \<Rightarrow> introducer \<Rightarrow> introducer" where
  "relay k node_id session_id ok c msg rest srv =
     (case relays node_id session_id msg of
        Inl _ \<Rightarrow> set_conn k (c\<lparr>task := Panicked, inbox := []\<rparr>) srv
      | Inr False \<Rightarrow> set_conn k (c\<lparr>inbox := rest\<rparr>) srv
      | Inr True \<Rightarrow>
          if ok then (set_conn k (c\<lparr>inbox := rest\<rparr>) srv)\<lparr>sent := sent srv @ [(k, msg)]\<rparr>
          else set_conn k (c\<lparr>task := Ended (Some (RustError WebSocketError)), inbox := []\<rparr>) srv)"

text \<open>
  The end of \<^verbatim>\<open>process_socket\<close>: once the socket is at its end, the sending task is told, unless
  it is gone; and when it has ended well, the node of \<^verbatim>\<open>ids\<close> has left.
\<close>

definition end_of_stream :: "nat \<Rightarrow> conn \<Rightarrow> introducer \<Rightarrow> introducer" where
  "end_of_stream k c srv =
     (if task_open (task c) then set_conn k (c\<lparr>leaving := True\<rparr>) srv else drop_conn k srv)"

definition finish_conn :: "nat \<Rightarrow> conn \<Rightarrow> introducer \<Rightarrow> introducer" where
  "finish_conn k c srv =
     (case task c of
        Ended None \<Rightarrow>
          (case ids c of
             None \<Rightarrow> drop_conn k srv
           | Some (node_id, session_id) \<Rightarrow>
               let (ch, r) = left (channels srv) (received srv) node_id session_id;
                   srv = srv\<lparr>channels := ch\<rparr>
               in drop_conn k (case r of Inr (Inr p) \<Rightarrow> publish p srv | _ \<Rightarrow> srv))
      | Ended (Some _) \<Rightarrow> drop_conn k srv
      | Panicked \<Rightarrow> drop_conn k srv
      | _ \<Rightarrow> srv)"

text \<open>
  What can happen next. A broadcast channel keeps a bounded number of messages: a slow receiver
  loses the oldest ones (\<open>Lag\<close>). The queue of joins has room for one: a reader with a second
  join waits (\<open>Incoming\<close> does nothing then). A ping that cannot be sent ends the task.
\<close>

datatype intro_action =
    Accept nat
  | Incoming nat ws_message
  | TakeJoin nat
  | Relay nat bool
  | Lag nat nat
  | PingFails nat
  | EndOfStream nat
  | TaskLeaves nat
  | Finish nat

definition must_wait :: "conn \<Rightarrow> ws_message \<Rightarrow> bool" where
  "must_wait c msg \<longleftrightarrow> joins c \<noteq> [] \<and> task_open (task c) \<and>
     (case msg of Binary (Some (Join j)) \<Rightarrow> True | _ \<Rightarrow> False)"

fun on_conn :: "intro_action \<Rightarrow> nat \<Rightarrow> conn \<Rightarrow> introducer \<Rightarrow> introducer" where
  "on_conn (Incoming _ msg) k c srv = (if leaving c \<or> must_wait c msg then srv else incoming k msg c srv)"
| "on_conn (TakeJoin _) k c srv =
     (case (task c, joins c) of
        (AwaitJoin, (n, s) # js) \<Rightarrow> serve_join k n s (c\<lparr>joins := js\<rparr>) srv
      | _ \<Rightarrow> srv)"
| "on_conn (Relay _ ok) k c srv =
     (case (task c, inbox c) of
        (Serving n s, msg # rest) \<Rightarrow> relay k n s ok c msg rest srv
      | _ \<Rightarrow> srv)"
| "on_conn (Lag _ m) k c srv = set_conn k (c\<lparr>inbox := drop m (inbox c)\<rparr>) srv"
| "on_conn (PingFails _) k c srv =
     (case task c of
        Serving n s \<Rightarrow> set_conn k (c\<lparr>task := Ended (Some (RustError WebSocketError)), inbox := []\<rparr>) srv
      | _ \<Rightarrow> srv)"
| "on_conn (EndOfStream _) k c srv = (if leaving c then srv else end_of_stream k c srv)"
| "on_conn (TaskLeaves _) k c srv =
     (case task c of
        Serving n s \<Rightarrow> if leaving c then set_conn k (c\<lparr>task := Ended None, inbox := []\<rparr>) srv else srv
      | _ \<Rightarrow> srv)"
| "on_conn (Finish _) k c srv = (if leaving c then finish_conn k c srv else srv)"
| "on_conn (Accept _) k c srv = srv"

fun action_conn :: "intro_action \<Rightarrow> nat" where
  "action_conn (Accept k) = k"
| "action_conn (Incoming k msg) = k"
| "action_conn (TakeJoin k) = k"
| "action_conn (Relay k ok) = k"
| "action_conn (Lag k m) = k"
| "action_conn (PingFails k) = k"
| "action_conn (EndOfStream k) = k"
| "action_conn (TaskLeaves k) = k"
| "action_conn (Finish k) = k"

definition intro_step :: "introducer \<Rightarrow> intro_action \<Rightarrow> introducer" where
  "intro_step srv a =
     (case map_of (conns srv) (action_conn a) of
        Some c \<Rightarrow> on_conn a (action_conn a) c srv
      | None \<Rightarrow>
          (case a of
             Accept k \<Rightarrow> set_conn k \<lparr>joins = [], ids = None, task = AwaitJoin, inbox = [], leaving = False\<rparr> srv
           | _ \<Rightarrow> srv))"

definition intro_run :: "introducer \<Rightarrow> intro_action list \<Rightarrow> introducer" where
  "intro_run srv as = foldl intro_step srv as"

end
