(* ===== verification/Introduction.thy ===== *)
theory Introduction
  imports Introducer
begin

text \<open>
  How a browser meets the other members of its session (webrtc\_rpc/introduction.rs): the commands
  it exchanges with the introducer over a web socket, and the tasks that set up a data channel to
  each peer. A task runs up to its next \<^verbatim>\<open>await\<close>; which task goes on next, and how what it waits
  for ends, is the schedule's choice.
\<close>

section \<open>State\<close>

text \<open>
  \<^verbatim>\<open>State\<close>. Peer connections and data channels are the browser's, and numbers here. The channel
  \<^verbatim>\<open>peer_tx\<close> leads to the loop of \<^verbatim>\<open>initiate\<close>.
\<close>

record IntroState =
  i_node_id :: u64
  i_session_id :: u128
  i_peers :: "u64 \<rightharpoonup> nat"
  i_online :: "u64 set"

datatype IntroError =
    JsError
  | RustBox
  | AlreadyInitialized u64

definition State_new :: "u64 \<Rightarrow> u128 \<Rightarrow> IntroState" where
  "State_new node_id session_id =
     \<lparr>i_node_id = node_id, i_session_id = session_id, i_peers = Map.empty, i_online = {}\<rparr>"

definition insert_peer :: "IntroState \<Rightarrow> u64 \<Rightarrow> nat \<Rightarrow> IntroState" where
  "insert_peer st peer_id pc =
     st\<lparr>i_peers := (i_peers st)(peer_id \<mapsto> pc), i_online := insert peer_id (i_online st)\<rparr>"

type_synonym PeerInfo = "u64 \<times> nat \<times> nat"

text \<open>\<open>open\<close> tells whether the loop of \<^verbatim>\<open>initiate\<close> still receives.\<close>

definition send_peer ::
  "IntroState \<Rightarrow> bool \<Rightarrow> u64 \<Rightarrow> nat \<Rightarrow> (IntroState \<times> (IntroError + PeerInfo)) result" where
  "send_peer st open peer_id dc =
     (case i_peers st peer_id of
        Some p \<Rightarrow> Inr (st\<lparr>i_peers := (i_peers st)(peer_id := None)\<rparr>,
                       if open then Inr (peer_id, p, dc) else Inl RustBox)
      | None \<Rightarrow> Inl ExplicitPanic)"

section \<open>Commands to the introducer\<close>

definition offer_to :: "IntroState \<Rightarrow> u64 \<Rightarrow> string \<Rightarrow> Offer" where
  "offer_to st peer_id sdp_data =
     \<lparr>o_session_id = i_session_id st, o_node_id = i_node_id st, o_target_id = peer_id, o_sdp_data = sdp_data\<rparr>"

definition send_offer :: "IntroState \<Rightarrow> u64 \<Rightarrow> string \<Rightarrow> Command" where
  "send_offer st peer_id sdp_data = Offer (offer_to st peer_id sdp_data)"

definition send_answer :: "IntroState \<Rightarrow> u64 \<Rightarrow> string \<Rightarrow> Command" where
  "send_answer st peer_id answer_sdp = Answer (offer_to st peer_id answer_sdp)"

definition send_join_command :: "u64 \<Rightarrow> u128 \<Rightarrow> Command" where
  "send_join_command node_id session_id = Join \<lparr>j_node_id = node_id, j_session_id = session_id\<rparr>"

text \<open>The candidates that the browser finds for a connection go to its peer.\<close>

definition ice_candidate :: "IntroState \<Rightarrow> u64 \<Rightarrow> string \<Rightarrow> string option \<Rightarrow> Command" where
  "ice_candidate st peer_id candidate sdp_mid =
     IceCandidate \<lparr>c_session_id = i_session_id st, c_node_id = i_node_id st, c_target_id = peer_id,
                   c_candidate = candidate, c_sdp_mid = sdp_mid\<rparr>"

section \<open>Tasks\<close>

text \<open>
  Where a task waits: \<^verbatim>\<open>introduce\<close> for its local description and then for the peer's
  acknowledgement, \<^verbatim>\<open>handle_offer\<close> for the descriptions and then for the data channel,
  \<^verbatim>\<open>handle_answer\<close> and \<^verbatim>\<open>handle_ice_candidate\<close> for the browser.
\<close>

datatype intro_task =
    Describing u64 nat
  | Offering u64 nat string
  | Answering u64 nat
  | AwaitingChannel u64 nat
  | Applying

text \<open>How a stretch of a task ends: it waits again, or returns.\<close>

datatype stretch = Waits intro_task | Returns "IntroError + PeerInfo option"

text \<open>
  \<open>new_pc\<close> is \<^verbatim>\<open>RtcPeerConnection::new\<close>, with \<^const>\<open>None\<close> for an exception; \<open>ws_ok\<close> tells whether
  the web socket takes a command. Each stretch yields the state, the commands sent and its end.
\<close>

definition introduce :: "u64 \<Rightarrow> nat option \<Rightarrow> stretch" where
  "introduce peer_id new_pc =
     (case new_pc of None \<Rightarrow> Returns (Inl JsError) | Some pc \<Rightarrow> Waits (Describing peer_id pc))"

definition offer_stretch :: "IntroState \<Rightarrow> bool \<Rightarrow> u64 \<Rightarrow> nat \<Rightarrow> string \<Rightarrow> Command list \<times> stretch" where
  "offer_stretch st ws_ok peer_id pc sdp =
     (if ws_ok then ([send_offer st peer_id sdp], Waits (Offering peer_id pc sdp)) else ([], Returns (Inl JsError)))"

definition introduce_described ::
  "IntroState \<Rightarrow> bool \<Rightarrow> u64 \<Rightarrow> nat \<Rightarrow> string option \<Rightarrow> IntroState \<times> Command list \<times> stretch" where
  "introduce_described st ws_ok peer_id pc sdp =
     (case sdp of
        None \<Rightarrow> (st, [], Returns (Inl JsError))
      | Some sdp_data \<Rightarrow>
          let st = insert_peer st peer_id pc in (st, offer_stretch st ws_ok peer_id pc sdp_data))"

text \<open>\<open>ready\<close> is whether the channel's \<^verbatim>\<open>ready_state\<close> is \<^verbatim>\<open>Open\<close>.\<close>

definition introduce_done ::
  "IntroState \<Rightarrow> bool \<Rightarrow> u64 \<Rightarrow> nat \<Rightarrow> bool \<Rightarrow> (IntroState \<times> stretch) result" where
  "introduce_done st open peer_id dc ready =
     rbind (rassert ready AssertFailed) (\<lambda>_.
       rbind (send_peer st open peer_id dc) (\<lambda>(st, r). Inr (st, Returns (map_sum id Some r))))"

definition handle_offer :: "IntroState \<Rightarrow> Offer \<Rightarrow> nat option \<Rightarrow> IntroState \<times> stretch" where
  "handle_offer st offer new_pc =
     (let peer_id = o_node_id offer
      in case new_pc of
           None \<Rightarrow> (st, Returns (Inl JsError))
         | Some pc \<Rightarrow> (insert_peer st peer_id pc, Waits (Answering peer_id pc)))"

definition offer_described :: "IntroState \<Rightarrow> bool \<Rightarrow> u64 \<Rightarrow> nat \<Rightarrow> string option \<Rightarrow> Command list \<times> stretch" where
  "offer_described st ws_ok peer_id pc answer_sdp =
     (case answer_sdp of
        None \<Rightarrow> ([], Returns (Inl JsError))
      | Some sdp \<Rightarrow>
          if ws_ok then ([send_answer st peer_id sdp], Waits (AwaitingChannel peer_id pc))
          else ([], Returns (Inl JsError)))"

definition offer_done :: "IntroState \<Rightarrow> bool \<Rightarrow> u64 \<Rightarrow> nat \<Rightarrow> (IntroState \<times> stretch) result" where
  "offer_done st open peer_id dc =
     rbind (send_peer st open peer_id dc) (\<lambda>(st, r). Inr (st, Returns (map_sum id Some r)))"

definition handle_answer :: "IntroState \<Rightarrow> Offer \<Rightarrow> stretch" where
  "handle_answer st answer =
     (case i_peers st (o_node_id answer) of
        Some p \<Rightarrow> Waits Applying
      | None \<Rightarrow> Returns (Inl (AlreadyInitialized (o_node_id answer))))"

definition handle_ice_candidate :: "IntroState \<Rightarrow> IceCandidate \<Rightarrow> stretch" where
  "handle_ice_candidate st candidate =
     (case i_peers st (c_node_id candidate) of
        Some pc \<Rightarrow> Waits Applying
      | None \<Rightarrow> Returns (Inr None))"

text \<open>The peers that a session update makes the node introduce itself to.\<close>

definition to_introduce :: "IntroState \<Rightarrow> Session \<Rightarrow> u64 set" where
  "to_introduce st session = {p \<in> s_online session. i_node_id st < p \<and> p \<notin> i_online st}"

section \<open>The page\<close>

text \<open>
  \<open>tasks\<close> are the tasks that wait, by number; \<open>to_ws\<close> what was sent to the introducer. The loop of
  \<^verbatim>\<open>initiate\<close> receives from the channels \<open>peer_rx\<close> and \<open>errors_rx\<close>; for each peer it hands to its
  caller (\<open>met\<close>) it starts a task that waits until the peer's transport tells its end (\<open>done_rx\<close>).
  \<open>failed\<close> is the error that \<^verbatim>\<open>initiate\<close> returned, which its caller unwraps; \<open>panics\<close> are those of the
  tasks and callbacks. An introduction that returns with an error leaves behind the task that waits
  for its data channel; \<open>orphans\<close> are the peers of such tasks.
\<close>

record page =
  intro :: IntroState
  tasks :: "(nat \<times> intro_task) list"
  next_task :: nat
  to_ws :: "Command list"
  peer_rx :: "PeerInfo list"
  errors_rx :: "IntroError list"
  done_rx :: "u64 list"
  orphans :: "u64 list"
  met :: "PeerInfo list"
  failed :: "IntroError option"
  panics :: "panic list"

definition initiate :: "u64 \<Rightarrow> u128 \<Rightarrow> page" where
  "initiate node_id session_id =
     \<lparr>intro = State_new node_id session_id, tasks = [], next_task = 0,
      to_ws = [send_join_command node_id session_id], peer_rx = [], errors_rx = [], done_rx = [],
      orphans = [], met = [], failed = None, panics = []\<rparr>"

definition add_task :: "intro_task \<Rightarrow> page \<Rightarrow> page" where
  "add_task t pg = pg\<lparr>tasks := tasks pg @ [(next_task pg, t)], next_task := next_task pg + 1\<rparr>"

definition panic_task :: "panic \<Rightarrow> page \<Rightarrow> page" where
  "panic_task p pg = pg\<lparr>panics := panics pg @ [p]\<rparr>"

text \<open>
  The end of a stretch. A peer goes to the loop of \<^verbatim>\<open>initiate\<close>, and so do the errors of
  \<^verbatim>\<open>handle_message\<close>; once the loop has ended, sending an error panics. The errors of \<^verbatim>\<open>introduce\<close>
  are dropped (\<open>reported\<close> is false).
\<close>

definition settle :: "bool \<Rightarrow> stretch \<Rightarrow> page \<Rightarrow> page" where
  "settle reported r pg =
     (case r of
        Waits t \<Rightarrow> add_task t pg
      | Returns (Inr None) \<Rightarrow> pg
      | Returns (Inr (Some info)) \<Rightarrow> pg\<lparr>peer_rx := peer_rx pg @ [info]\<rparr>
      | Returns (Inl err) \<Rightarrow>
          if \<not> reported then pg
          else if failed pg = None then pg\<lparr>errors_rx := errors_rx pg @ [err]\<rparr>
          else panic_task UnwrapErr pg)"

definition settle_result :: "bool \<Rightarrow> (IntroState \<times> stretch) result \<Rightarrow> page \<Rightarrow> page" where
  "settle_result reported r pg =
     (case r of
        Inl p \<Rightarrow> panic_task p pg
      | Inr (st, e) \<Rightarrow> settle reported e (pg\<lparr>intro := st\<rparr>))"

text \<open>
  A message from the introducer: \<open>cmd\<close> is what deserializing makes of it, \<open>new_pc\<close> gives the
  connection for each peer.
\<close>

definition handle_message :: "(u64 \<Rightarrow> nat option) \<Rightarrow> Command option \<Rightarrow> page \<Rightarrow> page" where
  "handle_message new_pc cmd pg =
     (case cmd of
        None \<Rightarrow> settle True (Returns (Inl RustBox)) pg
      | Some (SessionStatus session) \<Rightarrow>
          foldl (\<lambda>pg p. settle False (introduce p (new_pc p)) pg) pg
            (sorted_list_of_set (to_introduce (intro pg) session))
      | Some (Offer offer) \<Rightarrow>
          settle_result True (Inr (handle_offer (intro pg) offer (new_pc (o_node_id offer)))) pg
      | Some (Answer answer) \<Rightarrow> settle True (handle_answer (intro pg) answer) pg
      | Some (IceCandidate candidate) \<Rightarrow> settle True (handle_ice_candidate (intro pg) candidate) pg
      | Some (Join _) \<Rightarrow> panic_task Unreachable pg)"

text \<open>
  How what a task waits for ends. A description may also panic, where the browser gives one that
  is no text (\<^verbatim>\<open>local_description\<close> and \<^verbatim>\<open>remote_description\<close> are in theory DataChannel).
\<close>

datatype wakeup =
    Described "string option result"
  | Retry
  | ChannelUp nat bool
  | Applied bool

text \<open>
  The task that waits for the data channel of \<open>p\<close> is left behind if the introduction returns here.
\<close>

definition leave_waiter :: "u64 \<Rightarrow> stretch \<Rightarrow> page \<Rightarrow> page" where
  "leave_waiter p r pg = (case r of Waits t \<Rightarrow> pg | Returns x \<Rightarrow> pg\<lparr>orphans := orphans pg @ [p]\<rparr>)"

definition wake :: "bool \<Rightarrow> intro_task \<Rightarrow> wakeup \<Rightarrow> page \<Rightarrow> page option" where
  "wake ws_ok t w pg =
     (let st = intro pg; open = (failed pg = None)
      in case (t, w) of
           (Describing p pc, Described (Inr sdp)) \<Rightarrow>
             let (st, out, r) = introduce_described st ws_ok p pc sdp;
                 pg = pg\<lparr>intro := st, to_ws := to_ws pg @ out\<rparr>
             in Some (settle False r (if sdp = None then pg else leave_waiter p r pg))
         | (Offering p pc sdp, Retry) \<Rightarrow>
             let (out, r) = offer_stretch st ws_ok p pc sdp
             in Some (settle False r (leave_waiter p r (pg\<lparr>to_ws := to_ws pg @ out\<rparr>)))
         | (Offering p pc sdp, ChannelUp dc ready) \<Rightarrow>
             Some (settle_result False (introduce_done st open p dc ready) pg)
         | (Answering p pc, Described (Inr sdp)) \<Rightarrow>
             let (out, r) = offer_described st ws_ok p pc sdp
             in Some (settle True r (leave_waiter p r (pg\<lparr>to_ws := to_ws pg @ out\<rparr>)))
         | (AwaitingChannel p pc, ChannelUp dc ready) \<Rightarrow>
             Some (settle_result True (offer_done st open p dc) pg)
         | (Applying, Applied ok) \<Rightarrow>
             Some (settle True (Returns (if ok then Inr None else Inl JsError)) pg)
         | (Describing p pc, Described (Inl e)) \<Rightarrow> Some (panic_task e pg)
         | (Answering p pc, Described (Inl e)) \<Rightarrow> Some (panic_task e pg)
         | _ \<Rightarrow> None)"

text \<open>
  The callback of a connection: candidates of the browser go to the peer, the end of the candidates
  is no message, and a web socket that takes no more panics.
\<close>

definition on_ice_candidate :: "bool \<Rightarrow> u64 \<Rightarrow> (string \<times> string option) option \<Rightarrow> page \<Rightarrow> page" where
  "on_ice_candidate ws_ok p found pg =
     (case found of
        None \<Rightarrow> pg
      | Some (candidate, sdp_mid) \<Rightarrow>
          if ws_ok then pg\<lparr>to_ws := to_ws pg @ [ice_candidate (intro pg) p candidate sdp_mid]\<rparr>
          else panic_task UnwrapErr pg)"

text \<open>
  The loop of \<^verbatim>\<open>initiate\<close>, which ends with the first error: it takes a peer, starts the task that waits
  for its end, and hands it to the caller, who may be gone (\<open>send_ok\<close>); or it takes an error.
\<close>

definition take_peer :: "bool \<Rightarrow> page \<Rightarrow> page" where
  "take_peer send_ok pg =
     (case peer_rx pg of
        [] \<Rightarrow> pg
      | info # rest \<Rightarrow>
          if failed pg \<noteq> None then pg
          else let pg = pg\<lparr>peer_rx := rest, done_rx := done_rx pg @ [fst info]\<rparr>
               in if send_ok then pg\<lparr>met := met pg @ [info]\<rparr> else pg\<lparr>failed := Some RustBox\<rparr>)"

definition take_error :: "page \<Rightarrow> page" where
  "take_error pg =
     (case errors_rx pg of
        [] \<Rightarrow> pg
      | err # rest \<Rightarrow> if failed pg \<noteq> None then pg else pg\<lparr>errors_rx := rest, failed := Some err\<rparr>)"

text \<open>
  The task that waits for the end of a transport: it is told, and the peer is no longer online, or
  the sender was dropped (\<open>told\<close> is false), which panics.
\<close>

definition transport_ended :: "u64 \<Rightarrow> bool \<Rightarrow> page \<Rightarrow> page" where
  "transport_ended p told pg =
     (if p \<notin> set (done_rx pg) then pg
      else let pg = pg\<lparr>done_rx := remove1 p (done_rx pg)\<rparr>
           in if told then pg\<lparr>intro := (intro pg)\<lparr>i_online := i_online (intro pg) - {p}\<rparr>\<rparr>
              else panic_task UnwrapErr pg)"

text \<open>A data channel that opens for an introduction that has returned: its task has nobody to tell.\<close>

definition late_channel :: "u64 \<Rightarrow> page \<Rightarrow> page" where
  "late_channel p pg =
     (if p \<in> set (orphans pg) then panic_task UnwrapErr (pg\<lparr>orphans := remove1 p (orphans pg)\<rparr>) else pg)"

text \<open>\<open>TextFrame\<close> is a message of the introducer that is not binary.\<close>

datatype page_action =
    Message "u64 \<Rightarrow> nat option" "Command option"
  | TextFrame
  | Wake nat bool wakeup
  | IceFound bool u64 "(string \<times> string option) option"
  | TakePeer bool
  | TakeError
  | TransportEnded u64 bool
  | LateChannel u64

definition page_step :: "page \<Rightarrow> page_action \<Rightarrow> page" where
  "page_step pg a =
     (case a of
        Message new_pc cmd \<Rightarrow> handle_message new_pc cmd pg
      | TextFrame \<Rightarrow> panic_task UnwrapErr pg
      | Wake k ws_ok w \<Rightarrow>
          (case map_of (tasks pg) k of
             None \<Rightarrow> pg
           | Some t \<Rightarrow>
               (case wake ws_ok t w (pg\<lparr>tasks := AList.delete k (tasks pg)\<rparr>) of None \<Rightarrow> pg | Some pg' \<Rightarrow> pg'))
      | IceFound ws_ok p found \<Rightarrow> on_ice_candidate ws_ok p found pg
      | TakePeer send_ok \<Rightarrow> take_peer send_ok pg
      | TakeError \<Rightarrow> take_error pg
      | TransportEnded p told \<Rightarrow> transport_ended p told pg
      | LateChannel p \<Rightarrow> late_channel p pg)"

definition page_run :: "page \<Rightarrow> page_action list \<Rightarrow> page" where
  "page_run pg as = foldl page_step pg as"

section \<open>Who introduces whom\<close>

lemma one_side_introduces:
  assumes "n \<noteq> m" and "n \<in> s_online session" and "m \<in> s_online session"
  shows "(m \<in> to_introduce (State_new n s) session) \<noteq> (n \<in> to_introduce (State_new m s) session)"
  using assms by (auto simp: to_introduce_def State_new_def)

end
