(* ===== verification/DataChannel.thy ===== *)
theory DataChannel
  imports Introduction
begin

text \<open>
  What the tasks of theory Introduction wait for (the rest of webrtc\_rpc/introduction.rs): the
  descriptions that the browser makes, and the acknowledgement with which the two ends of a new data
  channel learn that it works. A task of Introduction is woken with what the functions here return.
\<close>

section \<open>Descriptions\<close>

text \<open>
  The browser's promises are the arguments: \<open>created\<close> is what \<^verbatim>\<open>create_offer\<close> or \<^verbatim>\<open>create_answer\<close>
  resolves to, \<^const>\<open>None\<close> for an exception; \<open>sdp_of\<close> reads its property \<^verbatim>\<open>sdp\<close>, the inner
  \<^const>\<open>None\<close> for a value that is not a string; \<open>set_local\<close> and \<open>set_remote\<close> tell whether the
  connection takes a description. The result is the text, or \<^const>\<open>None\<close> for an error.
\<close>

definition read_sdp :: "('o \<Rightarrow> string option option) \<Rightarrow> 'o \<Rightarrow> string option result" where
  "read_sdp sdp_of d =
     (case sdp_of d of
        None \<Rightarrow> Inr None
      | Some None \<Rightarrow> Inl UnwrapNone
      | Some (Some sdp) \<Rightarrow> Inr (Some sdp))"

definition local_description ::
  "'o option \<Rightarrow> ('o \<Rightarrow> string option option) \<Rightarrow> (string \<Rightarrow> bool) \<Rightarrow> string option result" where
  "local_description created sdp_of set_local =
     (case created of
        None \<Rightarrow> Inr None
      | Some offer \<Rightarrow>
          rbind (read_sdp sdp_of offer) (\<lambda>x.
            Inr (case x of Some sdp_data \<Rightarrow> if set_local sdp_data then Some sdp_data else None | None \<Rightarrow> None)))"

definition remote_description ::
  "string \<Rightarrow> (string \<Rightarrow> bool) \<Rightarrow> (string \<Rightarrow> 'o option) \<Rightarrow> ('o \<Rightarrow> string option option) \<Rightarrow> (string \<Rightarrow> bool) \<Rightarrow>
   string option result" where
  "remote_description sdp_data set_remote create_answer sdp_of set_local =
     (if \<not> set_remote sdp_data then Inr None
      else case create_answer sdp_data of
             None \<Rightarrow> Inr None
           | Some answer \<Rightarrow>
               rbind (read_sdp sdp_of answer) (\<lambda>x.
                 Inr (case x of Some answer_sdp \<Rightarrow> if set_local answer_sdp then Some answer_sdp else None
                      | None \<Rightarrow> None)))"

text \<open>With texts for descriptions neither panics, and a text returned is one that the connection took.\<close>

lemma local_description_spec:
  assumes "\<And>d. sdp_of d \<noteq> Some None"
  shows "\<exists>x. local_description created sdp_of set_local = Inr x \<and>
    (\<forall>sdp. x = Some sdp \<longleftrightarrow> (\<exists>d. created = Some d \<and> sdp_of d = Some (Some sdp) \<and> set_local sdp))"
  using assms
  by (cases created) (auto simp: local_description_def read_sdp_def split: option.splits)

lemma remote_description_spec:
  assumes "\<And>d. sdp_of d \<noteq> Some None"
  shows "\<exists>x. remote_description sdp set_remote create sdp_of set_local = Inr x \<and>
    (\<forall>a. x = Some a \<longleftrightarrow> set_remote sdp \<and> (\<exists>d. create sdp = Some d \<and> sdp_of d = Some (Some a) \<and> set_local a))"
  using assms
  by (cases "create sdp") (auto simp: remote_description_def read_sdp_def split: option.splits)

section \<open>The acknowledgement\<close>

text \<open>
  A new channel between the browser that offered it and the one that answered. The answering side
  hears of it by an event of its connection (\<^verbatim>\<open>wait_for_data_channel\<close>) and sends the text \<^verbatim>\<open>ACK\<close> on
  it; the offering side waits for that text as its first message (\<^verbatim>\<open>wait_for_dc_initiated\<close>). A data
  channel is ordered and reliable: \<open>on_wire\<close> is what is under way to the offering side.
\<close>

datatype dc_message = TextMessage string | BinaryMessage string

definition ACK :: string where "ACK = ''ACK''"

text \<open>
  The offering side's \<^verbatim>\<open>onmessage\<close>: the one-shot closure that expects the acknowledgement, the same
  once it was called, none, or that of the transport.
\<close>

datatype onmessage = ExpectsAck | Called | NoCallback | TransportCallback

record new_channel =
  on_wire :: "dc_message list"
  on_message_cb :: onmessage
  ack_seen :: bool
  offer_side :: bool
  announced :: bool
  channel_sent :: bool
  answer_side :: bool
  lost_messages :: "dc_message list"
  to_transport :: "dc_message list"

text \<open>Both sides wait: each has set its callback before the description that starts the other went out.\<close>

definition channel_offered :: new_channel where
  "channel_offered = \<lparr>on_wire = [], on_message_cb = ExpectsAck, ack_seen = False, offer_side = False, announced = False,
     channel_sent = False, answer_side = False, lost_messages = [], to_transport = []\<rparr>"

text \<open>The callback of \<^verbatim>\<open>wait_for_data_channel\<close>; \<open>ready\<close> tells whether the channel is open.\<close>

definition on_data_channel :: "bool \<Rightarrow> new_channel \<Rightarrow> new_channel result" where
  "on_data_channel ready c =
     rbind (rassert ready UnwrapErr) (\<lambda>_.
       rbind (rassert ready AssertFailed) (\<lambda>_.
         Inr (c\<lparr>on_wire := on_wire c @ [TextMessage ACK], announced := True, channel_sent := True\<rparr>)))"

text \<open>The callback of \<^verbatim>\<open>wait_for_dc_initiated\<close>, on the first message; a second call is an exception.\<close>

definition on_first_message :: "dc_message \<Rightarrow> new_channel \<Rightarrow> new_channel result" where
  "on_first_message m c =
     (case m of
        TextMessage msg \<Rightarrow> if msg = ACK then Inr (c\<lparr>on_message_cb := Called, ack_seen := True\<rparr>) else Inl ExplicitPanic
      | BinaryMessage _ \<Rightarrow> Inl ExplicitPanic)"

definition wait_for_data_channel :: "new_channel \<Rightarrow> new_channel" where
  "wait_for_data_channel c = (if channel_sent c then c\<lparr>answer_side := True\<rparr> else c)"

definition wait_for_dc_initiated :: "new_channel \<Rightarrow> new_channel" where
  "wait_for_dc_initiated c =
     (if ack_seen c \<and> \<not> offer_side c then c\<lparr>offer_side := True, on_message_cb := NoCallback\<rparr> else c)"

text \<open>
  The browser announces the channel once; a message arrives; a task goes on; the offering side starts
  its transport; the answering side, once it has the channel, sends.
\<close>

datatype dc_action = Announce bool | Arrives | AnswerGoesOn | OfferGoesOn | StartTransport | PeerSends dc_message

fun dc_step :: "new_channel \<Rightarrow> dc_action \<Rightarrow> new_channel result" where
  "dc_step c (Announce ready) = (if announced c then Inr c else on_data_channel ready c)"
| "dc_step c Arrives =
     (case on_wire c of
        [] \<Rightarrow> Inr c
      | m # ms \<Rightarrow>
          let c = c\<lparr>on_wire := ms\<rparr>
          in case on_message_cb c of
               ExpectsAck \<Rightarrow> on_first_message m c
             | TransportCallback \<Rightarrow> Inr (c\<lparr>to_transport := to_transport c @ [m]\<rparr>)
             | _ \<Rightarrow> Inr (c\<lparr>lost_messages := lost_messages c @ [m]\<rparr>))"
| "dc_step c AnswerGoesOn = Inr (wait_for_data_channel c)"
| "dc_step c OfferGoesOn = Inr (wait_for_dc_initiated c)"
| "dc_step c StartTransport = Inr (if offer_side c then c\<lparr>on_message_cb := TransportCallback\<rparr> else c)"
| "dc_step c (PeerSends m) = Inr (if answer_side c then c\<lparr>on_wire := on_wire c @ [m]\<rparr> else c)"

text \<open>What the peer sent, in order, after its acknowledgement.\<close>

fun peer_sends :: "new_channel \<Rightarrow> dc_action list \<Rightarrow> dc_message list" where
  "peer_sends c [] = []"
| "peer_sends c (a # as) =
     (case a of PeerSends m \<Rightarrow> if answer_side c then [m] else [] | _ \<Rightarrow> []) @
     (case dc_step c a of Inr c' \<Rightarrow> peer_sends c' as | Inl _ \<Rightarrow> [])"

definition opened :: "dc_action \<Rightarrow> bool" where
  "opened a = (case a of Announce ready \<Rightarrow> ready | _ \<Rightarrow> True)"

text \<open>
  The invariant, with \<open>ms\<close> sent so far: the acknowledgement comes first, and what arrives after it is
  lost up to the start of the transport, and to_transport from then on.
\<close>

definition dc_ok :: "dc_message list \<Rightarrow> new_channel \<Rightarrow> bool" where
  "dc_ok ms c \<longleftrightarrow> channel_sent c = announced c \<and> (answer_side c \<longrightarrow> announced c) \<and>
     (case on_message_cb c of
        ExpectsAck \<Rightarrow> \<not> ack_seen c \<and> \<not> offer_side c \<and> lost_messages c = [] \<and> to_transport c = [] \<and>
          on_wire c = (if announced c then TextMessage ACK # ms else []) \<and> (announced c \<or> ms = [])
      | Called \<Rightarrow> ack_seen c \<and> announced c \<and> \<not> offer_side c \<and> to_transport c = [] \<and> ms = lost_messages c @ on_wire c
      | NoCallback \<Rightarrow> ack_seen c \<and> announced c \<and> offer_side c \<and> to_transport c = [] \<and> ms = lost_messages c @ on_wire c
      | TransportCallback \<Rightarrow> ack_seen c \<and> announced c \<and> offer_side c \<and> ms = lost_messages c @ to_transport c @ on_wire c)"

lemma dc_step_ok:
  assumes ok: "dc_ok ms c" and o: "opened a"
  shows "\<exists>c'. dc_step c a = Inr c' \<and>
    dc_ok (ms @ (case a of PeerSends m \<Rightarrow> if answer_side c then [m] else [] | _ \<Rightarrow> [])) c'"
proof (cases a)
  case (Announce ready)
  have "dc_step c a = Inr (if announced c then c
      else c\<lparr>on_wire := on_wire c @ [TextMessage ACK], announced := True, channel_sent := True\<rparr>)"
    using o by (simp add: Announce opened_def on_data_channel_def cong del: rbind_cong)
  with ok Announce show ?thesis by (cases "on_message_cb c") (auto simp: dc_ok_def)
next
  case Arrives
  with ok show ?thesis
    by (cases "on_message_cb c"; cases "on_wire c") (auto simp: dc_ok_def on_first_message_def Let_def split: if_splits)
next
  case AnswerGoesOn
  with ok show ?thesis by (cases "on_message_cb c") (auto simp: dc_ok_def wait_for_data_channel_def)
next
  case OfferGoesOn
  with ok show ?thesis by (cases "on_message_cb c") (auto simp: dc_ok_def wait_for_dc_initiated_def)
next
  case StartTransport
  with ok show ?thesis by (cases "on_message_cb c") (auto simp: dc_ok_def)
next
  case (PeerSends m)
  with ok show ?thesis by (cases "on_message_cb c") (auto simp: dc_ok_def)
qed

lemma dc_run_ok:
  "dc_ok ms c \<Longrightarrow> list_all opened as \<Longrightarrow> \<exists>c'. rfold dc_step c as = Inr c' \<and> dc_ok (ms @ peer_sends c as) c'"
proof (induction as arbitrary: ms c)
  case (Cons a as)
  then obtain c1 where c1: "dc_step c a = Inr c1"
    "dc_ok (ms @ (case a of PeerSends m \<Rightarrow> if answer_side c then [m] else [] | _ \<Rightarrow> [])) c1"
    using dc_step_ok [of ms c a] by auto
  from Cons.IH [OF c1(2)] Cons.prems(2) c1(1) show ?case by simp
qed simp

lemma channel_offered_ok: "dc_ok [] channel_offered"
  by (simp add: dc_ok_def channel_offered_def)

text \<open>
  No callback panics while channels are announced open, and the invariant holds of what the peer sent.
\<close>

lemma channel_run:
  assumes "list_all opened as"
  shows "\<exists>c. rfold dc_step channel_offered as = Inr c \<and> dc_ok (peer_sends channel_offered as) c"
  using dc_run_ok [OF channel_offered_ok assms] by simp

end
