(* ===== verification/StateMachine.thy ===== *)
theory StateMachine
  imports Leader
begin

text \<open>
  The replicated state machine of raft/mod.rs: the trait \<^verbatim>\<open>State\<close>, the task that applies committed
  commands and answers reads (\<^verbatim>\<open>Raft::handle_state_machine\<close>), and the instance for hash maps. The
  trait is a record of its operations, which the task takes as an argument.
\<close>

section \<open>The trait and its task\<close>

record ('s, 'cmd, 'note, 'key, 'item) State =
  default_state :: 's
  state_apply :: "'s \<Rightarrow> 'cmd \<Rightarrow> 's \<times> 'note"
  state_get :: "'s \<Rightarrow> 'key \<Rightarrow> 'item option"

text \<open>
  What the task's \<^verbatim>\<open>select!\<close> sees: a command, with the outcome of the \<^verbatim>\<open>try_send\<close> of its
  notification (an error says whether the channel is disconnected, and whether it is full), a read,
  or the end of one of the two channels.
\<close>

datatype ('cmd, 'key) sm_event =
    Command 'cmd "(bool \<times> bool) option"
  | CommandsClosed
  | Read 'key nat
  | ReadsClosed

datatype ('note, 'item) sm_effect =
    Notify 'note
  | Answer_read nat "'item option"

text \<open>One iteration of the loop: the next state (\<open>None\<close> when the task returns) and the effects.\<close>

definition state_machine_step ::
  "('s, 'cmd, 'note, 'key, 'item) State \<Rightarrow> 's \<Rightarrow> ('cmd, 'key) sm_event \<Rightarrow>
   ('s option \<times> ('note, 'item) sm_effect list) result" where
  "state_machine_step ops state ev =
     (case ev of
        Command cmd try_send \<Rightarrow>
          (let (state, update) = state_apply ops state cmd
           in case try_send of
                None \<Rightarrow> Inr (Some state, [Notify update])
              | Some (is_disconnected, is_full) \<Rightarrow>
                  if is_disconnected then Inr (None, [])
                  else if \<not> is_full then Inl ExplicitPanic
                  else Inr (Some state, []))
      | CommandsClosed \<Rightarrow> Inr (None, [])
      | Read k resp_tx \<Rightarrow> Inr (Some state, [Answer_read resp_tx (state_get ops state k)])
      | ReadsClosed \<Rightarrow> Inr (None, []))"

fun state_machine_loop ::
  "('s, 'cmd, 'note, 'key, 'item) State \<Rightarrow> 's \<Rightarrow> ('cmd, 'key) sm_event list \<Rightarrow>
   ('s option \<times> ('note, 'item) sm_effect list) result" where
  "state_machine_loop ops state [] = Inr (Some state, [])"
| "state_machine_loop ops state (ev # evs) =
     rbind (state_machine_step ops state ev) (\<lambda>(next, out).
       case next of
         None \<Rightarrow> Inr (None, out)
       | Some state \<Rightarrow> rbind (state_machine_loop ops state evs) (\<lambda>(next, out'). Inr (next, out @ out')))"

definition handle_state_machine ::
  "('s, 'cmd, 'note, 'key, 'item) State \<Rightarrow> ('cmd, 'key) sm_event list \<Rightarrow>
   ('s option \<times> ('note, 'item) sm_effect list) result" where
  "handle_state_machine ops evs = state_machine_loop ops (default_state ops) evs"

section \<open>Reads see the commands before them\<close>

definition commands :: "('cmd, 'key) sm_event list \<Rightarrow> 'cmd list" where
  "commands evs = List.map_filter (\<lambda>ev. case ev of Command cmd _ \<Rightarrow> Some cmd | _ \<Rightarrow> None) evs"

definition state_after :: "('s, 'cmd, 'note, 'key, 'item) State \<Rightarrow> 'cmd list \<Rightarrow> 's" where
  "state_after ops cmds = foldl (\<lambda>s cmd. fst (state_apply ops s cmd)) (default_state ops) cmds"

lemma commands_simps [simp]:
  "commands [] = []" "commands (Command c r # evs) = c # commands evs"
  "commands (Read k tx # evs) = commands evs" "commands (CommandsClosed # evs) = commands evs"
  "commands (ReadsClosed # evs) = commands evs" "commands (evs @ evs') = commands evs @ commands evs'"
  by (simp_all add: commands_def List.map_filter_def)

text \<open>While both channels are open and notifications are sent or dropped, the task goes on.\<close>

fun open_event :: "('cmd, 'key) sm_event \<Rightarrow> bool" where
  "open_event (Command cmd r) = (r = None \<or> r = Some (False, True))"
| "open_event (Read k tx) = True"
| "open_event _ = False"

lemma state_machine_loop_state:
  assumes "list_all open_event evs"
  shows "\<exists>out. state_machine_loop ops s evs = Inr (Some (foldl (\<lambda>s cmd. fst (state_apply ops s cmd)) s (commands evs)), out)"
  using assms
proof (induction evs arbitrary: s)
  case (Cons ev evs)
  obtain s' out where step: "state_machine_step ops s ev = Inr (Some s', out)"
    and s': "foldl (\<lambda>s cmd. fst (state_apply ops s cmd)) s (commands (ev # evs))
      = foldl (\<lambda>s cmd. fst (state_apply ops s cmd)) s' (commands evs)"
    using Cons.prems by (cases ev) (auto simp: state_machine_step_def case_prod_unfold Let_def)
  from Cons.IH [of s'] Cons.prems obtain out' where
    "state_machine_loop ops s' evs = Inr (Some (foldl (\<lambda>s cmd. fst (state_apply ops s cmd)) s' (commands evs)), out')"
    by auto
  with step s' show ?case by simp
qed simp

lemma state_machine_loop_append:
  assumes "state_machine_loop ops s evs = Inr (Some s', out)"
  shows "state_machine_loop ops s (evs @ evs') =
    rbind (state_machine_loop ops s' evs') (\<lambda>(next, out'). Inr (next, out @ out'))"
  using assms
proof (induction evs arbitrary: s out)
  case Nil
  then show ?case by (cases "state_machine_loop ops s' evs'") auto
next
  case (Cons ev evs)
  then obtain s1 o1 o2 where "state_machine_step ops s ev = Inr (Some s1, o1)"
    "state_machine_loop ops s1 evs = Inr (Some s', o2)" "out = o1 @ o2"
    by (auto simp: rbind_eq_Inr split: option.splits)
  with Cons.IH [of s1 o2] show ?case
    by (cases "state_machine_loop ops s' evs'") auto
qed

text \<open>A read is answered from the state that all commands before it have made.\<close>

lemma read_answered:
  assumes "list_all open_event evs"
  shows "\<exists>out. handle_state_machine ops (evs @ [Read k tx]) =
    Inr (Some (state_after ops (commands evs)),
         out @ [Answer_read tx (state_get ops (state_after ops (commands evs)) k)])"
proof -
  from state_machine_loop_state [OF assms, of ops "default_state ops"] obtain out where
    "state_machine_loop ops (default_state ops) evs = Inr (Some (state_after ops (commands evs)), out)"
    unfolding state_after_def by blast
  from state_machine_loop_append [OF this, of "[Read k tx]"] show ?thesis
    by (simp add: handle_state_machine_def state_machine_step_def)
qed

section \<open>Hash maps\<close>

datatype ('k, 'v) HashMapCommand = Set_key 'k 'v | Delete_key 'k

definition hash_map_apply :: "('k \<rightharpoonup> 'v) \<Rightarrow> ('k, 'v) HashMapCommand \<Rightarrow> ('k \<rightharpoonup> 'v) \<times> unit" where
  "hash_map_apply m cmd =
     (case cmd of
        Set_key k v \<Rightarrow> (m(k \<mapsto> v), ())
      | Delete_key k \<Rightarrow> (m(k := None), ()))"

definition hash_map_get :: "('k \<rightharpoonup> 'v) \<Rightarrow> 'k \<Rightarrow> 'v option" where
  "hash_map_get m k = m k"

definition hash_map_state :: "('k \<rightharpoonup> 'v, ('k, 'v) HashMapCommand, unit, 'k, 'v) State" where
  "hash_map_state = \<lparr>default_state = Map.empty, state_apply = hash_map_apply, state_get = hash_map_get\<rparr>"

text \<open>What a key holds after a list of commands: the last one about it decides.\<close>

fun last_write :: "('k, 'v) HashMapCommand list \<Rightarrow> 'k \<Rightarrow> 'v option \<Rightarrow> 'v option" where
  "last_write [] k old = old"
| "last_write (Set_key k' v # cmds) k old = last_write cmds k (if k' = k then Some v else old)"
| "last_write (Delete_key k' # cmds) k old = last_write cmds k (if k' = k then None else old)"

lemma hash_map_last_write: "state_after hash_map_state cmds k = last_write cmds k None"
proof -
  have "foldl (\<lambda>s cmd. fst (hash_map_apply s cmd)) m cmds k = last_write cmds k (m k)" for m
  proof (induction cmds arbitrary: m)
    case (Cons cmd cmds)
    then show ?case by (cases cmd) (auto simp: hash_map_apply_def)
  qed simp
  then show ?thesis by (simp add: state_after_def hash_map_state_def)
qed

text \<open>The same, looking back from the last command.\<close>

fun about_key :: "'k \<Rightarrow> ('k, 'v) HashMapCommand \<Rightarrow> bool" where
  "about_key k (Set_key k' v) = (k' = k)"
| "about_key k (Delete_key k') = (k' = k)"

fun written :: "('k, 'v) HashMapCommand \<Rightarrow> 'v option" where
  "written (Set_key k v) = Some v"
| "written (Delete_key k) = None"

lemma find_append: "List.find p (xs @ ys) = (case List.find p xs of None \<Rightarrow> List.find p ys | Some x \<Rightarrow> Some x)"
  by (induction xs) simp_all

lemma last_write_find:
  "last_write cmds k old = (case List.find (about_key k) (rev cmds) of None \<Rightarrow> old | Some cmd \<Rightarrow> written cmd)"
  by (induction cmds k old rule: last_write.induct) (auto simp: find_append split: option.splits)

text \<open>
  A replicated hash map returns for a key what the last command about it says: the value it set,
  or nothing if it deleted it or there is none.
\<close>

lemma hash_map_last_command:
  "state_get hash_map_state (foldl (\<lambda>s cmd. fst (state_apply hash_map_state s cmd)) (default_state hash_map_state) cmds) k
     = (case List.find (about_key k) (rev cmds) of Some (Set_key _ v) \<Rightarrow> Some v | _ \<Rightarrow> None)"
  using hash_map_last_write [of cmds k] unfolding last_write_find
  by (auto simp: state_after_def hash_map_state_def hash_map_get_def split: option.splits HashMapCommand.splits)

end
