(* ===== verification/Benchmark.thy ===== *)
theory Benchmark
  imports StateMachine
begin

text \<open>
  The benchmark application, benchmark.rs: its state machine, whose notifications are the commands
  themselves, the task that counts them, the task that issues them, and the page's component. The
  clock of the browser and the outcomes of the client's calls are inputs.
\<close>

section \<open>The state machine\<close>

datatype BenchMsg = BenchStart | BenchIter

definition bench_apply :: "unit \<Rightarrow> BenchMsg \<Rightarrow> unit \<times> BenchMsg" where
  "bench_apply s cmd = (s, cmd)"

definition bench_get :: "unit \<Rightarrow> unit \<Rightarrow> 'r option" where
  "bench_get s k = None"

definition bench_state :: "(unit, BenchMsg, BenchMsg, unit, 'r) State" where
  "bench_state = \<lparr>default_state = (), state_apply = bench_apply, state_get = bench_get\<rparr>"

section \<open>The notifications\<close>

record 'time BenchResult =
  br_start :: 'time
  br_end :: 'time
  br_iters :: usize

text \<open>
  \<^verbatim>\<open>run_update_notifier\<close> on the notifications it receives, each with what the clock shows then;
  \<open>start\<close> and \<open>iters\<close> are its local variables.
\<close>

fun update_notifier :: "'time \<Rightarrow> usize \<Rightarrow> (BenchMsg \<times> 'time) list \<Rightarrow> 'time BenchResult list" where
  "update_notifier start iters [] = []"
| "update_notifier start iters ((BenchStart, now) # msgs) = update_notifier now 0 msgs"
| "update_notifier start iters ((BenchIter, now) # msgs) =
     (let iters = iters + 1
      in if iters mod 50 = 0
         then \<lparr>br_start = start, br_end = now, br_iters = iters\<rparr> # update_notifier start iters msgs
         else update_notifier start iters msgs)"

text \<open>A result is reported at every fiftieth iteration, with its count and the time of the start.\<close>

lemma update_notifier_reports:
  assumes "unat iters + length ts < 2 ^ 32"
  shows "update_notifier start iters (map (Pair BenchIter) ts) =
    map (\<lambda>k. \<lparr>br_start = start, br_end = ts ! (k - unat iters - 1), br_iters = word_of_nat k\<rparr>)
      (filter (\<lambda>k. k mod 50 = 0) [Suc (unat iters) ..< Suc (unat iters + length ts)])"
  using assms
proof (induction ts arbitrary: iters)
  case (Cons t ts)
  have max: "iters \<noteq> - 1" using Cons.prems by (auto simp: unat_minus_1)
  have u: "unat (iters + 1) = Suc (unat iters)" by (rule unat_plus_one [OF max])
  have IH: "update_notifier start (iters + 1) (map (Pair BenchIter) ts) =
    map (\<lambda>k. \<lparr>br_start = start, br_end = ts ! (k - Suc (unat iters) - 1), br_iters = word_of_nat k\<rparr>)
      (filter (\<lambda>k. k mod 50 = 0) [Suc (Suc (unat iters)) ..< Suc (Suc (unat iters + length ts))])"
    using Cons.IH [of "iters + 1"] Cons.prems by (simp add: u del: upt_Suc)
  have shift: "ts ! (k - Suc (unat iters) - 1) = (t # ts) ! (k - unat iters - 1)"
    if "Suc (Suc (unat iters)) \<le> k" for k
  proof -
    from that have "k - unat iters - 1 = Suc (k - Suc (unat iters) - 1)" by simp
    then show ?thesis by simp
  qed
  have m: "(iters + 1) mod 50 = 0 \<longleftrightarrow> Suc (unat iters) mod 50 = 0"
    unfolding unat_eq_0 [symmetric] unat_mod_distrib by (simp add: u)
  have c: "[Suc (unat iters) ..< Suc (unat iters + length (t # ts))] =
      Suc (unat iters) # [Suc (Suc (unat iters)) ..< Suc (Suc (unat iters + length ts))]"
    by (simp add: upt_conv_Cons del: upt_Suc)
  have w: "(word_of_nat (Suc (unat iters)) :: usize) = iters + 1" by (simp flip: u)
  show ?case unfolding c using IH m w shift
    by (auto simp: Let_def simp del: upt_Suc of_nat_Suc)
qed simp

section \<open>The benchmark run\<close>

text \<open>
  \<^verbatim>\<open>run_benchmark\<close>: the commands it sends. \<open>started\<close> tells whether the first call succeeded;
  \<open>toggles\<close> whether each look at the toggle channel finds it signalled or closed.
\<close>

definition run_benchmark :: "bool \<Rightarrow> bool list \<Rightarrow> BenchMsg list" where
  "run_benchmark started toggles =
     BenchStart # (if started then map (\<lambda>_. BenchIter) (takeWhile (\<lambda>toggled. \<not> toggled) toggles) else [])"

text \<open>
  \<^verbatim>\<open>run_benchmarker\<close>: a run of the benchmark for every signal that it finds between two runs.
\<close>

definition run_benchmarker :: "(bool \<times> bool list) list \<Rightarrow> BenchMsg list" where
  "run_benchmarker runs = concat (map (\<lambda>(started, toggles). run_benchmark started toggles) runs)"

section \<open>The page\<close>

datatype BenchState = Stopped | Running

datatype 'time BenchPageMsg =
    ToggleBenchmark
  | BenchResultMsg "'time BenchResult"
  | DumpState
  | StateDumped RaftStateDump

record 'time BenchModel =
  bm_state :: BenchState
  bm_result :: "'time BenchResult option"
  bm_dump :: "RaftStateDump option"

datatype bench_effect = SendToggle | RequestDump

definition bench_create :: "'time BenchModel" where
  "bench_create = \<lparr>bm_state = Stopped, bm_result = None, bm_dump = None\<rparr>"

text \<open>The last component asks for a redraw.\<close>

definition bench_update :: "'time BenchModel \<Rightarrow> 'time BenchPageMsg \<Rightarrow> 'time BenchModel \<times> bench_effect list \<times> bool" where
  "bench_update m msg =
     (case msg of
        ToggleBenchmark \<Rightarrow>
          (m\<lparr>bm_state := (case bm_state m of Running \<Rightarrow> Stopped | Stopped \<Rightarrow> Running)\<rparr>, [SendToggle], True)
      | BenchResultMsg result \<Rightarrow> (m\<lparr>bm_result := Some result\<rparr>, [], True)
      | DumpState \<Rightarrow> (m, [RequestDump], False)
      | StateDumped dump \<Rightarrow> (m\<lparr>bm_dump := Some dump\<rparr>, [], True))"

fun bench_updates :: "'time BenchModel \<Rightarrow> 'time BenchPageMsg list \<Rightarrow> 'time BenchModel \<times> bench_effect list" where
  "bench_updates m [] = (m, [])"
| "bench_updates m (msg # msgs) =
     (let (m', out, _) = bench_update m msg; (m'', out') = bench_updates m' msgs in (m'', out @ out'))"

text \<open>The page shows a running benchmark after an odd number of toggles sent to the task.\<close>

lemma bench_toggles:
  "bench_updates m msgs = (m', out) \<Longrightarrow>
   (bm_state m' = Running) = ((bm_state m = Running) \<noteq> odd (length (filter (\<lambda>e. e = SendToggle) out)))"
proof (induction msgs arbitrary: m out)
  case (Cons msg msgs)
  obtain m1 o1 r where u: "bench_update m msg = (m1, o1, r)" using prod_cases3 by blast
  obtain o2 where i: "bench_updates m1 msgs = (m', o2)" and out: "out = o1 @ o2"
    using Cons.prems by (auto simp: u split: prod.splits)
  have "(bm_state m1 = Running) = ((bm_state m = Running) \<noteq> odd (length (filter (\<lambda>e. e = SendToggle) o1)))"
    using u by (cases msg) (auto simp: bench_update_def split: BenchState.splits)
  with Cons.IH [OF i] out show ?case by auto
qed simp

end
