(* ===== verification/Rpc.thy ===== *)
theory Rpc
  imports Steps
begin

text \<open>
  The ends of an RPC and of a client's request: the server side of a data channel
  (webrtc_rpc/transport.rs), the server of Raft's RPCs (raft/rpc_server.rs) and the client of an
  application (raft/client.rs). The request manager on the other side is in theory Transport.
\<close>

section \<open>The server of a data channel\<close>

text \<open>
  \<^verbatim>\<open>set_onmessage_callback\<close>: what a message from the data channel leads to. \<open>decode_message\<close> is
  \<^verbatim>\<open>bincode::deserialize\<close>, whose failure is unwrapped.
\<close>

datatype ('req, 'resp) message_task =
    AskServer usize 'req
  | ToClient "('req, 'resp) Message"

definition on_message ::
  "('bytes \<Rightarrow> ('req, 'resp) Message option) \<Rightarrow> 'bytes \<Rightarrow> ('req, 'resp) message_task result" where
  "on_message decode_message bytes =
     (case decode_message bytes of
        None \<Rightarrow> Inl UnwrapErr
      | Some (Request idx req) \<Rightarrow> Inr (AskServer idx req)
      | Some (Response idx resp) \<Rightarrow> Inr (ToClient (Response idx resp)))"

text \<open>
  The task of a request: it is sent to the serving loop, whose answer goes back under the request's
  index. \<open>queued\<close> is false if the loop has gone; \<open>answer\<close> is \<open>None\<close> if it dropped the request.
\<close>

definition answer_request ::
  "usize \<Rightarrow> bool \<Rightarrow> (TransportError + 'resp) option \<Rightarrow> ('req, 'resp) Message list" where
  "answer_request idx queued answer =
     (if \<not> queued then []
      else case answer of
             Some resp \<Rightarrow> [Response idx resp]
           | None \<Rightarrow> [])"

text \<open>
  \<^verbatim>\<open>Server::serve\<close>: one request after the other. For each there is the handler's outcome and
  whether the response channel still takes it; the loop ends at the first that does not.
\<close>

fun serve_requests ::
  "('req \<Rightarrow> (TransportError + 'resp) result) \<Rightarrow> ('req \<times> bool) list \<Rightarrow> (TransportError + 'resp) list result" where
  "serve_requests handler [] = Inr []"
| "serve_requests handler ((req, taken) # reqs) =
     rbind (handler req) (\<lambda>resp.
       if taken then rbind (serve_requests handler reqs) (\<lambda>resps. Inr (resp # resps)) else Inr [])"

lemma serve_requests_spec:
  assumes "\<And>req. req \<in> fst ` set reqs \<Longrightarrow> handler req = Inr (f req)"
  shows "serve_requests handler reqs = Inr (map (f \<circ> fst) (takeWhile snd reqs))"
  using assms by (induction handler reqs rule: serve_requests.induct) auto

section \<open>The server of Raft's RPCs\<close>

text \<open>
  \<^verbatim>\<open>RpcServer::handle\<close>: \<open>queued\<close> is false if the worker's channel is closed, which is fatal;
  \<open>answer\<close> is \<open>None\<close> if the worker dropped the request.
\<close>

definition rpc_server_handle :: "bool \<Rightarrow> (TransportError + 'resp) option \<Rightarrow> (TransportError + 'resp) result" where
  "rpc_server_handle queued answer =
     (if \<not> queued then Inl UnwrapErr
      else Inr (case answer of
                  Some resp \<Rightarrow> resp
                | None \<Rightarrow> Inl TransportUnavailable))"

section \<open>The application's client\<close>

text \<open>How the race between the worker's answer and the timer ends.\<close>

datatype 'resp client_race =
    Replied "ClientError + 'resp"
  | Cancelled
  | TimerFired

text \<open>\<open>channel req\<close> is how the request fares: \<open>None\<close> if it cannot be sent.\<close>

definition do_client_request ::
  "('cmd ClientRequest \<Rightarrow> 'cmd ClientResponse client_race option) \<Rightarrow> 'cmd ClientRequest \<Rightarrow> 'cmd ClientResult" where
  "do_client_request channel req =
     (case channel req of
        None \<Rightarrow> Inl Unavailable
      | Some (Replied (Inr resp)) \<Rightarrow> Inr resp
      | Some (Replied (Inl err)) \<Rightarrow> Inl err
      | Some Cancelled \<Rightarrow> Inl Unavailable
      | Some TimerFired \<Rightarrow> Inl Timeout)"

definition client_send ::
  "('cmd ClientRequest \<Rightarrow> 'cmd ClientResponse client_race option) \<Rightarrow> 'cmd \<Rightarrow> ClientError + unit" where
  "client_send channel val = map_sum id (\<lambda>_. ()) (do_client_request channel (Apply val))"

definition client_debug ::
  "('cmd ClientRequest \<Rightarrow> 'cmd ClientResponse client_race option) \<Rightarrow> (ClientError + RaftStateDump) result" where
  "client_debug channel =
     (case do_client_request channel Debug of
        Inr (DebugDump debug) \<Rightarrow> Inr (Inr debug)
      | Inl err \<Rightarrow> Inr (Inl err)
      | _ \<Rightarrow> Inl Unreachable)"

text \<open>\<open>answer\<close> is \<open>None\<close> if the state machine's task dropped the read.\<close>

definition client_get :: "bool \<Rightarrow> 'item option option \<Rightarrow> ClientError + 'item option" where
  "client_get queued answer =
     (if \<not> queued then Inl Unavailable
      else case answer of
             Some item \<Rightarrow> Inr item
           | None \<Rightarrow> Inl Unavailable)"

section \<open>The debug request\<close>

text \<open>The name of a node's state in its dump, the \<^verbatim>\<open>Debug\<close> rendering of the role.\<close>

fun role_name :: "RaftWorkerState \<Rightarrow> string" where
  "role_name (RaftWorkerState.Follower w) = ''Follower''"
| "role_name (RaftWorkerState.Candidate w v) = ''Candidate''"
| "role_name (RaftWorkerState.Leader w l) = debug_leader l"

lemma debug_answered:
  assumes "worker_step env st (ClientEvent Debug tx) = Inr (st', out)"
  obtains rest where
    "out = ClientReply (ClientTx tx) (Inr (DebugDump (state_dump (role_name st) (inner_of st)))) # rest"
proof (cases st)
  case (Follower w)
  with assms that show ?thesis
    by (auto simp: worker_step_def follower_step_def follower_handle_client_def handle_debug_def after_eq_Inr)
next
  case (Candidate w v)
  with assms that show ?thesis
    by (auto simp: worker_step_def candidate_step_def candidate_handle_client_def handle_debug_def after_eq_Inr)
next
  case (Leader w l)
  with assms that show ?thesis
    by (auto simp: worker_step_def leader_step_def handle_client_request_def handle_debug_def after_eq_Inr)
qed

text \<open>
  The channel to a worker, for a request that it handles next: the answer is the first reply on the
  request's own channel; if there is none yet, the race is open and \<open>later\<close> decides it; if the
  worker dies, the channel is dropped.
\<close>

definition first_reply :: "nat \<Rightarrow> 'cmd effect list \<Rightarrow> 'cmd ClientResult option" where
  "first_reply tx out = map_option (\<lambda>e. case e of ClientReply rt res \<Rightarrow> res | _ \<Rightarrow> undefined)
     (List.find (\<lambda>e. case e of ClientReply rt res \<Rightarrow> rt = ClientTx tx | _ \<Rightarrow> False) out)"

definition worker_channel ::
  "'cmd env \<Rightarrow> RaftWorkerState \<Rightarrow> nat \<Rightarrow> 'cmd ClientResponse client_race \<Rightarrow> 'cmd ClientRequest \<Rightarrow>
   'cmd ClientResponse client_race option" where
  "worker_channel env st tx later req =
     Some (case worker_step env st (ClientEvent req tx) of
             Inl _ \<Rightarrow> Cancelled
           | Inr (st', out) \<Rightarrow> (case first_reply tx out of Some res \<Rightarrow> Replied res | None \<Rightarrow> later))"

lemma debug_total:
  "client_debug (worker_channel env st tx later) =
     Inr (case worker_step env st (ClientEvent Debug tx) of
            Inl _ \<Rightarrow> Inl Unavailable
          | Inr _ \<Rightarrow> Inr (state_dump (role_name st) (inner_of st)))"
proof (cases "worker_step env st (ClientEvent Debug tx)")
  case (Inr r)
  obtain st' out where r: "r = (st', out)" by force
  from debug_answered [OF Inr [unfolded r]] obtain rest where
    "out = ClientReply (ClientTx tx) (Inr (DebugDump (state_dump (role_name st) (inner_of st)))) # rest" .
  then show ?thesis by (simp add: client_debug_def do_client_request_def worker_channel_def Inr r first_reply_def)
qed (simp add: client_debug_def do_client_request_def worker_channel_def)

section \<open>A call's round trip\<close>

text \<open>Events at the request manager that leave one ticket alone.\<close>

fun leaves :: "usize \<Rightarrow> ('req, 'resp, 'tx) manager_event \<Rightarrow> bool" where
  "leaves idx (GotRequest req tx dc) = True"
| "leaves idx (GotResponse (Response i resp)) = (i \<noteq> idx)"
| "leaves idx (GotResponse (Request i req)) = True"
| "leaves idx (GotTimeout i) = (i \<noteq> idx)"
| "leaves idx ChannelClosed = False"

definition holds :: "usize \<Rightarrow> 'tx \<Rightarrow> 'tx RequestManager \<Rightarrow> bool" where
  "holds idx tx m \<longleftrightarrow> ring_ok (in_flight m) \<and> contents (in_flight m) idx = Some tx"

lemma remove_leaves:
  assumes "holds idx tx m" and "i \<noteq> idx"
  obtains b where "remove (in_flight m) i = Inr (contents (in_flight m) i, b)" "holds idx tx (m\<lparr>in_flight := b\<rparr>)"
    "next_idx b = next_idx (in_flight m)"
proof -
  from assms(1) have ok: "ring_ok (in_flight m)" by (simp add: holds_def)
  from ring.take_spec [OF ok, of i] obtain b where b: "remove (in_flight m) i = Inr (contents (in_flight m) i, b)"
    "ring_ok b" "contents b = (contents (in_flight m))(i := None)" by blast
  with assms that [OF b(1)] remove_next_idx [OF b(1)] show ?thesis by (simp add: holds_def)
qed

lemma add_leaves:
  assumes "holds idx tx m" and "next_idx (in_flight m) \<noteq> - 1"
  shows "\<exists>r b. add (in_flight m) tx' = Inr (r, b) \<and> holds idx tx (m\<lparr>in_flight := b\<rparr>)
    \<and> (\<forall>i. r = Inr i \<longrightarrow> i \<noteq> idx \<and> contents b i = Some tx') \<and> (\<forall>e. r = Inl e \<longrightarrow> b = in_flight m)"
proof -
  from assms(1) have ok: "ring_ok (in_flight m)" by (simp add: holds_def)
  from ring.put_spec [OF ok, of tx'] assms show ?thesis
    by (auto simp: holds_def tickets_left_def)
qed

lemma manager_step_leaves:
  assumes "holds idx tx m" and "leaves idx ev" and "requests_of [ev] \<noteq> [] \<Longrightarrow> next_idx (in_flight m) \<noteq> - 1"
  shows "\<exists>m' out. manager_step m ev = Inr (m', out) \<and> holds idx tx m'
    \<and> (next_idx (in_flight m') = next_idx (in_flight m) \<or>
       requests_of [ev] \<noteq> [] \<and> next_idx (in_flight m') = next_idx (in_flight m) + 1)"
proof (cases ev)
  case (GotRequest req tx' dc)
  with add_leaves [OF assms(1), of tx'] assms(3) obtain r b where a: "add (in_flight m) tx' = Inr (r, b)"
    and h: "holds idx tx (m\<lparr>in_flight := b\<rparr>)" and new: "\<And>i. r = Inr i \<Longrightarrow> i \<noteq> idx \<and> contents b i = Some tx'"
    and old: "\<And>e. r = Inl e \<Longrightarrow> b = in_flight m" by auto
  show ?thesis
  proof (cases r)
    case (Inl e)
    with a h old GotRequest assms(1) show ?thesis
      by (cases e) (auto simp: manager_step_def handle_request_def)
  next
    case (Inr i)
    have n: "next_idx b = next_idx (in_flight m) + 1" using add_next_idx [OF a] Inr by simp
    from remove_leaves [OF h, of i] new [OF Inr] obtain b' where
      "remove b i = Inr (Some tx', b')" "holds idx tx (m\<lparr>in_flight := b'\<rparr>)" "next_idx b' = next_idx b"
      by auto
    with a h n Inr GotRequest show ?thesis
      by (cases dc) (auto simp: manager_step_def handle_request_def Let_def)
  qed
next
  case (GotResponse msg)
  show ?thesis
  proof (cases msg)
    case (Response i resp)
    with assms(2) GotResponse have "i \<noteq> idx" by simp
    from remove_leaves [OF assms(1) this] obtain b where
      "remove (in_flight m) i = Inr (contents (in_flight m) i, b)" "holds idx tx (m\<lparr>in_flight := b\<rparr>)"
      "next_idx b = next_idx (in_flight m)" .
    then show ?thesis using Response GotResponse
      by (auto simp: manager_step_def handle_response_def split: option.splits)
  qed (use assms GotResponse in \<open>auto simp: manager_step_def handle_response_def\<close>)
next
  case (GotTimeout i)
  with assms(2) have "i \<noteq> idx" by simp
  from remove_leaves [OF assms(1) this] obtain b where
    "remove (in_flight m) i = Inr (contents (in_flight m) i, b)" "holds idx tx (m\<lparr>in_flight := b\<rparr>)"
    "next_idx b = next_idx (in_flight m)" .
  then show ?thesis using GotTimeout
    by (auto simp: manager_step_def handle_timeout_def split: option.splits)
qed (use assms in simp)

lemma manager_run_leaves:
  assumes "holds idx tx m" and "list_all (leaves idx) evs"
    and "unat (next_idx (in_flight m)) + length (requests_of evs) < 2 ^ 32"
  shows "\<exists>m' out. manager_run m evs = Inr (m', out) \<and> holds idx tx m'"
  using assms
proof (induction evs arbitrary: m)
  case (Cons ev evs)
  have split: "requests_of (ev # evs) = requests_of [ev] @ requests_of evs" by (cases ev) simp_all
  have len: "requests_of [ev] \<noteq> [] \<Longrightarrow> length (requests_of [ev]) = 1" by (cases ev) simp_all
  have max: "next_idx (in_flight m) \<noteq> - 1" if "requests_of [ev] \<noteq> []"
    using that Cons.prems(3) len by (auto simp: split unat_minus_1)
  from manager_step_leaves [OF Cons.prems(1), of ev] Cons.prems(2) max obtain m1 o1 where
    s: "manager_step m ev = Inr (m1, o1)" "holds idx tx m1" and
    n: "next_idx (in_flight m1) = next_idx (in_flight m) \<or>
       requests_of [ev] \<noteq> [] \<and> next_idx (in_flight m1) = next_idx (in_flight m) + 1" by auto
  have "unat (next_idx (in_flight m1)) + length (requests_of evs) < 2 ^ 32"
    using n Cons.prems(3) len max unat_plus_one [of "next_idx (in_flight m)"] by (auto simp: split)
  from Cons.IH [OF s(2) _ this] Cons.prems(2) obtain m2 o2 where "manager_run m1 evs = Inr (m2, o2)"
    "holds idx tx m2" by auto
  moreover have "ev \<noteq> ChannelClosed" using Cons.prems(2) by auto
  ultimately show ?case using s by simp
qed simp

lemma response_delivered:
  assumes "holds idx tx m"
  shows "\<exists>m'. handle_response m (Response idx resp) = Inr (m', [Reply tx resp])"
proof -
  from assms have "ring_ok (in_flight m)" "contents (in_flight m) idx = Some tx" by (simp_all add: holds_def)
  with ring.take_spec [of "in_flight m" idx] show ?thesis by (auto simp: handle_response_def)
qed

end
