(* ===== verification/Todo.thy ===== *)
theory Todo
  imports StateMachine
begin

text \<open>
  The todo list that the cluster replicates (todo\_state.rs), and how its page sends commands and
  shows the state (todo.rs). An entry is addressed by its position among the entries that the
  filter lets through, as the page numbers them.
\<close>

section \<open>State\<close>

text \<open>A string is the list of its code points; a \<open>char\<close> is one of the first 256.\<close>

record Entry =
  description :: string
  completed :: bool
  editing :: bool

datatype Filter = FilterAll | FilterActive | FilterCompleted

record TodoState =
  entries :: "Entry list"
  filter_by :: Filter
  input_value :: string
  edit_value :: string

datatype TodoMsg =
    AddEntry
  | Edit usize
  | Update string
  | UpdateEdit string
  | Remove usize
  | SetFilter Filter
  | ToggleAll
  | ToggleEdit usize
  | Toggle usize
  | ClearCompleted

fun fits_filter :: "Filter \<Rightarrow> Entry \<Rightarrow> bool" where
  "fits_filter FilterAll e = True"
| "fits_filter FilterActive e = (\<not> completed e)"
| "fits_filter FilterCompleted e = completed e"

fun as_href :: "Filter \<Rightarrow> string" where
  "as_href FilterAll = ''#/''"
| "as_href FilterActive = ''#/active''"
| "as_href FilterCompleted = ''#/completed''"

definition todo_default :: TodoState where
  "todo_default = \<lparr>entries = [], filter_by = FilterAll, input_value = [], edit_value = []\<rparr>"

abbreviation fitting :: "TodoState \<Rightarrow> Entry \<Rightarrow> bool" where
  "fitting s \<equiv> fits_filter (filter_by s)"

text \<open>\<^verbatim>\<open>str::trim\<close>: the code points with the Unicode property \<^verbatim>\<open>White_Space\<close> at both ends go.\<close>

definition is_whitespace :: "char \<Rightarrow> bool" where
  "is_whitespace c \<longleftrightarrow> of_char c \<in> {9 ..< 14} \<union> {32, 133, 160 :: nat}"

definition trim :: "string \<Rightarrow> string" where
  "trim s = rev (dropWhile is_whitespace (rev (dropWhile is_whitespace s)))"

section \<open>Operations\<close>

definition total :: "TodoState \<Rightarrow> nat" where
  "total s = length (entries s)"

definition total_completed :: "TodoState \<Rightarrow> nat" where
  "total_completed s = length (filter (fits_filter FilterCompleted) (entries s))"

definition is_all_completed :: "TodoState \<Rightarrow> bool" where
  "is_all_completed s =
     (let shown = filter (fitting s) (entries s)
      in if shown = [] then False else list_all completed shown)"

definition clear_completed :: "TodoState \<Rightarrow> TodoState" where
  "clear_completed s = s\<lparr>entries := filter (fits_filter FilterActive) (entries s)\<rparr>"

text \<open>\<^verbatim>\<open>iter_mut().filter(p).nth(n).unwrap()\<close>, and a change of what it yields.\<close>

fun change_nth :: "('a \<Rightarrow> bool) \<Rightarrow> nat \<Rightarrow> ('a \<Rightarrow> 'a) \<Rightarrow> 'a list \<Rightarrow> 'a list result" where
  "change_nth p n f [] = Inl UnwrapNone"
| "change_nth p n f (x # xs) =
     (if p x \<and> n = 0 then Inr (f x # xs)
      else rbind (change_nth p (if p x then n - 1 else n) f xs) (\<lambda>ys. Inr (x # ys)))"

definition change_shown :: "TodoState \<Rightarrow> usize \<Rightarrow> (Entry \<Rightarrow> Entry) \<Rightarrow> TodoState result" where
  "change_shown s idx f =
     rbind (change_nth (fitting s) (unat idx) f (entries s)) (\<lambda>es. Inr (s\<lparr>entries := es\<rparr>))"

definition toggle :: "TodoState \<Rightarrow> usize \<Rightarrow> TodoState result" where
  "toggle s idx = change_shown s idx (\<lambda>e. e\<lparr>completed := \<not> completed e\<rparr>)"

definition toggle_all :: "TodoState \<Rightarrow> bool \<Rightarrow> TodoState" where
  "toggle_all s value =
     s\<lparr>entries := map (\<lambda>e. if fitting s e then e\<lparr>completed := value\<rparr> else e) (entries s)\<rparr>"

definition toggle_edit :: "TodoState \<Rightarrow> usize \<Rightarrow> TodoState result" where
  "toggle_edit s idx = change_shown s idx (\<lambda>e. e\<lparr>editing := \<not> editing e\<rparr>)"

definition clear_all_edit :: "TodoState \<Rightarrow> TodoState" where
  "clear_all_edit s = s\<lparr>entries := map (\<lambda>e. e\<lparr>editing := False\<rparr>) (entries s)\<rparr>"

definition remove_entry :: "TodoState \<Rightarrow> usize \<Rightarrow> TodoState result" where
  "remove_entry s idx =
     (let shown = filter (\<lambda>(_, e). fitting s e) (enumerate 0 (entries s))
      in if length shown \<le> unat idx then Inl UnwrapNone
         else let i = fst (shown ! unat idx)
              in Inr (s\<lparr>entries := take i (entries s) @ drop (Suc i) (entries s)\<rparr>))"

definition complete_edit :: "TodoState \<Rightarrow> usize \<Rightarrow> string \<Rightarrow> TodoState result" where
  "complete_edit s idx val =
     (if val = [] then remove_entry s idx
      else change_shown s idx (\<lambda>e. e\<lparr>description := val, editing := \<not> editing e\<rparr>))"

definition todo_apply :: "TodoState \<Rightarrow> TodoMsg \<Rightarrow> TodoState result" where
  "todo_apply s cmd =
     (case cmd of
        AddEntry \<Rightarrow>
          let d = trim (input_value s);
              s = (if d = [] then s
                   else s\<lparr>entries := entries s @ [\<lparr>description = d, completed = False, editing = False\<rparr>]\<rparr>)
          in Inr (s\<lparr>input_value := []\<rparr>)
      | Edit idx \<Rightarrow>
          rbind (complete_edit s idx (trim (edit_value s))) (\<lambda>s. Inr (s\<lparr>edit_value := []\<rparr>))
      | Update val \<Rightarrow> Inr (s\<lparr>input_value := val\<rparr>)
      | UpdateEdit val \<Rightarrow> Inr (s\<lparr>edit_value := val\<rparr>)
      | Remove idx \<Rightarrow> remove_entry s idx
      | SetFilter f \<Rightarrow> Inr (s\<lparr>filter_by := f\<rparr>)
      | ToggleEdit idx \<Rightarrow>
          if length (entries s) \<le> unat idx then Inl IndexOutOfBounds
          else let s = s\<lparr>edit_value := description (entries s ! unat idx)\<rparr>
               in toggle_edit (clear_all_edit s) idx
      | ToggleAll \<Rightarrow>
          let status = \<not> is_all_completed s
          in Inr (toggle_all s status)
      | Toggle idx \<Rightarrow> toggle s idx
      | ClearCompleted \<Rightarrow> Inr (clear_completed s))"

definition todo_get :: "TodoState \<Rightarrow> TodoState option" where
  "todo_get s = Some s"

text \<open>
  As a replicated state: a panic ends the state machine, so that a dead state stays dead. There is
  nothing to notify of, and one key.
\<close>

definition todo_state :: "(TodoState result, TodoMsg, unit, unit, TodoState) State" where
  "todo_state =
     \<lparr> default_state = Inr todo_default,
       state_apply = (\<lambda>s cmd. (rbind s (\<lambda>s. todo_apply s cmd), ())),
       state_get = (\<lambda>s _. case s of Inl _ \<Rightarrow> None | Inr s \<Rightarrow> todo_get s) \<rparr>"

section \<open>Addressing by position\<close>

text \<open>The positions in the list that the page shows, in order.\<close>

definition shown_at :: "TodoState \<Rightarrow> nat list" where
  "shown_at s = filter (\<lambda>i. fitting s (entries s ! i)) [0 ..< length (entries s)]"

lemma filter_upt_Cons:
  "filter P [0 ..< Suc n] = (if P 0 then [0] else []) @ map Suc (filter (P \<circ> Suc) [0 ..< n])"
  by (simp add: upt_conv_Cons map_Suc_upt [symmetric] filter_map del: upt_Suc)

lemma change_nth_positions:
  "change_nth p n f xs =
     (let ps = filter (\<lambda>i. p (xs ! i)) [0 ..< length xs]
      in if n < length ps then Inr (xs[ps ! n := f (xs ! (ps ! n))]) else Inl UnwrapNone)"
proof (induction p n f xs rule: change_nth.induct)
  case (2 p n f x xs)
  let ?ps = "filter (\<lambda>i. p (xs ! i)) [0 ..< length xs]"
  have ps: "filter (\<lambda>i. p ((x # xs) ! i)) [0 ..< length (x # xs)] = (if p x then [0] else []) @ map Suc ?ps"
    using filter_upt_Cons [of "\<lambda>i. p ((x # xs) ! i)" "length xs"] by (simp add: o_def del: upt_Suc)
  show ?case
  proof (cases "p x \<and> n = 0")
    case True
    then show ?thesis unfolding ps by (simp add: Let_def)
  next
    case False
    from 2 [OF False] show ?thesis unfolding ps using False
      by (cases n) (auto simp: Let_def nth_append)
  qed
qed simp

lemma shown_positions: "filter (\<lambda>(_, e). p e) (enumerate k xs) = map (\<lambda>i. (k + i, xs ! i)) (filter (\<lambda>i. p (xs ! i)) [0 ..< length xs])"
proof (induction xs arbitrary: k)
  case (Cons x xs)
  have "filter (\<lambda>i. p ((x # xs) ! i)) [0 ..< length (x # xs)] =
      (if p x then [0] else []) @ map Suc (filter (\<lambda>i. p (xs ! i)) [0 ..< length xs])"
    using filter_upt_Cons [of "\<lambda>i. p ((x # xs) ! i)" "length xs"] by (simp add: o_def del: upt_Suc)
  with Cons [of "Suc k"] show ?case by (simp del: upt_Suc)
qed simp

lemma change_shown_eq:
  "change_shown s idx f =
     (if unat idx < length (shown_at s)
      then let i = shown_at s ! unat idx in Inr (s\<lparr>entries := (entries s)[i := f (entries s ! i)]\<rparr>)
      else Inl UnwrapNone)"
  by (simp add: change_shown_def change_nth_positions shown_at_def Let_def)

lemma remove_entry_eq:
  "remove_entry s idx =
     (if unat idx < length (shown_at s)
      then let i = shown_at s ! unat idx in Inr (s\<lparr>entries := take i (entries s) @ drop (Suc i) (entries s)\<rparr>)
      else Inl UnwrapNone)"
  by (simp add: remove_entry_def shown_positions shown_at_def Let_def not_less)

lemma shown_at_less: "n < length (shown_at s) \<Longrightarrow> shown_at s ! n < length (entries s)
    \<and> fitting s (entries s ! (shown_at s ! n))"
  using nth_mem [of n "shown_at s"] by (auto simp: shown_at_def)

text \<open>Before the position of the \<open>n\<close>th entry shown there are \<open>n\<close> others.\<close>

lemma shown_before:
  "n < length (shown_at s) \<Longrightarrow> length (filter (fitting s) (take (shown_at s ! n) (entries s))) = n"
proof -
  have "n < length (filter (\<lambda>i. p (xs ! i)) [0 ..< length xs]) \<Longrightarrow>
      length (filter p (take (filter (\<lambda>i. p (xs ! i)) [0 ..< length xs] ! n) xs)) = n" for p and xs :: "Entry list"
  proof (induction xs arbitrary: n)
    case (Cons x xs)
    have "filter (\<lambda>i. p ((x # xs) ! i)) [0 ..< length (x # xs)] =
        (if p x then [0] else []) @ map Suc (filter (\<lambda>i. p (xs ! i)) [0 ..< length xs])"
      using filter_upt_Cons [of "\<lambda>i. p ((x # xs) ! i)" "length xs"] by (simp add: o_def del: upt_Suc)
    with Cons show ?case by (cases n) (auto simp del: upt_Suc)
  qed simp
  then show "n < length (shown_at s) \<Longrightarrow> ?thesis" by (simp add: shown_at_def)
qed

text \<open>Showing is by filter: entry \<open>n\<close> of the page is the entry at the \<open>n\<close>th position.\<close>

lemma shown_entries: "map (\<lambda>i. entries s ! i) (shown_at s) = filter (fitting s) (entries s)"
proof -
  have "map ((!) xs) (filter (\<lambda>i. p (xs ! i)) [0 ..< length xs]) = filter p xs" for p and xs :: "Entry list"
    by (simp flip: filter_map o_def [of p "(!) xs"] add: map_nth)
  then show ?thesis by (simp add: shown_at_def)
qed

section \<open>The texts of the entries\<close>

definition tidy :: "string \<Rightarrow> bool" where
  "tidy d \<longleftrightarrow> d \<noteq> [] \<and> \<not> is_whitespace (hd d) \<and> \<not> is_whitespace (last d)"

lemma trim_tidy: "trim s \<noteq> [] \<Longrightarrow> tidy (trim s)"
proof -
  assume ne: "trim s \<noteq> []"
  let ?r = "rev (dropWhile is_whitespace s)"
  have last: "\<not> is_whitespace (last (trim s))"
    using ne hd_dropWhile [of is_whitespace ?r] by (simp add: trim_def last_rev)
  have d: "dropWhile is_whitespace s \<noteq> []"
  proof
    assume "dropWhile is_whitespace s = []"
    with ne show False by (simp add: trim_def)
  qed
  obtain ws where "?r = ws @ dropWhile is_whitespace ?r"
    by (metis takeWhile_dropWhile_id)
  then have "dropWhile is_whitespace s = trim s @ rev ws"
    by (metis rev_append rev_rev_ident trim_def)
  then have "hd (trim s) = hd (dropWhile is_whitespace s)" using ne by (metis hd_append2)
  with hd_dropWhile [OF d] ne last show ?thesis by (simp add: tidy_def)
qed

definition texts_ok :: "TodoState \<Rightarrow> bool" where
  "texts_ok s \<longleftrightarrow> (\<forall>e \<in> set (entries s). tidy (description e))"

lemma change_shown_texts:
  assumes "texts_ok s" and "\<And>e. tidy (description e) \<Longrightarrow> tidy (description (f e))"
    and "change_shown s idx f = Inr s'"
  shows "texts_ok s'"
  using assms shown_at_less [of "unat idx" s] set_update_subset_insert [of "entries s"]
  by (fastforce simp: change_shown_eq texts_ok_def Let_def split: if_splits)

lemma remove_entry_texts: "texts_ok s \<Longrightarrow> remove_entry s idx = Inr s' \<Longrightarrow> texts_ok s'"
  by (auto 4 3 simp: remove_entry_eq texts_ok_def Let_def split: if_splits dest: in_set_takeD in_set_dropD)

lemma todo_apply_texts:
  assumes "texts_ok s" and "todo_apply s cmd = Inr s'"
  shows "texts_ok s'"
proof (cases cmd)
  case AddEntry
  with assms trim_tidy [of "input_value s"] show ?thesis
    by (auto simp: todo_apply_def texts_ok_def Let_def split: if_splits)
next
  case (Edit idx)
  with assms(2) obtain t where t: "complete_edit s idx (trim (edit_value s)) = Inr t"
    and s': "s' = t\<lparr>edit_value := []\<rparr>" by (auto simp: todo_apply_def rbind_eq_Inr)
  have "texts_ok t"
  proof (cases "trim (edit_value s) = []")
    case True
    with t remove_entry_texts [OF assms(1)] show ?thesis by (simp add: complete_edit_def)
  next
    case False
    with t have "change_shown s idx
        (\<lambda>e. e\<lparr>description := trim (edit_value s), editing := \<not> editing e\<rparr>) = Inr t"
      by (simp add: complete_edit_def)
    from change_shown_texts [OF assms(1) _ this] trim_tidy [OF False] show ?thesis by simp
  qed
  then show ?thesis by (simp add: s' texts_ok_def)
next
  case (Remove idx)
  with assms remove_entry_texts show ?thesis by (simp add: todo_apply_def)
next
  case (ToggleEdit idx)
  let ?s = "clear_all_edit (s\<lparr>edit_value := description (entries s ! unat idx)\<rparr>)"
  have "texts_ok ?s" using assms(1) by (auto simp: texts_ok_def clear_all_edit_def)
  moreover have "change_shown ?s idx (\<lambda>e. e\<lparr>editing := \<not> editing e\<rparr>) = Inr s'"
    using ToggleEdit assms(2) by (auto simp: todo_apply_def toggle_edit_def Let_def split: if_splits)
  ultimately show ?thesis using change_shown_texts [of ?s "\<lambda>e. e\<lparr>editing := \<not> editing e\<rparr>"] by auto
next
  case (Toggle idx)
  with assms change_shown_texts [OF assms(1), of "\<lambda>e. e\<lparr>completed := \<not> completed e\<rparr>"] show ?thesis
    by (simp add: todo_apply_def toggle_def)
qed (use assms in \<open>auto simp: todo_apply_def texts_ok_def toggle_all_def clear_completed_def Let_def\<close>)

lemma todo_run_texts:
  assumes "rfold todo_apply todo_default cmds = Inr s"
  shows "texts_ok s"
proof (rule rfold_invariant [OF assms])
  show "texts_ok todo_default" by (simp add: texts_ok_def todo_default_def)
qed (rule todo_apply_texts)

section \<open>Panics\<close>

text \<open>The positions that a command must find.\<close>

fun in_range :: "TodoState \<Rightarrow> TodoMsg \<Rightarrow> bool" where
  "in_range s (Edit idx) = (unat idx < length (shown_at s))"
| "in_range s (Remove idx) = (unat idx < length (shown_at s))"
| "in_range s (Toggle idx) = (unat idx < length (shown_at s))"
| "in_range s (ToggleEdit idx) = (unat idx < length (shown_at s))"
| "in_range s _ = True"

lemma length_shown_at: "length (shown_at s) \<le> length (entries s)"
  unfolding shown_at_def by (rule order_trans [OF length_filter_le]) simp

lemma shown_at_clear_edit: "shown_at (clear_all_edit (s\<lparr>edit_value := v\<rparr>)) = shown_at s"
proof -
  have "fits_filter f (e\<lparr>editing := b\<rparr>) = fits_filter f e" for f b and e :: Entry by (cases f) auto
  then show ?thesis by (auto simp: shown_at_def clear_all_edit_def intro!: filter_cong)
qed

lemma todo_apply_returns: "(\<exists>s'. todo_apply s cmd = Inr s') = in_range s cmd"
proof (cases cmd)
  case (ToggleEdit idx)
  then show ?thesis using length_shown_at [of s] shown_at_clear_edit [of "description (entries s ! unat idx)" s]
    by (auto simp: todo_apply_def toggle_edit_def change_shown_eq Let_def)
qed (auto simp: todo_apply_def toggle_def remove_entry_eq complete_edit_def change_shown_eq Let_def)

section \<open>Editing while entries are hidden\<close>

text \<open>
  \<^verbatim>\<open>ToggleEdit\<close> looks up the text in the whole list, but switches the entry that is shown at the
  position into editing: here only entry b is shown, and finishing its edit without a change
  overwrites it with the text of the hidden entry a.
\<close>

lemma toggle_edit_wrong_text:
  "let a = \<lparr>description = ''a'', completed = True, editing = False\<rparr>;
       b = \<lparr>description = ''b'', completed = False, editing = False\<rparr>;
       s = \<lparr>entries = [a, b], filter_by = FilterActive, input_value = [], edit_value = []\<rparr>
   in rfold todo_apply s [ToggleEdit 0] = Inr (s\<lparr>entries := [a, b\<lparr>editing := True\<rparr>], edit_value := ''a''\<rparr>)
     \<and> rfold todo_apply s [ToggleEdit 0, Edit 0] = Inr (s\<lparr>entries := [a, b\<lparr>description := ''a''\<rparr>]\<rparr>)"
  by (simp add: todo_apply_def toggle_edit_def clear_all_edit_def complete_edit_def change_shown_def
      trim_def is_whitespace_def Let_def)

section \<open>The page\<close>

text \<open>
  Sending a command: \<open>outcomes\<close> lists how the tries end, one after the other; the command is sent
  again after each failure. The result is what was sent.
\<close>

fun send_retrying :: "'msg \<Rightarrow> (ClientError + unit) list \<Rightarrow> 'msg list" where
  "send_retrying m [] = [m]"
| "send_retrying m (Inr () # outcomes) = [m]"
| "send_retrying m (Inl err # outcomes) = m # send_retrying m outcomes"

definition raft_callback :: "('in \<Rightarrow> TodoMsg) \<Rightarrow> 'in \<Rightarrow> (ClientError + unit) list \<Rightarrow> TodoMsg list" where
  "raft_callback f input outcomes = send_retrying (f input) outcomes"

definition raft_batch_callback ::
  "('in \<Rightarrow> TodoMsg option) \<Rightarrow> 'in \<Rightarrow> (ClientError + unit) list \<Rightarrow> TodoMsg list" where
  "raft_batch_callback f input outcomes =
     (case f input of None \<Rightarrow> [] | Some m \<Rightarrow> send_retrying m outcomes)"

definition on_enter :: "TodoMsg \<Rightarrow> string \<Rightarrow> TodoMsg option" where
  "on_enter m key = (if key = ''Enter'' then Some m else None)"

datatype TodoPageMsg = StateUpdate | GotState TodoState | Focus

text \<open>
  \<open>has_input\<close> tells whether the input field is there to be focused. The second component is
  whether the page asks Raft for its state, the third whether it redraws.
\<close>

definition todo_page_update :: "bool \<Rightarrow> TodoState \<Rightarrow> TodoPageMsg \<Rightarrow> TodoState \<times> bool \<times> bool" where
  "todo_page_update has_input s msg =
     (case msg of
        Focus \<Rightarrow> (s, False, has_input)
      | StateUpdate \<Rightarrow> (s, True, False)
      | GotState state \<Rightarrow> (state, False, True))"

text \<open>The answer to the page's read as its next message.\<close>

definition got_state :: "ClientError + TodoState option \<Rightarrow> TodoPageMsg option" where
  "got_state res = (case res of Inr (Some s) \<Rightarrow> Some (GotState s) | _ \<Rightarrow> None)"

end
