(* ===== verification/IntroducerRuns.thy ===== *)
theory IntroducerRuns
  imports Introducer
begin

text \<open>
  What holds of the introducer in every reachable state, whom its commands reach, and how it loses
  track of the nodes that have left.
\<close>

section \<open>Looking up sockets\<close>

lemma serves_iff: "serves s c \<longleftrightarrow> (\<exists>n. task c = Serving n s)"
  by (auto simp: serves_def split: sender_task.splits)

lemma serves_inbox [simp]: "serves s (c\<lparr>inbox := msgs\<rparr>) = serves s c"
  by (simp add: serves_iff)

lemma conns_publish: "map_of (conns (publish p srv)) k =
    map_option (\<lambda>c. if serves (fst p) c then c\<lparr>inbox := inbox c @ [snd p]\<rparr> else c) (map_of (conns srv) k)"
proof -
  have "map_of (map (\<lambda>(k, c). (k, f c)) xs) k = map_option f (map_of xs k)" for f :: "conn \<Rightarrow> conn" and xs
    by (induction xs) auto
  then show ?thesis by (simp add: publish_def)
qed

lemma conns_set_conn [simp]: "map_of (conns (set_conn k c srv)) = (map_of (conns srv))(k \<mapsto> c)"
  and conns_drop_conn [simp]: "map_of (conns (drop_conn k srv)) = (map_of (conns srv))(k := None)"
  by (simp_all add: set_conn_def drop_conn_def update_conv' delete_conv')

lemma same_channels [simp]:
  "channels (publish p srv) = channels srv" "channels (set_conn k c srv) = channels srv"
  "channels (drop_conn k srv) = channels srv"
  by (simp_all add: publish_def set_conn_def drop_conn_def)

lemma same_sent [simp]:
  "sent (publish p srv) = sent srv" "sent (set_conn k c srv) = sent srv" "sent (drop_conn k srv) = sent srv"
  by (simp_all add: publish_def set_conn_def drop_conn_def)

lemma received_serving: "map_of (conns srv) k = Some c \<Longrightarrow> serves s c \<Longrightarrow> received srv s"
  by (auto simp: received_def list_ex_iff dest: map_of_SomeD)

section \<open>The invariant\<close>

fun session_of :: "Command \<Rightarrow> u128" where
  "session_of (Join j) = j_session_id j"
| "session_of (SessionStatus st) = s_session_id st"
| "session_of (Offer offer) = o_session_id offer"
| "session_of (Answer offer) = o_session_id offer"
| "session_of (IceCandidate cand) = c_session_id cand"

definition relayable :: "u128 \<Rightarrow> Command \<Rightarrow> bool" where
  "relayable s msg \<longleftrightarrow> session_of msg = s \<and> (\<forall>j. msg \<noteq> Join j)"

text \<open>
  A receiver holds messages of its own session only, its session has a channel, and a task ends
  early for two reasons only: its web socket failed, or the lock is poisoned.
\<close>

fun conn_ok :: "Channels \<Rightarrow> sender_task \<Rightarrow> Command list \<Rightarrow> bool" where
  "conn_ok ch (Serving n s) msgs = (s \<in> messages ch \<and> online ch s \<noteq> None \<and> list_all (relayable s) msgs)"
| "conn_ok ch AwaitJoin msgs = (msgs = [])"
| "conn_ok ch (Ended r) msgs = (msgs = [] \<and> r \<in> {None, Some (RustError WebSocketError)})"
| "conn_ok ch Panicked msgs = (msgs = [] \<and> poisoned ch)"

definition intro_ok :: "introducer \<Rightarrow> bool" where
  "intro_ok srv \<longleftrightarrow> (\<forall>k c. map_of (conns srv) k = Some c \<longrightarrow> conn_ok (channels srv) (task c) (inbox c))"

lemma intro_okD: "intro_ok srv \<Longrightarrow> map_of (conns srv) k = Some c \<Longrightarrow> conn_ok (channels srv) (task c) (inbox c)"
  by (simp add: intro_ok_def)

text \<open>Channels only grow.\<close>

definition grows :: "Channels \<Rightarrow> Channels \<Rightarrow> bool" where
  "grows ch ch' \<longleftrightarrow> messages ch \<subseteq> messages ch' \<and> (\<forall>s. online ch s \<noteq> None \<longrightarrow> online ch' s \<noteq> None)
     \<and> (poisoned ch \<longrightarrow> poisoned ch')"

lemma grows_trans: "grows a b \<Longrightarrow> grows b c \<Longrightarrow> grows a c"
  unfolding grows_def by blast

lemma grows_refl [simp]: "grows ch ch"
  by (simp add: grows_def)

lemma conn_ok_grows: "conn_ok ch t msgs \<Longrightarrow> grows ch ch' \<Longrightarrow> conn_ok ch' t msgs"
  by (cases t) (auto simp: grows_def)

lemma ensure_session_grows: "grows ch (ensure_session ch s)" "s \<in> messages (ensure_session ch s)"
    "poisoned (ensure_session ch s) = poisoned ch" "online (ensure_session ch s) = online ch"
  by (auto simp: grows_def ensure_session_def)

lemma joined_grows: "joined ch r n s = (ch', x) \<Longrightarrow> grows ch ch'"
  by (auto simp: joined_def grows_def Let_def split: if_splits)

lemma left_grows: "left ch r n s = (ch', x) \<Longrightarrow> grows ch ch'"
  by (auto simp: left_def grows_def Let_def split: if_splits option.splits)

lemma intro_ok_channels: "intro_ok srv \<Longrightarrow> grows (channels srv) ch \<Longrightarrow> intro_ok (srv\<lparr>channels := ch\<rparr>)"
  by (auto simp: intro_ok_def intro: conn_ok_grows)

lemma intro_ok_set_conn: "intro_ok srv \<Longrightarrow> conn_ok (channels srv) (task c) (inbox c) \<Longrightarrow> intro_ok (set_conn k c srv)"
  by (simp add: intro_ok_def)

lemma intro_ok_drop_conn: "intro_ok srv \<Longrightarrow> intro_ok (drop_conn k srv)"
  by (simp add: intro_ok_def)

lemma intro_ok_publish: "intro_ok srv \<Longrightarrow> relayable (fst p) (snd p) \<Longrightarrow> intro_ok (publish p srv)"
proof -
  assume ok: "intro_ok srv" and p: "relayable (fst p) (snd p)"
  have "conn_ok (channels srv) (task c) (inbox c @ [snd p])"
    if "map_of (conns srv) k = Some c" and "serves (fst p) c" for k c
    using intro_okD [OF ok that(1)] that(2) p by (auto simp: serves_iff)
  with ok show ?thesis by (auto simp: intro_ok_def conns_publish)
qed

text \<open>What is published is of the session of its channel.\<close>

lemma broadcast_published: "broadcast ch r s cmd = Inr p \<Longrightarrow> p = (s, cmd)"
  by (auto simp: broadcast_def get_messages_def split: if_splits)

lemma status_published: "broadcast_session_info ch r s = Inr (Inr p) \<Longrightarrow> relayable (fst p) (snd p)"
  by (auto simp: broadcast_session_info_def relayable_def Let_def split: if_splits option.splits
      dest!: broadcast_published)

lemma joined_published: "joined ch r n s = (ch', Inr (Inr p)) \<Longrightarrow> relayable (fst p) (snd p)"
  by (auto simp: joined_def Let_def split: if_splits dest: status_published)

lemma left_published: "left ch r n s = (ch', Inr (Inr p)) \<Longrightarrow> relayable (fst p) (snd p)"
  by (auto simp: left_def Let_def split: if_splits option.splits dest: status_published)

lemma map_sum_Inr_iff: "map_sum f g r = Inr y \<longleftrightarrow> (\<exists>x. r = Inr x \<and> y = g x)"
  by (cases r) auto

lemma read_published:
  "read_message ch r q i msg = Inr (info, Some (Publish p)) \<Longrightarrow> relayable (fst p) (snd p)"
  by (auto simp: read_message_def process_message_def relayable_def rbind_eq_Inr Let_def map_sum_Inr_iff
      split: ws_message.splits option.splits Command.splits sum.splits if_splits dest!: broadcast_published)

section \<open>Every step keeps it\<close>

lemma incoming_ok:
  assumes "intro_ok srv" and "map_of (conns srv) k = Some c"
  shows "intro_ok (incoming k msg c srv)"
  unfolding incoming_def Let_def
  by (auto split: sum.splits prod.splits option.splits reaction.splits
      intro!: intro_ok_set_conn intro_ok_publish assms dest: read_published simp: intro_okD [OF assms])

lemma serve_join_ok:
  assumes "intro_ok srv" and "inbox c = []"
  shows "intro_ok (serve_join k n s c srv)"
proof -
  let ?ch = "ensure_session (channels srv) s"
  define srv1 where "srv1 = set_conn k (c\<lparr>task := Serving n s, inbox := []\<rparr>) (srv\<lparr>channels := ?ch\<rparr>)"
  obtain ch x where j: "joined ?ch (received srv1) n s = (ch, x)" by force
  have g: "grows (channels srv) ch"
    by (rule grows_trans [OF ensure_session_grows(1) joined_grows [OF j]])
  have oth: "conn_ok ch (task d) (inbox d)" if "map_of (conns srv) k' = Some d" for k' d
    by (rule conn_ok_grows [OF intro_okD [OF assms(1) that] g])
  have k: "map_of (conns srv1) k = Some (c\<lparr>task := Serving n s, inbox := []\<rparr>)" by (simp add: srv1_def)
  have rcv: "received srv1 s" by (rule received_serving [OF k]) (simp add: serves_iff)
  show ?thesis
  proof (cases "poisoned ?ch")
    case True
    then have "ch = ?ch" "x = Inl UnwrapErr" using j by (simp_all add: joined_def)
    then have "serve_join k n s c srv = set_conn k (c\<lparr>task := Panicked\<rparr>) (srv1\<lparr>channels := ch\<rparr>)"
      using j by (simp add: serve_join_def Let_def srv1_def)
    with oth True \<open>ch = ?ch\<close> assms(2) show ?thesis by (auto simp: intro_ok_def srv1_def)
  next
    case False
    obtain p where p: "x = Inr (Inr p)" and d: "online ch s \<noteq> None" "s \<in> messages ch"
      using j False rcv ensure_session_grows(2) [of s "channels srv"]
      by (auto simp: joined_def broadcast_session_info_def broadcast_def get_messages_def Let_def)
    then have "serve_join k n s c srv = publish p (srv1\<lparr>channels := ch\<rparr>)"
      using j by (simp add: serve_join_def Let_def srv1_def)
    moreover have "intro_ok (srv1\<lparr>channels := ch\<rparr>)"
      using oth d by (auto simp: intro_ok_def srv1_def)
    ultimately show ?thesis using joined_published [of ?ch "received srv1" n s ch p] j p
      by (auto intro: intro_ok_publish)
  qed
qed

lemma relay_ok:
  assumes "intro_ok srv" and "map_of (conns srv) k = Some c" and "task c = Serving n s" and "inbox c = msg # rest"
  shows "intro_ok (relay k n s ok c msg rest srv)"
proof -
  from intro_okD [OF assms(1,2)] assms(3,4) have r: "relayable s msg"
    and ok: "conn_ok (channels srv) (task c) rest" by auto
  have "\<exists>b. relays n s msg = Inr b" using r by (cases msg) (auto simp: relays_def relayable_def)
  moreover have "intro_ok (t\<lparr>sent := x\<rparr>)" if "intro_ok t" for t x using that by (simp add: intro_ok_def)
  moreover have "intro_ok (set_conn k (c\<lparr>inbox := rest\<rparr>) srv)"
    using ok assms(1) by (simp add: intro_ok_set_conn)
  ultimately show ?thesis using assms(1)
    by (auto simp: relay_def split: sum.splits bool.splits intro!: intro_ok_set_conn)
qed

lemma finish_conn_ok:
  assumes "intro_ok srv"
  shows "intro_ok (finish_conn k c srv)"
proof (cases "\<exists>n s. task c = Ended None \<and> ids c = Some (n, s)")
  case True
  then obtain n s where c: "task c = Ended None" "ids c = Some (n, s)" by blast
  obtain ch r where l: "left (channels srv) (received srv) n s = (ch, r)" by force
  have "intro_ok (srv\<lparr>channels := ch\<rparr>)" by (rule intro_ok_channels [OF assms left_grows [OF l]])
  moreover have "relayable (fst p) (snd p)" if "r = Inr (Inr p)" for p
    using l that left_published by blast
  ultimately show ?thesis
    by (auto simp: finish_conn_def c l Let_def split: sum.splits intro!: intro_ok_drop_conn intro_ok_publish)
qed (use assms in \<open>auto simp: finish_conn_def intro_ok_drop_conn split: sender_task.splits option.splits\<close>)

lemma on_conn_ok:
  assumes ok: "intro_ok srv" and c: "map_of (conns srv) k = Some c"
  shows "intro_ok (on_conn a k c srv)"
proof -
  note cok = intro_okD [OF ok c]
  show ?thesis
  proof (cases a)
    case (Relay k' ok')
    then show ?thesis using relay_ok [OF ok c] ok by (simp split: sender_task.splits list.splits)
  next
    case (TakeJoin k')
    then show ?thesis using serve_join_ok [OF ok] ok cok
      by (cases "task c") (auto split: list.splits)
  next
    case (Lag k' m)
    have "conn_ok (channels srv) (task c) (drop m (inbox c))"
      using cok by (cases "task c") (auto simp: list_all_iff dest: in_set_dropD)
    with Lag ok show ?thesis by (simp add: intro_ok_set_conn)
  next
    case (EndOfStream k')
    with ok cok show ?thesis by (simp add: end_of_stream_def intro_ok_set_conn intro_ok_drop_conn)
  next
    case (PingFails k')
    with ok show ?thesis by (cases "task c") (auto simp: intro_ok_set_conn)
  next
    case (TaskLeaves k')
    with ok show ?thesis by (cases "task c") (auto simp: intro_ok_set_conn)
  qed (use ok incoming_ok [OF ok c] finish_conn_ok [OF ok] in simp_all)
qed

lemma intro_step_ok: "intro_ok srv \<Longrightarrow> intro_ok (intro_step srv a)"
  by (auto simp: intro_step_def on_conn_ok intro_ok_set_conn split: option.splits intro_action.splits)

lemma intro_run_ok: "intro_ok srv \<Longrightarrow> intro_ok (intro_run srv as)"
  by (induction as arbitrary: srv) (simp_all add: intro_run_def intro_step_ok)

lemma introducer_init_ok: "intro_ok introducer_init"
  by (simp add: intro_ok_def introducer_init_def)

section \<open>Whom a command reaches\<close>

text \<open>The node that a command is meant for; a status is for all.\<close>

fun meant_for :: "u64 \<Rightarrow> Command \<Rightarrow> bool" where
  "meant_for n (Offer offer) = (o_target_id offer = n)"
| "meant_for n (Answer offer) = (o_target_id offer = n)"
| "meant_for n (IceCandidate cand) = (c_target_id cand = n)"
| "meant_for n (SessionStatus st) = True"
| "meant_for n (Join j) = False"

lemma relays_meant: "relayable s msg \<Longrightarrow> relays n s msg = Inr (meant_for n msg)"
  by (cases msg) (auto simp: relays_def relayable_def)

lemma incoming_sent [simp]: "sent (incoming k msg c srv) = sent srv"
  by (auto simp: incoming_def Let_def split: sum.splits prod.splits option.splits reaction.splits)

lemma serve_join_sent [simp]: "sent (serve_join k n s c srv) = sent srv"
  by (auto simp: serve_join_def Let_def split: sum.splits prod.splits)

lemma finish_conn_sent [simp]: "sent (finish_conn k c srv) = sent srv"
  by (auto simp: finish_conn_def Let_def split: sum.splits prod.splits option.splits sender_task.splits)

lemma relay_sent:
  assumes "intro_ok srv" and "map_of (conns srv) k = Some c" and "task c = Serving n s" and "inbox c = msg # rest"
  shows "sent (relay k n s ok c msg rest srv) = sent srv @ (if meant_for n msg \<and> ok then [(k, msg)] else [])"
    and "relayable s msg"
proof -
  show r: "relayable s msg" using intro_okD [OF assms(1,2)] assms(3,4) by simp
  show "sent (relay k n s ok c msg rest srv) = sent srv @ (if meant_for n msg \<and> ok then [(k, msg)] else [])"
    by (simp add: relay_def relays_meant [OF r] split: bool.splits)
qed

lemma sent_addressed:
  assumes "intro_ok srv" and "sent (intro_step srv a) \<noteq> sent srv"
  obtains k c n s msg where "map_of (conns srv) k = Some c" and "task c = Serving n s"
    and "sent (intro_step srv a) = sent srv @ [(k, msg)]" and "session_of msg = s" and "meant_for n msg"
proof -
  obtain c where c: "map_of (conns srv) (action_conn a) = Some c"
    using assms(2) by (cases "map_of (conns srv) (action_conn a)")
      (auto simp: intro_step_def split: intro_action.splits)
  have st: "intro_step srv a = on_conn a (action_conn a) c srv" by (simp add: intro_step_def c)
  have ne: "sent (on_conn a (action_conn a) c srv) \<noteq> sent srv" using assms(2) st by simp
  show ?thesis
  proof (cases a)
    case (Relay k ok)
    with ne obtain n s msg rest where t: "task c = Serving n s" "inbox c = msg # rest"
      by (auto split: sender_task.splits list.splits)
    from relay_sent(1) [OF assms(1) c t, of ok] relay_sent(2) [OF assms(1) c t] that [OF c t(1)] assms(2) st t Relay show ?thesis
      by (auto simp: relayable_def split: if_splits)
  qed (use ne in \<open>auto simp: end_of_stream_def split: sender_task.splits list.splits if_splits prod.splits\<close>)
qed

text \<open>A published command joins the inbox of every task that serves its session.\<close>

definition inbox_of :: "introducer \<Rightarrow> nat \<Rightarrow> u128 \<Rightarrow> Command list option" where
  "inbox_of srv k s = (case map_of (conns srv) k of
     Some c \<Rightarrow> if serves s c then Some (inbox c) else None | None \<Rightarrow> None)"

lemma inbox_of_publish: "inbox_of (publish (s, msg) srv) k s = map_option (\<lambda>msgs. msgs @ [msg]) (inbox_of srv k s)"
  by (auto simp: inbox_of_def conns_publish split: option.splits)

fun signal :: "Command \<Rightarrow> bool" where
  "signal (Join j) = False"
| "signal (SessionStatus st) = False"
| "signal _ = True"

lemma signal_published:
  assumes "intro_ok srv" and "map_of (conns srv) k = Some c" and "task c = Serving n s"
    and "signal msg" and "session_of msg = s"
  shows "read_message (channels srv) (received srv) q i (Binary (Some msg)) = Inr (None, Some (Publish (s, msg)))"
proof -
  have "received srv s" by (rule received_serving [OF assms(2)]) (simp add: assms(3) serves_iff)
  moreover have "s \<in> messages (channels srv)" using intro_okD [OF assms(1,2)] assms(3) by simp
  ultimately show ?thesis using assms(4,5)
    by (cases msg) (auto simp: read_message_def process_message_def broadcast_def get_messages_def)
qed

lemma signal_reaches:
  assumes ok: "intro_ok srv" and k: "map_of (conns srv) k = Some c" and t: "inbox_of srv k' s = Some msgs"
    and m: "signal msg" "session_of msg = s" and nl: "\<not> leaving c"
  shows "inbox_of (intro_step srv (Incoming k (Binary (Some msg)))) k' s = Some (msgs @ [msg])"
proof -
  obtain c' n where c': "map_of (conns srv) k' = Some c'" "task c' = Serving n s" "inbox c' = msgs"
    using t by (auto simp: inbox_of_def serves_iff split: option.splits if_splits)
  have w: "\<not> must_wait c (Binary (Some msg))" using m(1) by (cases msg) (auto simp: must_wait_def)
  have "intro_step srv (Incoming k (Binary (Some msg))) = publish (s, msg) (set_conn k (c\<lparr>ids := None\<rparr>) srv)"
    using signal_published [OF ok c'(1,2) m] k nl w by (simp add: intro_step_def incoming_def)
  moreover have "inbox_of (set_conn k (c\<lparr>ids := None\<rparr>) srv) k' s = Some msgs"
    using t k by (auto simp: inbox_of_def serves_iff)
  ultimately show ?thesis by (simp add: inbox_of_publish)
qed

lemma signal_keeps_task:
  assumes ok: "intro_ok srv" and k: "map_of (conns srv) k = Some c" and k': "map_of (conns srv) k' = Some c'"
    and t: "task c' = Serving n s" and m: "signal msg" "session_of msg = s" and nl: "\<not> leaving c"
  shows "\<exists>c''. map_of (conns (intro_step srv (Incoming k (Binary (Some msg))))) k' = Some c'' \<and> task c'' = Serving n s"
proof -
  have w: "\<not> must_wait c (Binary (Some msg))" using m(1) by (cases msg) (auto simp: must_wait_def)
  have "intro_step srv (Incoming k (Binary (Some msg))) = publish (s, msg) (set_conn k (c\<lparr>ids := None\<rparr>) srv)"
    using signal_published [OF ok k' t m] k nl w by (simp add: intro_step_def incoming_def)
  then show ?thesis using k k' t by (auto simp: conns_publish)
qed

text \<open>As long as its web socket works, a task works its inbox off.\<close>

lemma relays_all:
  assumes "intro_ok srv" and "map_of (conns srv) k = Some c" and "task c = Serving n s" and "inbox c = msgs"
  shows "sent (intro_run srv (replicate (length msgs) (Relay k True))) =
    sent srv @ map (Pair k) (filter (meant_for n) msgs)"
  using assms
proof (induction msgs arbitrary: srv c)
  case Nil
  then show ?case by (simp add: intro_run_def)
next
  case (Cons msg msgs)
  let ?srv = "intro_step srv (Relay k True)"
  have st: "?srv = relay k n s True c msg msgs srv" using Cons.prems by (simp add: intro_step_def)
  note r = relay_sent(1) [OF Cons.prems, of True] relay_sent(2) [OF Cons.prems]
  have "map_of (conns ?srv) k = Some (c\<lparr>inbox := msgs\<rparr>)"
    by (simp add: st relay_def relays_meant [OF r(2)] split: bool.splits)
  from Cons.IH [OF intro_step_ok [OF Cons.prems(1)] this] Cons.prems(3) have
    "sent (intro_run ?srv (replicate (length msgs) (Relay k True))) =
       sent ?srv @ map (Pair k) (filter (meant_for n) msgs)" by simp
  with r(1) show ?case by (simp add: intro_run_def st)
qed

section \<open>Joining\<close>

lemma join_announced:
  assumes "intro_ok srv" and "map_of (conns srv) k = Some c" and "task c = AwaitJoin" and "joins c = (n, s) # js"
    and "\<not> poisoned (channels srv)"
  defines "nodes \<equiv> insert n (case online (channels srv) s of None \<Rightarrow> {} | Some ns \<Rightarrow> ns)"
  shows "online (channels (intro_step srv (TakeJoin k))) = (online (channels srv))(s \<mapsto> nodes)"
    and "inbox_of (intro_step srv (TakeJoin k)) k' s =
      (if k' = k then Some [SessionStatus \<lparr>s_session_id = s, s_online = nodes\<rparr>]
       else map_option (\<lambda>msgs. msgs @ [SessionStatus \<lparr>s_session_id = s, s_online = nodes\<rparr>]) (inbox_of srv k' s))"
proof -
  let ?ch = "ensure_session (channels srv) s"
  let ?c = "c\<lparr>joins := js\<rparr>"
  define srv1 where "srv1 = set_conn k (?c\<lparr>task := Serving n s, inbox := []\<rparr>) (srv\<lparr>channels := ?ch\<rparr>)"
  define ch where "ch = ?ch\<lparr>online := (online ?ch)(s \<mapsto> nodes)\<rparr>"
  have k: "map_of (conns srv1) k = Some (?c\<lparr>task := Serving n s, inbox := []\<rparr>)" by (simp add: srv1_def)
  have rcv: "received srv1 s" by (rule received_serving [OF k]) (simp add: serves_iff)
  have "joined ?ch (received srv1) n s = (ch, Inr (Inr (s, SessionStatus \<lparr>s_session_id = s, s_online = nodes\<rparr>)))"
    using assms(5) rcv
    by (simp add: ensure_session_grows joined_def broadcast_session_info_def broadcast_def get_messages_def Let_def ch_def nodes_def)
  then have st: "intro_step srv (TakeJoin k) =
      publish (s, SessionStatus \<lparr>s_session_id = s, s_online = nodes\<rparr>) (srv1\<lparr>channels := ch\<rparr>)"
    using assms(2-4) by (simp add: intro_step_def serve_join_def Let_def srv1_def)
  show "online (channels (intro_step srv (TakeJoin k))) = (online (channels srv))(s \<mapsto> nodes)"
    by (simp add: st ch_def ensure_session_grows(4))
  have "inbox_of (srv1\<lparr>channels := ch\<rparr>) k' s = (if k' = k then Some [] else inbox_of srv k' s)"
    by (simp add: inbox_of_def srv1_def serves_iff)
  then show "inbox_of (intro_step srv (TakeJoin k)) k' s =
      (if k' = k then Some [SessionStatus \<lparr>s_session_id = s, s_online = nodes\<rparr>]
       else map_option (\<lambda>msgs. msgs @ [SessionStatus \<lparr>s_session_id = s, s_online = nodes\<rparr>]) (inbox_of srv k' s))"
    by (simp add: st inbox_of_publish)
qed

section \<open>How it goes wrong\<close>

text \<open>Once the lock is poisoned, the nodes online never change again.\<close>

lemma poisoned_step:
  assumes "poisoned (channels srv)"
  shows "poisoned (channels (intro_step srv a)) \<and> online (channels (intro_step srv a)) = online (channels srv)"
proof -
  have j: "joined (ensure_session (channels srv) s) r n s = (ensure_session (channels srv) s, Inl UnwrapErr)" for r n s
    using assms by (simp add: joined_def ensure_session_grows)
  have l: "left (channels srv) r n s = (channels srv, Inl UnwrapErr)" for r n s
    using assms by (simp add: left_def)
  have i: "channels (incoming k msg c srv) = channels srv" for k msg c
    by (auto simp: incoming_def Let_def split: sum.splits prod.splits option.splits reaction.splits)
  have r: "channels (relay k n s ok c msg rest srv) = channels srv" for k n s ok c msg rest
    by (auto simp: relay_def split: sum.splits bool.splits)
  have "poisoned (channels (on_conn a k c srv)) \<and> online (channels (on_conn a k c srv)) = online (channels srv)" for k c
    using assms by (cases a) (auto simp: i r j l serve_join_def finish_conn_def end_of_stream_def Let_def
        ensure_session_grows split: sender_task.splits list.splits option.splits prod.splits)
  then show ?thesis using assms by (auto simp: intro_step_def split: option.splits intro_action.splits)
qed

lemma poisoned_run:
  assumes "poisoned (channels srv)"
  shows "poisoned (channels (intro_run srv as)) \<and> online (channels (intro_run srv as)) = online (channels srv)"
  using assms
proof (induction as arbitrary: srv)
  case (Cons a as)
  from poisoned_step [OF Cons.prems, of a] Cons.IH [of "intro_step srv a"] show ?case
    by (simp add: intro_run_def)
qed (simp add: intro_run_def)

text \<open>A socket that ends before it joined is never cleaned up: its tasks wait for each other.\<close>

definition stuck :: "conn \<Rightarrow> bool" where
  "stuck c \<longleftrightarrow> task c = AwaitJoin \<and> joins c = [] \<and> leaving c"

definition stuck_at :: "introducer \<Rightarrow> nat \<Rightarrow> bool" where
  "stuck_at srv k = (case map_of (conns srv) k of Some c \<Rightarrow> stuck c | None \<Rightarrow> False)"

lemma stuck_publish [simp]: "stuck_at (publish p srv) k = stuck_at srv k"
  by (auto simp: stuck_at_def conns_publish stuck_def split: option.splits)

lemma stuck_set_conn [simp]: "stuck_at (set_conn k' c srv) k = (if k = k' then stuck c else stuck_at srv k)"
  and stuck_drop_conn [simp]: "stuck_at (drop_conn k' srv) k = (k \<noteq> k' \<and> stuck_at srv k)"
  and stuck_frame [simp]: "stuck_at (srv\<lparr>channels := ch\<rparr>) k = stuck_at srv k"
    "stuck_at (srv\<lparr>sent := out\<rparr>) k = stuck_at srv k"
  by (simp_all add: stuck_at_def)

lemma stuck_step:
  assumes "stuck_at srv k"
  shows "stuck_at (intro_step srv a) k"
proof (cases "map_of (conns srv) (action_conn a)")
  case None
  with assms show ?thesis by (auto simp: intro_step_def stuck_at_def split: intro_action.splits)
next
  case (Some c)
  have st: "intro_step srv a = on_conn a (action_conn a) c srv" by (simp add: intro_step_def Some)
  show ?thesis
  proof (cases "action_conn a = k")
    case True
    with assms Some have c: "stuck c" by (simp add: stuck_at_def)
    then have f: "task c = AwaitJoin" "joins c = []" "leaving c" by (simp_all add: stuck_def)
    have "stuck_at (on_conn a k c srv) k"
      using assms f by (cases a) (simp_all add: stuck_def finish_conn_def)
    with st True show ?thesis by simp
  next
    case False
    with assms have "stuck_at (on_conn a (action_conn a) c srv) k"
      by (cases a) (auto simp: incoming_def serve_join_def relay_def end_of_stream_def finish_conn_def Let_def
          split: sum.splits prod.splits option.splits reaction.splits sender_task.splits list.splits bool.splits)
    with st show ?thesis by simp
  qed
qed

lemma stuck_run: "stuck_at srv k \<Longrightarrow> stuck_at (intro_run srv as) k"
  by (induction as arbitrary: srv) (simp_all add: intro_run_def stuck_step)

text \<open>The definitions that a run unfolds.\<close>

lemmas intro_runs = intro_run_def intro_step_def introducer_init_def channels_default_def incoming_def
  serve_join_def relay_def end_of_stream_def finish_conn_def must_wait_def task_open_def read_message_def
  process_message_def joined_def left_def broadcast_session_info_def broadcast_def get_messages_def
  ensure_session_def received_def publish_def serves_def set_conn_def drop_conn_def relays_def Let_def

abbreviation join_msg :: "u64 \<Rightarrow> u128 \<Rightarrow> ws_message" where
  "join_msg n s \<equiv> Binary (Some (Join \<lparr>j_node_id = n, j_session_id = s\<rparr>))"

abbreviation demo_offer :: "u64 \<Rightarrow> u64 \<Rightarrow> u128 \<Rightarrow> Command" where
  "demo_offer n m s \<equiv> Offer \<lparr>o_session_id = s, o_node_id = n, o_target_id = m, o_sdp_data = []\<rparr>"

text \<open>
  A node that has sent a signal stays online for ever: the loop that reads a socket overwrites the
  node it remembers for the end with nothing at every offer, answer and candidate. A node that joins
  and leaves is taken off its session's list, but one that made an offer in between is not.
\<close>

lemma departed_stay_online:
  "let met = intro_run introducer_init [Accept 0, Incoming 0 (join_msg 1 9), TakeJoin 0];
       bye = [EndOfStream 0, TaskLeaves 0, Finish 0];
       quiet = intro_run met bye;
       busy = intro_run met (Incoming 0 (Binary (Some (demo_offer 1 2 9))) # bye)
   in conns quiet = [] \<and> online (channels quiet) 9 = Some {}
     \<and> conns busy = [] \<and> online (channels busy) 9 = Some {1}"
  by (simp add: intro_runs)

end
