(* ===== verification/IntroducerProcess.thy ===== *)
theory IntroducerProcess
  imports IntroducerRuns
begin

text \<open>
  The process of the introducer, \<^verbatim>\<open>main\<close> in webrtc-introducer/src/main.rs: the address it listens on,
  the web socket handshake, and the loop that accepts sockets. What it does with the sockets it
  accepts is theory Introducer; the task that waits for SIGTERM and the loop are its actions here.
\<close>

section \<open>The address and the handshake\<close>

text \<open>A variable that is missing, or not a text, has its default.\<close>

definition listen_address :: "(string \<rightharpoonup> string) \<Rightarrow> string" where
  "listen_address env_var =
     (let port = (case env_var ''PORT'' of Some p \<Rightarrow> p | None \<Rightarrow> ''3000'');
          listen = (case env_var ''LISTEN_ADDR'' of Some a \<Rightarrow> a | None \<Rightarrow> ''0.0.0.0'')
      in listen @ '':'' @ port)"

text \<open>The headers of a response, by name; inserting replaces what a name had.\<close>

type_synonym headers = "string \<rightharpoonup> string list"

definition on_request :: "headers \<Rightarrow> headers" where
  "on_request response = response(''content-security-policy'' \<mapsto> [''default-src *''])"

section \<open>The process\<close>

datatype process_end = ExitZero | BindFailed | AcceptFailed

record process =
  listening :: string
  serving :: introducer
  ended :: "process_end option"

text \<open>\<open>bind_ok\<close> is whether the system lets the process listen on the address.\<close>

definition main_start :: "(string \<rightharpoonup> string) \<Rightarrow> (string \<Rightarrow> bool) \<Rightarrow> process" where
  "main_start env_var bind_ok =
     (let addr = listen_address env_var
      in \<lparr>listening = addr, serving = introducer_init, ended = (if bind_ok addr then None else Some BindFailed)\<rparr>)"

text \<open>
  A socket is accepted, and its handshake succeeds or not; accepting fails; the signal arrives; or a
  task of a socket that was accepted goes on.
\<close>

datatype main_action =
    Socket nat bool
  | AcceptError
  | Sigterm
  | Task intro_action

text \<open>The start of \<^verbatim>\<open>process_socket\<close>: an error of the handshake is printed, and that is all.\<close>

definition accept_socket :: "nat \<Rightarrow> bool \<Rightarrow> introducer \<Rightarrow> introducer" where
  "accept_socket k handshake_ok srv = (if handshake_ok then intro_step srv (Accept k) else srv)"

definition main_step :: "process \<Rightarrow> main_action \<Rightarrow> process" where
  "main_step p a =
     (if ended p \<noteq> None then p
      else case a of
             Socket k handshake_ok \<Rightarrow> p\<lparr>serving := accept_socket k handshake_ok (serving p)\<rparr>
           | AcceptError \<Rightarrow> p\<lparr>ended := Some AcceptFailed\<rparr>
           | Sigterm \<Rightarrow> p\<lparr>ended := Some ExitZero\<rparr>
           | Task t \<Rightarrow> p\<lparr>serving := intro_step (serving p) t\<rparr>)"

definition main_run :: "process \<Rightarrow> main_action list \<Rightarrow> process" where
  "main_run p as = foldl main_step p as"

text \<open>What the process serves is a run of the introducer, so that its theorems hold of the process.\<close>

lemma main_step_serves: "\<exists>bs. serving (main_step p a) = intro_run (serving p) bs"
proof -
  have "serving (main_step p a) \<in> {serving p, intro_step (serving p) (case a of Socket k _ \<Rightarrow> Accept k | Task t \<Rightarrow> t)}"
    by (cases a) (auto simp: main_step_def accept_socket_def)
  moreover have "intro_run srv [] = srv" "intro_run srv [b] = intro_step srv b" for srv b by (simp_all add: intro_run_def)
  ultimately show ?thesis by (metis insertE singletonD)
qed

lemma main_serves: "\<exists>bs. serving (main_run (main_start env_var bind_ok) as) = intro_run introducer_init bs"
proof (induction as rule: rev_induct)
  case Nil
  show ?case by (intro exI [of _ "[]"]) (simp add: main_run_def main_start_def Let_def intro_run_def)
next
  case (snoc a as)
  then obtain bs where bs: "serving (main_run (main_start env_var bind_ok) as) = intro_run introducer_init bs" by blast
  obtain cs where "serving (main_step (main_run (main_start env_var bind_ok) as) a)
      = intro_run (serving (main_run (main_start env_var bind_ok) as)) cs" using main_step_serves by blast
  with bs show ?case by (intro exI [of _ "bs @ cs"]) (simp add: main_run_def intro_run_def)
qed

text \<open>
  The process ends for good: with the signal, and also with the first socket that cannot be
  accepted, whatever it was serving.
\<close>

lemma ended_stays: "ended p \<noteq> None \<Longrightarrow> main_run p as = p"
  by (induction as) (simp_all add: main_run_def main_step_def)

lemma accept_error_ends:
  assumes "ended (main_run p as) = None"
  shows "main_run p (as @ AcceptError # bs) = (main_run p as)\<lparr>ended := Some AcceptFailed\<rparr>"
proof -
  have "main_run p (as @ AcceptError # bs) = main_run (main_step (main_run p as) AcceptError) bs"
    by (simp add: main_run_def)
  also have "main_step (main_run p as) AcceptError = (main_run p as)\<lparr>ended := Some AcceptFailed\<rparr>"
    using assms by (simp add: main_step_def)
  finally show ?thesis by (simp add: ended_stays)
qed

end
