(* ===== verification/Connection.thy ===== *)
theory Connection
  imports Rpc
begin

text \<open>
  A connection between two nodes, both ends of webrtc_rpc/transport.rs together with the data
  channel: the channels that \<^verbatim>\<open>PeerTransport::start\<close> makes, the tasks it spawns, and the callbacks
  it sets. Both ends call and serve at the same time. What each task does when it runs is in the
  theories Transport and Rpc; here any of them may run next.
\<close>

section \<open>One end\<close>

text \<open>The loop of \<^verbatim>\<open>Server::serve\<close>; a request comes with the ticket its task answers under.\<close>

datatype 'req serve_loop =
    Idle
  | Handling 'req usize
  | ServerDropped

text \<open>
  The one-shot channels of calls are numbered in the order of the calls. A request's task does
  nothing but wait for the server's answer to send it back, and so is the ticket it sends back. The
  last three fields are histories: the calls made, the answers that came of them, and what the
  server answered under which ticket.
\<close>

record ('req, 'resp) endpoint =
  ep_client :: RpcClient
  ep_open :: bool
  ep_requests :: "('req \<times> nat) list"
  ep_responses :: "('req, 'resp) Message list"
  ep_manager :: "nat RequestManager option"
  ep_timers :: "usize list"
  ep_queue :: "('req \<times> usize) list"
  ep_serving :: "'req serve_loop"
  ep_issued :: "'req list"
  ep_answers :: "(nat \<times> (TransportError + 'resp)) list"
  ep_handled :: "(usize \<times> 'req \<times> (TransportError + 'resp)) list"

definition endpoint_start :: "u64 \<Rightarrow> ('req, 'resp) endpoint" where
  "endpoint_start peer_id =
     \<lparr>ep_client = peer_transport_start peer_id, ep_open = True, ep_requests = [], ep_responses = [],
      ep_manager = Some RequestManager_new, ep_timers = [], ep_queue = [], ep_serving = Idle,
      ep_issued = [], ep_answers = [], ep_handled = []\<rparr>"

section \<open>The request manager's task\<close>

definition messages_of :: "('req, 'resp, 'tx) manager_effect list \<Rightarrow> ('req, 'resp) Message list" where
  "messages_of out = List.map_filter (\<lambda>e. case e of SendMessage msg \<Rightarrow> Some msg | _ \<Rightarrow> None) out"

definition timers_of :: "('req, 'resp, 'tx) manager_effect list \<Rightarrow> usize list" where
  "timers_of out = List.map_filter (\<lambda>e. case e of StartTimer i \<Rightarrow> Some i | _ \<Rightarrow> None) out"

definition replies_of :: "('req, 'resp, 'tx) manager_effect list \<Rightarrow> ('tx \<times> (TransportError + 'resp)) list" where
  "replies_of out = List.map_filter (\<lambda>e. case e of Reply tx r \<Rightarrow> Some (tx, r) | _ \<Rightarrow> None) out"

definition managed ::
  "('req, 'resp) endpoint \<Rightarrow> nat RequestManager \<times> ('req, 'resp, nat) manager_effect list \<Rightarrow>
   ('req, 'resp) endpoint \<times> ('req, 'resp) Message list" where
  "managed ep r =
     (let (m, out) = r
      in (ep\<lparr>ep_manager := Some m, ep_timers := ep_timers ep @ timers_of out,
             ep_answers := ep_answers ep @ map (\<lambda>(tx, r). (tx, await_answer (Some r))) (replies_of out)\<rparr>,
          messages_of out))"

text \<open>
  When \<^verbatim>\<open>run\<close> returns, everything it owns is dropped: the channels it reads, with what they hold,
  and the table of requests in flight. The calls that wait for one of these get no answer.
\<close>

definition values_of :: "'v RingBuf \<Rightarrow> 'v list" where
  "values_of b = List.map_filter (map_option snd) (data b)"

definition stop_manager :: "('req, 'resp) endpoint \<Rightarrow> nat RequestManager \<Rightarrow> ('req, 'resp) endpoint" where
  "stop_manager ep m =
     ep\<lparr>ep_manager := None, ep_requests := [], ep_responses := [],
        ep_answers := ep_answers ep @
          map (\<lambda>tx. (tx, await_answer None)) (map snd (ep_requests ep) @ values_of (in_flight m))\<rparr>"

text \<open>
  The three branches of its \<^verbatim>\<open>select!\<close>. A channel that is closed still yields what it holds. \<open>dc\<close>
  is the exception that the data channel throws, if it does.
\<close>

definition poll_requests ::
  "JsValue option \<Rightarrow> ('req, 'resp) endpoint \<Rightarrow> (('req, 'resp) endpoint \<times> ('req, 'resp) Message list) result" where
  "poll_requests dc ep =
     (case ep_manager ep of
        None \<Rightarrow> Inr (ep, [])
      | Some m \<Rightarrow>
          (case ep_requests ep of
             (req, tx) # rest \<Rightarrow>
               rbind (manager_step m (GotRequest req tx dc)) (\<lambda>r.
                 Inr (managed (ep\<lparr>ep_requests := rest\<rparr>) r))
           | [] \<Rightarrow> Inr (if ep_open ep then ep else stop_manager ep m, [])))"

definition poll_responses ::
  "('req, 'resp) endpoint \<Rightarrow> (('req, 'resp) endpoint \<times> ('req, 'resp) Message list) result" where
  "poll_responses ep =
     (case ep_manager ep of
        None \<Rightarrow> Inr (ep, [])
      | Some m \<Rightarrow>
          (case ep_responses ep of
             msg # rest \<Rightarrow>
               rbind (manager_step m (GotResponse msg)) (\<lambda>r.
                 Inr (managed (ep\<lparr>ep_responses := rest\<rparr>) r))
           | [] \<Rightarrow> Inr (if ep_open ep then ep else stop_manager ep m, [])))"

text \<open>The \<open>n\<close>-th running timer fires; a manager that has stopped does not hear it.\<close>

definition poll_timer ::
  "nat \<Rightarrow> ('req, 'resp) endpoint \<Rightarrow> (('req, 'resp) endpoint \<times> ('req, 'resp) Message list) result" where
  "poll_timer n ep =
     (if n < length (ep_timers ep)
      then let idx = ep_timers ep ! n;
               ep = ep\<lparr>ep_timers := take n (ep_timers ep) @ drop (Suc n) (ep_timers ep)\<rparr>
           in (case ep_manager ep of
                 None \<Rightarrow> Inr (ep, [])
               | Some m \<Rightarrow> rbind (manager_step m (GotTimeout idx)) (\<lambda>r. Inr (managed ep r)))
      else Inr (ep, []))"

section \<open>Calls, the server and the data channel\<close>

text \<open>\<^verbatim>\<open>Client::call\<close> up to its wait for the answer.\<close>

definition start_call :: "'req \<Rightarrow> ('req, 'resp) endpoint \<Rightarrow> ('req, 'resp) endpoint" where
  "start_call req ep =
     (let tx = length (ep_issued ep);
          send_ok = (ep_open ep \<and> ep_manager ep \<noteq> None);
          (c, failure) = call (ep_client ep) send_ok None;
          ep' = ep\<lparr>ep_client := c, ep_issued := ep_issued ep @ [req]\<rparr>
      in if connected (ep_client ep) \<and> send_ok
         then ep'\<lparr>ep_requests := ep_requests ep @ [(req, tx)]\<rparr>
         else ep'\<lparr>ep_answers := ep_answers ep @ [(tx, failure)]\<rparr>)"

text \<open>
  The server's loop: it takes the next request; the handler answers, and the request's task sends
  the answer back if the data channel takes it. When its channel is closed and empty, the loop ends,
  and the server is dropped.
\<close>

definition serve_next :: "('req, 'resp) endpoint \<Rightarrow> ('req, 'resp) endpoint" where
  "serve_next ep =
     (case ep_serving ep of
        Idle \<Rightarrow>
          (case ep_queue ep of
             (req, idx) # rest \<Rightarrow> ep\<lparr>ep_queue := rest, ep_serving := Handling req idx\<rparr>
           | [] \<Rightarrow> if ep_open ep then ep else ep\<lparr>ep_serving := ServerDropped\<rparr>)
      | _ \<Rightarrow> ep)"

definition handler_answers ::
  "(TransportError + 'resp) \<Rightarrow> bool \<Rightarrow> ('req, 'resp) endpoint \<Rightarrow> ('req, 'resp) endpoint \<times> ('req, 'resp) Message list" where
  "handler_answers resp sent ep =
     (case ep_serving ep of
        Handling req idx \<Rightarrow>
          (ep\<lparr>ep_serving := Idle, ep_handled := ep_handled ep @ [(idx, req, resp)]\<rparr>,
           if sent then answer_request idx True (Some resp) else [])
      | _ \<Rightarrow> (ep, []))"

text \<open>A message arrives: its task hands it to the server or to the request manager.\<close>

definition arrive :: "('req, 'resp) Message \<Rightarrow> ('req, 'resp) endpoint \<Rightarrow> ('req, 'resp) endpoint result" where
  "arrive msg ep =
     rbind (on_message Some msg) (\<lambda>task. Inr (
       case task of
         AskServer idx req \<Rightarrow>
           if ep_open ep \<and> ep_serving ep \<noteq> ServerDropped then ep\<lparr>ep_queue := ep_queue ep @ [(req, idx)]\<rparr> else ep
       | ToClient resp \<Rightarrow>
           if ep_open ep \<and> ep_manager ep \<noteq> None then ep\<lparr>ep_responses := ep_responses ep @ [resp]\<rparr> else ep))"

text \<open>The callback for a lost data channel closes all three channels.\<close>

definition on_close :: "('req, 'resp) endpoint \<Rightarrow> ('req, 'resp) endpoint" where
  "on_close ep = ep\<lparr>ep_open := False\<rparr>"

section \<open>The connection\<close>

datatype side = LeftEnd | RightEnd

fun other :: "side \<Rightarrow> side" where
  "other LeftEnd = RightEnd"
| "other RightEnd = LeftEnd"

text \<open>\<open>wire c s\<close> are the messages on their way to the end \<open>s\<close>; any of them may arrive next, or never.\<close>

record ('req, 'resp) connection =
  ends :: "side \<Rightarrow> ('req, 'resp) endpoint"
  wire :: "side \<Rightarrow> ('req, 'resp) Message list"

definition conn_start :: "u64 \<Rightarrow> u64 \<Rightarrow> ('req, 'resp) connection" where
  "conn_start a b = \<lparr>ends = (\<lambda>s. endpoint_start (case s of LeftEnd \<Rightarrow> b | RightEnd \<Rightarrow> a)), wire = (\<lambda>_. [])\<rparr>"

datatype ('req, 'resp) conn_action =
    MakeCall side 'req
  | PollRequests side "JsValue option"
  | PollResponses side
  | PollTimer side nat
  | ServeNext side
  | HandlerAnswers side "TransportError + 'resp" bool
  | MessageArrives side nat
  | MessageLost side nat
  | OnClose side

definition at_end ::
  "side \<Rightarrow> ('req, 'resp) connection \<Rightarrow> ('req, 'resp) endpoint \<times> ('req, 'resp) Message list \<Rightarrow> ('req, 'resp) connection" where
  "at_end s c r =
     c\<lparr>ends := (ends c)(s := fst r), wire := (wire c)(other s := wire c (other s) @ snd r)\<rparr>"

definition off_wire :: "side \<Rightarrow> nat \<Rightarrow> ('req, 'resp) connection \<Rightarrow> ('req, 'resp) connection" where
  "off_wire s n c = c\<lparr>wire := (wire c)(s := take n (wire c s) @ drop (Suc n) (wire c s))\<rparr>"

fun conn_step :: "('req, 'resp) connection \<Rightarrow> ('req, 'resp) conn_action \<Rightarrow> ('req, 'resp) connection result" where
  "conn_step c (MakeCall s req) = Inr (at_end s c (start_call req (ends c s), []))"
| "conn_step c (PollRequests s dc) = rbind (poll_requests dc (ends c s)) (\<lambda>r. Inr (at_end s c r))"
| "conn_step c (PollResponses s) = rbind (poll_responses (ends c s)) (\<lambda>r. Inr (at_end s c r))"
| "conn_step c (PollTimer s n) = rbind (poll_timer n (ends c s)) (\<lambda>r. Inr (at_end s c r))"
| "conn_step c (ServeNext s) = Inr (at_end s c (serve_next (ends c s), []))"
| "conn_step c (HandlerAnswers s resp sent) = Inr (at_end s c (handler_answers resp sent (ends c s)))"
| "conn_step c (MessageArrives s n) =
     (if n < length (wire c s)
      then rbind (arrive (wire c s ! n) (ends c s)) (\<lambda>ep. Inr (at_end s (off_wire s n c) (ep, [])))
      else Inr c)"
| "conn_step c (MessageLost s n) = Inr (off_wire s n c)"
| "conn_step c (OnClose s) = Inr (at_end s c (on_close (ends c s), []))"

abbreviation conn_run :: "('req, 'resp) connection \<Rightarrow> ('req, 'resp) conn_action list \<Rightarrow> ('req, 'resp) connection result" where
  "conn_run \<equiv> rfold conn_step"

end
