(* ===== verification/ConnectionRuns.thy ===== *)
theory ConnectionRuns
  imports Connection "HOL-Library.Multiset"
begin

text \<open>
  What holds of a connection in every reachable state: every call is answered at most once, and what
  comes from the other side is what its server answered to that very call.
\<close>

section \<open>What the request manager does to its table\<close>

lemma ring_take:
  assumes "ring_ok b"
  obtains b' where "remove b i = Inr (contents b i, b')" "ring_ok b'" "contents b' = (contents b)(i := None)"
    "next_idx b' = next_idx b"
  using ring.take_spec [OF assms, of i] remove_next_idx by metis

lemma ring_put:
  assumes "ring_ok b" and "next_idx b \<noteq> - 1"
  obtains "add b v = Inr (Inl (Overflow v), b)"
  | b' where "add b v = Inr (Inr (next_idx b), b')" "ring_ok b'" "contents b (next_idx b) = None"
      "contents b' = (contents b)(next_idx b \<mapsto> v)" "next_idx b' = next_idx b + 1"
proof (cases "unat (next_idx b) - unat (min_idx b) < unat (capacity b)")
  case True
  have "contents b (next_idx b) = None"
    using contents_window(2) [OF assms(1), of "next_idx b"] by (cases "contents b (next_idx b)") auto
  with add_room [OF assms(1) True assms(2), of v] that(2) show ?thesis by metis
next
  case False
  with add_full [OF assms(1), of v] that(1) show ?thesis by simp
qed

lemma messages_of_simps [simp]:
  "messages_of [] = []"
  "messages_of (SendMessage msg # out) = msg # messages_of out"
  "messages_of (StartTimer i # out) = messages_of out"
  "messages_of (Reply tx r # out) = messages_of out"
  by (simp_all add: messages_of_def List.map_filter_simps)

lemma replies_of_simps [simp]:
  "replies_of [] = []"
  "replies_of (SendMessage msg # out) = replies_of out"
  "replies_of (StartTimer i # out) = replies_of out"
  "replies_of (Reply tx r # out) = (tx, r) # replies_of out"
  by (simp_all add: replies_of_def List.map_filter_simps)

text \<open>The values of the table, which are dropped with it.\<close>

lemma values_of_contents:
  assumes "ring_ok b"
  shows "set (values_of b) = ran (contents b)"
proof -
  note d = ring_okD [OF assms]
  have slot: "data b ! i = Some (t, v) \<Longrightarrow> i < length (data b) \<Longrightarrow> unat t mod unat (capacity b) = i" for i t v
    using ring_ok_slot(3) [OF assms, of i t v] d(3) by simp
  show ?thesis
  proof (intro set_eqI iffI)
    fix v
    assume "v \<in> set (values_of b)"
    then obtain i t where "i < length (data b)" "data b ! i = Some (t, v)"
      by (auto simp: values_of_def List.map_filter_def in_set_conv_nth)
    with slot [OF this(2,1)] show "v \<in> ran (contents b)" by (auto simp: contents_def ran_def intro!: exI [of _ t])
  next
    fix v
    assume "v \<in> ran (contents b)"
    then obtain t where "data b ! (unat t mod unat (capacity b)) = Some (t, v)"
      by (auto simp: contents_def ran_def split: option.splits if_splits)
    moreover have "unat t mod unat (capacity b) < length (data b)" using d(2,3) by simp
    ultimately have "Some (t, v) \<in> set (data b)" by (metis nth_mem)
    then show "v \<in> set (values_of b)" by (force simp: values_of_def List.map_filter_def)
  qed
qed

lemma values_of_distinct:
  assumes "ring_ok b" and "inj_on (contents b) (dom (contents b))"
  shows "distinct (values_of b)"
proof -
  note d = ring_okD [OF assms(1)]
  have in_contents: "i < length (data b) \<Longrightarrow> data b ! i = Some (t, v) \<Longrightarrow> contents b t = Some v" for i t v
    using ring_ok_slot(3) [OF assms(1), of i t v] d(3) by (simp add: contents_def)
  have "distinct (List.map_filter (map_option snd) xs)"
    if "\<And>i j t u v. i < length xs \<Longrightarrow> j < length xs \<Longrightarrow> xs ! i = Some (t, v) \<Longrightarrow> xs ! j = Some (u, v) \<Longrightarrow> i = j"
    for xs :: "(usize \<times> 'a) option list"
    using that
  proof (induction xs)
    case (Cons x xs)
    have IH: "distinct (List.map_filter (map_option snd) xs)"
      by (rule Cons.IH) (use Cons.prems [of "Suc _" "Suc _"] in fastforce)
    show ?case
    proof (cases x)
      case (Some p)
      have "snd p \<notin> set (List.map_filter (map_option snd) xs)"
      proof
        assume "snd p \<in> set (List.map_filter (map_option snd) xs)"
        then obtain j u where "j < length xs" "xs ! j = Some (u, snd p)"
          by (auto simp: List.map_filter_def in_set_conv_nth)
        with Cons.prems [of 0 "Suc j" "fst p" "snd p" u] Some show False by simp
      qed
      with IH Some show ?thesis by (simp add: List.map_filter_simps)
    qed (use IH in \<open>simp add: List.map_filter_simps\<close>)
  qed (simp add: List.map_filter_simps)
  moreover have "i = j" if "i < length (data b)" "j < length (data b)" "data b ! i = Some (t, v)" "data b ! j = Some (u, v)"
    for i j t u v
  proof -
    have "t = u" using assms(2) in_contents [OF that(1,3)] in_contents [OF that(2,4)]
      by (auto simp: inj_on_def dom_def)
    with ring_ok_slot(3) [OF assms(1), of i t v] ring_ok_slot(3) [OF assms(1), of j u v] that d(3) show ?thesis by simp
  qed
  ultimately show ?thesis unfolding values_of_def by blast
qed

section \<open>The invariant of one direction\<close>

text \<open>The failures that the calling side itself reports.\<close>

fun transport_failure :: "TransportError + 'resp \<Rightarrow> bool" where
  "transport_failure (Inl TransportUnavailable) = False"
| "transport_failure (Inl _) = True"
| "transport_failure (Inr _) = False"

definition inflight :: "('req, 'resp) endpoint \<Rightarrow> usize \<rightharpoonup> nat" where
  "inflight ep = (case ep_manager ep of None \<Rightarrow> Map.empty | Some m \<Rightarrow> contents (in_flight m))"

text \<open>
  A call is in the channel to the request manager, or waits under a ticket, or has been answered;
  \<open>T\<close> is the call that a ticket was given to.
\<close>

definition settled :: "('req, 'resp) endpoint \<Rightarrow> nat list" where
  "settled ep = map fst (ep_answers ep) @ map snd (ep_requests ep)"

definition calls_counted :: "(usize \<rightharpoonup> nat) \<Rightarrow> ('req, 'resp) endpoint \<Rightarrow> bool" where
  "calls_counted T ep \<longleftrightarrow> distinct (settled ep) \<and> set (settled ep) \<inter> ran (inflight ep) = {}
     \<and> set (settled ep) \<union> ran (inflight ep) = {..<length (ep_issued ep)}
     \<and> set (map snd (ep_requests ep)) \<inter> ran T = {}
     \<and> (\<forall>(req, k) \<in> set (ep_requests ep). ep_issued ep ! k = req)
     \<and> (ep_manager ep = None \<longrightarrow> ep_requests ep = [])"

definition tickets_ok :: "(usize \<rightharpoonup> nat) \<Rightarrow> ('req, 'resp) endpoint \<Rightarrow> bool" where
  "tickets_ok T ep \<longleftrightarrow> inj_on T (dom T) \<and> ran T \<subseteq> {..<length (ep_issued ep)} \<and> inflight ep \<subseteq>\<^sub>m T
     \<and> (\<forall>m. ep_manager ep = Some m \<longrightarrow> ring_ok (in_flight m) \<and> dom T \<subseteq> {i. i < next_idx (in_flight m)}
          \<and> unat (next_idx (in_flight m)) + length (ep_requests ep) \<le> length (ep_issued ep))"

text \<open>
  \<open>served\<close> are the requests that are on their way to the server, that it holds or that it has
  answered; \<open>outs\<close> are its answers, and \<open>resps\<close> those on the way back.
\<close>

definition served_ok :: "(usize \<rightharpoonup> nat) \<Rightarrow> 'req list \<Rightarrow> (usize \<times> 'req) list \<Rightarrow> bool" where
  "served_ok T issued served \<longleftrightarrow> distinct (map fst served)
     \<and> (\<forall>(i, req) \<in> set served. \<exists>k. T i = Some k \<and> issued ! k = req)"

definition answers_ok ::
  "(usize \<rightharpoonup> nat) \<Rightarrow> (nat \<times> (TransportError + 'resp)) list \<Rightarrow> (usize \<times> (TransportError + 'resp)) set \<Rightarrow> bool" where
  "answers_ok T answers outs \<longleftrightarrow>
     (\<forall>(k, r) \<in> set answers. transport_failure r \<or> (\<exists>i. T i = Some k \<and> (i, r) \<in> outs))"

definition dir_ok ::
  "(usize \<rightharpoonup> nat) \<Rightarrow> ('req, 'resp) endpoint \<Rightarrow> (usize \<times> 'req) list \<Rightarrow>
   (usize \<times> (TransportError + 'resp)) set \<Rightarrow> (usize \<times> (TransportError + 'resp)) set \<Rightarrow> bool" where
  "dir_ok T ep served outs resps \<longleftrightarrow> calls_counted T ep \<and> tickets_ok T ep
     \<and> served_ok T (ep_issued ep) served \<and> resps \<subseteq> outs \<and> answers_ok T (ep_answers ep) outs"

text \<open>What the other side and the network do keeps it.\<close>

lemma served_ok_sub:
  assumes "served_ok T issued served" and "mset served' \<subseteq># mset served"
  shows "served_ok T issued served'"
proof -
  have sub: "mset (map fst served') \<subseteq># mset (map fst served)"
    using image_mset_subseteq_mono [OF assms(2), of fst] by simp
  have "distinct (map fst served)" using assms(1) by (simp add: served_ok_def)
  then have "count (mset (map fst served)) i \<le> 1" for i by (simp add: distinct_count_atmost_1)
  with sub have "count (mset (map fst served')) i \<le> 1" for i by (meson mset_subset_eq_count order_trans)
  then have "distinct (map fst served')"
    by (metis count_mset_0_iff distinct_count_atmost_1 le_neq_implies_less less_one)
  moreover have "set served' \<subseteq> set served" using assms(2) by (metis set_mset_mono set_mset_mset)
  ultimately show ?thesis using assms(1) unfolding served_ok_def by auto
qed

lemma dir_ok_mono:
  assumes "dir_ok T ep served outs resps" and "mset served' \<subseteq># mset served"
    and "outs \<subseteq> outs'" and "resps' \<subseteq> outs'"
  shows "dir_ok T ep served' outs' resps'"
  using assms served_ok_sub [OF _ assms(2)] unfolding dir_ok_def answers_ok_def by fast

lemma served_ok_issued:
  assumes "served_ok T issued served" and "ran T \<subseteq> {..<length issued}"
  shows "served_ok T (issued @ reqs) served"
proof -
  have "T i = Some k \<Longrightarrow> k < length issued" for i k using assms(2) by (auto simp: ran_def)
  then show ?thesis using assms(1) unfolding served_ok_def by (force simp: nth_append)
qed

section \<open>The caller's steps\<close>

lemma start_call_ok:
  assumes "dir_ok T ep served outs resps"
  shows "dir_ok T (start_call req ep) served outs resps"
proof -
  let ?ep = "start_call req ep" and ?n = "length (ep_issued ep)"
  have issued: "ep_issued ?ep = ep_issued ep @ [req]" and table: "inflight ?ep = inflight ep"
    and man: "ep_manager ?ep = ep_manager ep"
    by (auto simp: start_call_def Let_def inflight_def split: prod.splits)
  note def = start_call_def [of req ep] call_def [of "ep_client ep"]
  have kind: "ep_requests ?ep = ep_requests ep @ [(req, ?n)] \<and> ep_answers ?ep = ep_answers ep \<and> ep_manager ep \<noteq> None
      \<or> ep_requests ?ep = ep_requests ep \<and> ep_answers ?ep = ep_answers ep @ [(?n, Inl Disconnected)]"
    by (cases "connected (ep_client ep)"; cases "ep_open ep"; cases "ep_manager ep") (simp_all add: def Let_def)
  have c: "calls_counted T ep" and t: "tickets_ok T ep" using assms by (simp_all add: dir_ok_def)
  have below: "k < ?n" if "(r, k) \<in> set (ep_requests ep)" for r k
  proof -
    have "k \<in> set (settled ep)" using that by (force simp: settled_def)
    with c show ?thesis unfolding calls_counted_def by blast
  qed
  have fresh: "?n \<notin> set (settled ep)" "?n \<notin> ran (inflight ep)" using c by (auto simp: calls_counted_def)
  have "?n \<notin> ran T" using t by (auto simp: tickets_ok_def)
  with c kind fresh below have "calls_counted T ?ep"
    unfolding calls_counted_def settled_def issued table man
    by (elim disjE) (auto simp: nth_append lessThan_Suc)
  moreover have "tickets_ok T ?ep" using t kind unfolding tickets_ok_def issued table man by auto
  moreover have "served_ok T (ep_issued ?ep) served"
    unfolding issued by (rule served_ok_issued) (use assms t in \<open>simp_all add: dir_ok_def tickets_ok_def\<close>)
  moreover have "answers_ok T (ep_answers ?ep) outs"
    using kind assms by (elim disjE) (simp_all add: dir_ok_def answers_ok_def)
  ultimately show ?thesis using assms by (simp add: dir_ok_def)
qed

text \<open>A ticket is taken out, and its call answered.\<close>

lemma map_le_Some: "m \<subseteq>\<^sub>m T \<Longrightarrow> m i = Some k \<Longrightarrow> T i = Some k"
  by (metis domI map_le_def)

lemma inj_map_le:
  assumes "inj_on T (dom T)" and "m \<subseteq>\<^sub>m T" and "m i = Some k" and "m j = Some k"
  shows "j = i"
  using map_le_Some [OF assms(2,3)] map_le_Some [OF assms(2,4)] by (intro inj_onD [OF assms(1)]) auto

lemma ran_take_out:
  assumes "inj_on T (dom T)" and "c \<subseteq>\<^sub>m T" and "c i = Some k"
  shows "ran (c(i := None)) = ran c - {k}"
proof -
  have "j = i" if "c j = Some k" for j
    using assms(1,2,3) that by (rule inj_map_le)
  moreover have "k \<notin> ran (c(i := None))" if "\<And>j. c j = Some k \<Longrightarrow> j = i"
    using that by (auto simp: ran_def split: if_splits)
  moreover have "ran (c(i := None)) \<subseteq> ran c" by (auto simp: ran_def split: if_splits)
  moreover have "ran c - {k} \<subseteq> ran (c(i := None))"
  proof
    fix x
    assume "x \<in> ran c - {k}"
    then obtain j where "c j = Some x" "x \<noteq> k" by (auto simp: ran_def)
    moreover have "j \<noteq> i" using calculation assms(3) by auto
    ultimately show "x \<in> ran (c(i := None))" by (auto simp: ran_def)
  qed
  ultimately show ?thesis by blast
qed

lemma answered_ok:
  assumes "dir_ok T ep served outs resps" and "ep_manager ep = Some m"
    and "ring_ok b" and "contents b = (contents (in_flight m))(i := None)" and "next_idx b = next_idx (in_flight m)"
    and "contents (in_flight m) i = Some k" and "transport_failure r \<or> (i, r) \<in> outs"
    and "ep' = ep\<lparr>ep_manager := Some (m\<lparr>in_flight := b\<rparr>), ep_answers := ep_answers ep @ [(k, r)]\<rparr>"
  shows "dir_ok T ep' served outs resps"
proof -
  have c: "calls_counted T ep" and t: "tickets_ok T ep" using assms(1) by (simp_all add: dir_ok_def)
  have tab: "inflight ep = contents (in_flight m)" "inflight ep' = (inflight ep)(i := None)"
    using assms(2,4,8) by (simp_all add: inflight_def)
  from t have inj: "inj_on T (dom T)" and sub: "inflight ep \<subseteq>\<^sub>m T" by (simp_all add: tickets_ok_def)
  have i: "inflight ep i = Some k" "T i = Some k"
    using assms(6) map_le_Some [OF sub] by (simp_all add: tab(1))
  have r: "ran (inflight ep') = ran (inflight ep) - {k}"
    unfolding tab(2) by (rule ran_take_out [OF inj sub i(1)])
  have k: "k \<in> ran (inflight ep)" using i(1) by (rule ranI)
  have "calls_counted T ep'" using c k unfolding calls_counted_def r settled_def by (auto simp: assms(8))
  moreover have "tickets_ok T ep'" using t assms(2,3,5)
    unfolding tickets_ok_def tab(2) by (auto simp: assms(8) map_le_def)
  moreover have "answers_ok T (ep_answers ep') outs"
    using assms(1,7,8) i(2) by (auto simp: dir_ok_def answers_ok_def)
  ultimately show ?thesis using assms(1) by (simp add: dir_ok_def assms(8))
qed

lemma stop_manager_ok:
  assumes "dir_ok T ep served outs resps" and "ep_manager ep = Some m"
  shows "dir_ok T (stop_manager ep m) served outs resps"
proof -
  let ?ep = "stop_manager ep m"
  have c: "calls_counted T ep" and t: "tickets_ok T ep" using assms(1) by (simp_all add: dir_ok_def)
  from t assms(2) have ring: "ring_ok (in_flight m)" and sub: "contents (in_flight m) \<subseteq>\<^sub>m T" "inj_on T (dom T)"
    by (simp_all add: tickets_ok_def inflight_def)
  have "inj_on (contents (in_flight m)) (dom (contents (in_flight m)))"
    using inj_map_le [OF sub(2,1)] by (auto simp: inj_on_def)
  then have v: "distinct (values_of (in_flight m))" "set (values_of (in_flight m)) = ran (inflight ep)"
    using values_of_distinct [OF ring] values_of_contents [OF ring] assms(2) by (simp_all add: inflight_def)
  have "settled ?ep = settled ep @ values_of (in_flight m)" "inflight ?ep = Map.empty"
    by (simp_all add: stop_manager_def settled_def inflight_def comp_def)
  with c v have "calls_counted T ?ep" unfolding calls_counted_def by (auto simp: stop_manager_def)
  moreover have "tickets_ok T ?ep" using t by (simp add: tickets_ok_def stop_manager_def inflight_def)
  moreover have "answers_ok T (ep_answers ?ep) outs"
    using assms(1) by (auto simp: dir_ok_def answers_ok_def stop_manager_def await_answer_def)
  ultimately show ?thesis using assms(1) by (simp add: dir_ok_def stop_manager_def)
qed

lemma dir_ok_fields [simp]:
  "dir_ok T (ep\<lparr>ep_responses := xs\<rparr>) = dir_ok T ep"
  "dir_ok T (ep\<lparr>ep_timers := is\<rparr>) = dir_ok T ep"
  "dir_ok T (ep\<lparr>ep_queue := q\<rparr>) = dir_ok T ep"
  "dir_ok T (ep\<lparr>ep_serving := sv\<rparr>) = dir_ok T ep"
  "dir_ok T (ep\<lparr>ep_handled := h\<rparr>) = dir_ok T ep"
  "dir_ok T (ep\<lparr>ep_open := b\<rparr>) = dir_ok T ep"
  by (simp_all add: fun_eq_iff dir_ok_def calls_counted_def tickets_ok_def settled_def inflight_def)

text \<open>What a caller's step leaves alone.\<close>

definition server_part :: "('req, 'resp) endpoint \<Rightarrow> ('req \<times> usize) list \<times> 'req serve_loop \<times> (usize \<times> 'req \<times> (TransportError + 'resp)) list" where
  "server_part ep = (ep_queue ep, ep_serving ep, ep_handled ep)"

definition requests_in :: "('req, 'resp) Message list \<Rightarrow> (usize \<times> 'req) list" where
  "requests_in msgs = List.map_filter (\<lambda>msg. case msg of Request i req \<Rightarrow> Some (i, req) | Response _ _ \<Rightarrow> None) msgs"

definition responses_in :: "('req, 'resp) Message list \<Rightarrow> (usize \<times> (TransportError + 'resp)) list" where
  "responses_in msgs = List.map_filter (\<lambda>msg. case msg of Request _ _ \<Rightarrow> None | Response i r \<Rightarrow> Some (i, r)) msgs"

lemma messages_in_simps [simp]:
  "requests_in [] = []" "responses_in [] = []"
  "requests_in (Request i req # msgs) = (i, req) # requests_in msgs"
  "requests_in (Response i r # msgs) = requests_in msgs"
  "responses_in (Request i req # msgs) = responses_in msgs"
  "responses_in (Response i r # msgs) = (i, r) # responses_in msgs"
  "requests_in (msgs @ msgs') = requests_in msgs @ requests_in msgs'"
  "responses_in (msgs @ msgs') = responses_in msgs @ responses_in msgs'"
  by (simp_all add: requests_in_def responses_in_def List.map_filter_def)

lemma take_out_ok:
  assumes "dir_ok T ep served outs resps" and "ep_manager ep = Some m"
    and "transport_failure r \<or> (i, r) \<in> outs"
  obtains b where "remove (in_flight m) i = Inr (contents (in_flight m) i, b)"
    "\<And>k. contents (in_flight m) i = Some k \<Longrightarrow>
       dir_ok T (ep\<lparr>ep_manager := Some (m\<lparr>in_flight := b\<rparr>), ep_answers := ep_answers ep @ [(k, r)]\<rparr>) served outs resps"
    "contents (in_flight m) i = None \<Longrightarrow> dir_ok T (ep\<lparr>ep_manager := Some (m\<lparr>in_flight := b\<rparr>)\<rparr>) served outs resps"
proof -
  have t: "tickets_ok T ep" using assms(1) by (simp add: dir_ok_def)
  with assms(2) have ok: "ring_ok (in_flight m)" by (simp add: tickets_ok_def)
  obtain b where b: "remove (in_flight m) i = Inr (contents (in_flight m) i, b)" "ring_ok b"
    "contents b = (contents (in_flight m))(i := None)" "next_idx b = next_idx (in_flight m)"
    by (rule ring_take [OF ok])
  show ?thesis
  proof (rule that [OF b(1)])
    show "dir_ok T (ep\<lparr>ep_manager := Some (m\<lparr>in_flight := b\<rparr>), ep_answers := ep_answers ep @ [(k, r)]\<rparr>) served outs resps"
      if "contents (in_flight m) i = Some k" for k
      by (rule answered_ok [OF assms(1,2) b(2,3,4) that assms(3) refl])
  next
    assume none: "contents (in_flight m) i = None"
    let ?ep = "ep\<lparr>ep_manager := Some (m\<lparr>in_flight := b\<rparr>)\<rparr>"
    have "inflight ?ep = inflight ep" using none b(3) assms(2) by (simp add: inflight_def fun_upd_idem)
    then show "dir_ok T ?ep served outs resps"
      using assms(1,2) b(2,4) by (simp add: dir_ok_def calls_counted_def tickets_ok_def settled_def)
  qed
qed

lemmas poll_simps = poll_requests_def poll_responses_def poll_timer_def manager_step_def handle_request_def
  handle_response_def handle_timeout_def managed_def timers_of_def List.map_filter_simps server_part_def await_answer_def

lemma poll_responses_ok:
  assumes "dir_ok T ep served outs resps" and "set (responses_in (ep_responses ep)) \<subseteq> outs"
  obtains ep' where "poll_responses ep = Inr (ep', [])" "dir_ok T ep' served outs resps"
    "set (ep_responses ep') \<subseteq> set (ep_responses ep)" "server_part ep' = server_part ep"
proof (cases "ep_manager ep")
  case None
  with that [of ep] assms(1) show ?thesis by (simp add: poll_responses_def)
next
  case (Some m)
  note man = this
  show ?thesis
  proof (cases "ep_responses ep")
    case Nil
    with that [of "if ep_open ep then ep else stop_manager ep m"] stop_manager_ok [OF assms(1) Some] assms(1) Some
    show ?thesis by (simp add: poll_responses_def stop_manager_def server_part_def)
  next
    case (Cons msg rest)
    show ?thesis
    proof (cases msg)
      case (Request i req)
      with that [of "ep\<lparr>ep_responses := rest\<rparr>"] Cons Some assms(1) show ?thesis
        by (auto simp: poll_simps)
    next
      case (Response i r)
      with assms(2) Cons have r: "transport_failure r \<or> (i, r) \<in> outs" by simp
      obtain b where b: "remove (in_flight m) i = Inr (contents (in_flight m) i, b)"
        "\<And>k. contents (in_flight m) i = Some k \<Longrightarrow>
           dir_ok T (ep\<lparr>ep_manager := Some (m\<lparr>in_flight := b\<rparr>), ep_answers := ep_answers ep @ [(k, r)]\<rparr>) served outs resps"
        "contents (in_flight m) i = None \<Longrightarrow> dir_ok T (ep\<lparr>ep_manager := Some (m\<lparr>in_flight := b\<rparr>)\<rparr>) served outs resps"
        using take_out_ok [OF assms(1) Some r] by metis
      show ?thesis
      proof (cases "contents (in_flight m) i")
        case None
        show ?thesis
          by (rule that [of "ep\<lparr>ep_manager := Some (m\<lparr>in_flight := b\<rparr>)\<rparr>\<lparr>ep_responses := rest\<rparr>"])
            (use None Cons man Response b in \<open>simp_all add: poll_simps\<close>, auto)
      next
        case (Some k)
        show ?thesis
          by (rule that [of "ep\<lparr>ep_manager := Some (m\<lparr>in_flight := b\<rparr>), ep_answers := ep_answers ep @ [(k, r)]\<rparr>\<lparr>ep_responses := rest\<rparr>"])
            (use Some Cons man Response b in \<open>simp_all add: poll_simps\<close>, auto)
      qed
    qed
  qed
qed

lemma poll_timer_ok:
  assumes "dir_ok T ep served outs resps"
  obtains ep' where "poll_timer n ep = Inr (ep', [])" "dir_ok T ep' served outs resps"
    "ep_responses ep' = ep_responses ep" "server_part ep' = server_part ep"
proof (cases "n < length (ep_timers ep)")
  case False
  with that [of ep] assms show ?thesis by (simp add: poll_timer_def)
next
  case n: True
  let ?i = "ep_timers ep ! n" and ?r = "Inl RequestTimeout :: TransportError + 'b"
  let ?ts = "take n (ep_timers ep) @ drop (Suc n) (ep_timers ep)"
  show ?thesis
  proof (cases "ep_manager ep")
    case None
    with that [of "ep\<lparr>ep_timers := ?ts\<rparr>"] n assms show ?thesis by (simp add: poll_simps)
  next
    case man: (Some m)
    obtain b where b: "remove (in_flight m) ?i = Inr (contents (in_flight m) ?i, b)"
      "\<And>k. contents (in_flight m) ?i = Some k \<Longrightarrow>
         dir_ok T (ep\<lparr>ep_manager := Some (m\<lparr>in_flight := b\<rparr>), ep_answers := ep_answers ep @ [(k, ?r)]\<rparr>) served outs resps"
      "contents (in_flight m) ?i = None \<Longrightarrow> dir_ok T (ep\<lparr>ep_manager := Some (m\<lparr>in_flight := b\<rparr>)\<rparr>) served outs resps"
      using take_out_ok [OF assms man, of ?r ?i] by (metis transport_failure.simps(3))
    show ?thesis
    proof (cases "contents (in_flight m) ?i")
      case None
      show ?thesis
        by (rule that [of "ep\<lparr>ep_manager := Some (m\<lparr>in_flight := b\<rparr>)\<rparr>\<lparr>ep_timers := ?ts\<rparr>"])
          (use None n man b in \<open>simp_all add: poll_simps Let_def\<close>)
    next
      case (Some k)
      show ?thesis
        by (rule that [of "ep\<lparr>ep_manager := Some (m\<lparr>in_flight := b\<rparr>), ep_answers := ep_answers ep @ [(k, ?r)]\<rparr>\<lparr>ep_timers := ?ts\<rparr>"])
          (use Some n man b in \<open>simp_all add: poll_simps Let_def\<close>)
    qed
  qed
qed

text \<open>A request gets the next ticket; it is sent, or answered at once.\<close>

lemma answers_ok_le: "answers_ok T answers outs \<Longrightarrow> T \<subseteq>\<^sub>m T' \<Longrightarrow> answers_ok T' answers outs"
  unfolding answers_ok_def using map_le_Some by fast

lemma ticket_ok:
  assumes "dir_ok T ep served outs resps" and "ep_manager ep = Some m" and "ep_requests ep = (req, k) # rest"
    and "ring_ok b" and "contents b = (contents (in_flight m))(i \<mapsto> k)" and "next_idx b = i + 1"
    and "i = next_idx (in_flight m)" and "i \<noteq> - 1"
    and ep': "ep' = ep\<lparr>ep_requests := rest, ep_manager := Some (m\<lparr>in_flight := b\<rparr>)\<rparr>"
  shows "dir_ok (T(i \<mapsto> k)) ep' (served @ [(i, req)]) outs resps"
proof -
  let ?T = "T(i \<mapsto> k)"
  have c: "calls_counted T ep" and t: "tickets_ok T ep" and s: "served_ok T (ep_issued ep) served"
    and a: "answers_ok T (ep_answers ep) outs" using assms(1) by (simp_all add: dir_ok_def)
  from t assms(2,7) have dom: "dom T \<subseteq> {j. j < i}" by (simp add: tickets_ok_def)
  then have new: "T i = None" by auto
  have sub: "contents (in_flight m) \<subseteq>\<^sub>m T" using t assms(2) by (simp add: tickets_ok_def inflight_def)
  with new have "contents (in_flight m) i = None" by (metis map_le_Some not_None_eq)
  then have tab: "inflight ep' = (inflight ep)(i \<mapsto> k)" "ran (inflight ep') = insert k (ran (inflight ep))"
    using assms(2,5) by (simp_all add: ep' inflight_def)
  have k: "k \<notin> ran T" "ep_issued ep ! k = req" using c assms(3) by (auto simp: calls_counted_def)
  have "k \<in> set (settled ep)" using assms(3) by (simp add: settled_def)
  then have kn: "k < length (ep_issued ep)" using c unfolding calls_counted_def by blast
  have ran: "ran ?T = insert k (ran T)" using new by simp
  have d: "distinct (settled ep)" and disj: "set (settled ep) \<inter> ran (inflight ep) = {}"
    and all: "set (settled ep) \<union> ran (inflight ep) = {..<length (ep_issued ep)}"
    and q: "set (map snd (ep_requests ep)) \<inter> ran T = {}"
    using c by (simp_all add: calls_counted_def)
  have set: "set (settled ep) = insert k (set (settled ep'))" and d': "distinct (settled ep')" "k \<notin> set (settled ep')"
    using d assms(3) by (auto simp: settled_def ep')
  have kr: "k \<notin> snd ` set rest" using d assms(3) by (simp add: settled_def)
  have "calls_counted ?T ep'" unfolding calls_counted_def tab(2) ran
  proof (intro conjI)
    show "set (settled ep') \<inter> insert k (ran (inflight ep)) = {}" using disj set d'(2) by blast
    show "set (settled ep') \<union> insert k (ran (inflight ep)) = {..<length (ep_issued ep')}"
      using all set by (simp add: ep')
    show "set (map snd (ep_requests ep')) \<inter> insert k (ran T) = {}" using q kr assms(3) by (auto simp: ep')
    show "\<forall>(req, k) \<in> set (ep_requests ep'). ep_issued ep' ! k = req"
      using c assms(3) by (simp add: ep' calls_counted_def)
  qed (use d'(1) in \<open>simp_all add: ep'\<close>)
  moreover have "tickets_ok ?T ep'"
  proof -
    have "inj_on ?T (dom ?T)"
      using t k(1) new by (auto simp: tickets_ok_def inj_on_def ran_def)
    moreover have "ran ?T \<subseteq> {..<length (ep_issued ep')}" using t kn new by (simp add: tickets_ok_def ep')
    moreover have "inflight ep' \<subseteq>\<^sub>m ?T" using t by (auto simp: tab(1) tickets_ok_def map_le_def)
    moreover have "dom ?T \<subseteq> {j. j < i + 1}" using dom word_less_plus_one [OF assms(8)] by auto
    moreover have "unat (i + 1) + length rest \<le> length (ep_issued ep)"
      using t assms(2,3,7) unat_plus_one [OF assms(8)] by (simp add: tickets_ok_def)
    ultimately show ?thesis using assms(4,6) by (simp add: tickets_ok_def ep')
  qed
  moreover have "served_ok ?T (ep_issued ep') (served @ [(i, req)])"
    using s k(2) new by (fastforce simp: served_ok_def ep')
  moreover have "answers_ok ?T (ep_answers ep') outs"
  proof -
    have "T \<subseteq>\<^sub>m ?T" using new by (auto simp: map_le_def)
    with answers_ok_le [OF a] show ?thesis by (simp add: ep')
  qed
  ultimately show ?thesis using assms(1) by (simp add: dir_ok_def)
qed

lemma refused_ok:
  assumes "dir_ok T ep served outs resps" and "ep_manager ep = Some m" and "ep_requests ep = (req, k) # rest"
    and "ring_ok b" and "contents b = contents (in_flight m)" and "transport_failure r"
    and "next_idx b = next_idx (in_flight m) \<or> next_idx (in_flight m) \<noteq> - 1 \<and> next_idx b = next_idx (in_flight m) + 1"
    and ep': "ep' = ep\<lparr>ep_requests := rest, ep_manager := Some (m\<lparr>in_flight := b\<rparr>), ep_answers := ep_answers ep @ [(k, r)]\<rparr>"
  shows "dir_ok T ep' served outs resps"
proof -
  have c: "calls_counted T ep" and t: "tickets_ok T ep" using assms(1) by (simp_all add: dir_ok_def)
  have tab: "inflight ep' = inflight ep" using assms(2,5) by (simp add: ep' inflight_def)
  have "set (settled ep') = set (settled ep)" "distinct (settled ep) \<Longrightarrow> distinct (settled ep')"
    using assms(3) by (auto simp: settled_def ep')
  then have "calls_counted T ep'" using c assms(3) unfolding calls_counted_def tab by (simp add: ep')
  moreover have "dom T \<subseteq> {j. j < next_idx b}" and "unat (next_idx b) + length rest \<le> length (ep_issued ep)"
    using assms(7)
  proof (atomize(full), elim disjE conjE, goal_cases)
    case 1
    with t assms(2,3) show ?case by (simp add: tickets_ok_def)
  next
    case 2
    have "dom T \<subseteq> {j. j < next_idx (in_flight m)}" using t assms(2) by (simp add: tickets_ok_def)
    with word_less_plus_one [OF 2(1)] have "dom T \<subseteq> {j. j < next_idx b}"
      unfolding 2(2) using order_less_trans by blast
    moreover have "unat (next_idx b) + length rest \<le> length (ep_issued ep)"
      using t assms(2,3) unfolding 2(2) unat_plus_one [OF 2(1)] by (simp add: tickets_ok_def)
    ultimately show ?case by simp
  qed
  then have "tickets_ok T ep'" using t assms(4) unfolding tickets_ok_def tab by (simp add: ep')
  moreover have "answers_ok T (ep_answers ep') outs" using assms(1,6) by (simp add: dir_ok_def answers_ok_def ep')
  ultimately show ?thesis using assms(1) by (simp add: dir_ok_def ep')
qed

lemma poll_requests_ok:
  assumes ok: "dir_ok T ep served outs resps" and "length (ep_issued ep) < 2 ^ 32"
  obtains T' ep' msgs where "poll_requests dc ep = Inr (ep', msgs)"
    "dir_ok T' ep' (served @ requests_in msgs) outs resps" "responses_in msgs = []"
    "set (ep_responses ep') \<subseteq> set (ep_responses ep)" "server_part ep' = server_part ep"
proof (cases "ep_manager ep")
  case None
  with that [of ep "[]" T] ok show ?thesis by (simp add: poll_simps)
next
  case man: (Some m)
  show ?thesis
  proof (cases "ep_requests ep")
    case Nil
    with that [of "if ep_open ep then ep else stop_manager ep m" "[]" T] stop_manager_ok [OF ok man] ok man
    show ?thesis by (simp add: poll_simps stop_manager_def)
  next
    case (Cons p rest)
    obtain req k where p: "p = (req, k)" by force
    note q = Cons [unfolded p]
    let ?i = "next_idx (in_flight m)"
    have t: "tickets_ok T ep" using ok by (simp add: dir_ok_def)
    with man have ring: "ring_ok (in_flight m)" by (simp add: tickets_ok_def)
    have i: "?i \<noteq> - 1" using t man q assms(2) by (auto simp: tickets_ok_def unat_minus_1)
    from ring i show ?thesis
    proof (cases rule: ring_put [of "in_flight m" k])
      case 1
      show ?thesis
        by (rule that [OF _ _ _ _, of "ep\<lparr>ep_requests := rest, ep_manager := Some (m\<lparr>in_flight := in_flight m\<rparr>),
              ep_answers := ep_answers ep @ [(k, Inl TooManyInFlightRequests)]\<rparr>" "[]" T])
          (use 1 q man refused_ok [OF ok man q ring refl _ _ refl] in \<open>simp_all add: poll_simps\<close>)
    next
      case (2 b)
      show ?thesis
      proof (cases dc)
        case None
        show ?thesis
          by (rule that [OF _ _ _ _, of "ep\<lparr>ep_requests := rest, ep_manager := Some (m\<lparr>in_flight := b\<rparr>)\<rparr>
                \<lparr>ep_timers := ep_timers ep @ [?i]\<rparr>" "[Request ?i req]" "T(?i \<mapsto> k)"])
            (use None 2 q man ticket_ok [OF ok man q 2(2,4,5) refl i refl] in \<open>simp_all add: poll_simps Let_def\<close>)
      next
        case (Some err)
        have k: "contents b ?i = Some k" by (simp add: 2(4))
        obtain b' where b': "remove b ?i = Inr (Some k, b')" "ring_ok b'" "contents b' = (contents b)(?i := None)"
          "next_idx b' = next_idx b"
          using ring_take [OF 2(2), of ?i] k by metis
        have same: "contents b' = contents (in_flight m)" using b'(3) 2(3,4) by (simp add: fun_upd_idem)
        have f: "transport_failure (Inl (error_from_js err) :: TransportError + 'b)"
          by (simp add: error_from_js_def split: option.split)
        show ?thesis
          by (rule that [OF _ _ _ _, of "ep\<lparr>ep_requests := rest, ep_manager := Some (m\<lparr>in_flight := b'\<rparr>),
                ep_answers := ep_answers ep @ [(k, Inl (error_from_js err))]\<rparr>" "[]" T])
            (use Some 2 q man b'(1,4) i refused_ok [OF ok man q b'(2) same f _ refl] in \<open>simp_all add: poll_simps Let_def\<close>)
      qed
    qed
  qed
qed

section \<open>The invariant of the connection\<close>

definition served_by :: "('req, 'resp) endpoint \<Rightarrow> (usize \<times> 'req) list" where
  "served_by ep = map (\<lambda>(req, i). (i, req)) (ep_queue ep)
     @ (case ep_serving ep of Handling req i \<Rightarrow> [(i, req)] | _ \<Rightarrow> [])
     @ map (\<lambda>(i, req, r). (i, req)) (ep_handled ep)"

definition outcomes :: "('req, 'resp) endpoint \<Rightarrow> (usize \<times> (TransportError + 'resp)) set" where
  "outcomes ep = (\<lambda>(i, req, r). (i, r)) ` set (ep_handled ep)"

definition calls_from :: "(usize \<rightharpoonup> nat) \<Rightarrow> ('req, 'resp) connection \<Rightarrow> side \<Rightarrow> bool" where
  "calls_from T c s \<longleftrightarrow> dir_ok T (ends c s)
     (requests_in (wire c (other s)) @ served_by (ends c (other s))) (outcomes (ends c (other s)))
     (set (responses_in (wire c s)) \<union> set (responses_in (ep_responses (ends c s))))"

definition link_ok :: "('req, 'resp) connection \<Rightarrow> bool" where
  "link_ok c \<longleftrightarrow> (\<forall>s. \<exists>T. calls_from T c s)"

lemma other_side [simp]: "other (other s) = s" "other s \<noteq> s" "s \<noteq> other s"
  by (cases s; simp)+

lemma all_sides: "(\<forall>s'. P s') \<longleftrightarrow> P s \<and> P (other s)"
  by (cases s) (metis other.simps side.exhaust)+

lemma link_okI: "calls_from T c s \<Longrightarrow> calls_from T' c (other s) \<Longrightarrow> link_ok c"
  unfolding link_ok_def by (subst all_sides [of _ s]) blast

lemma link_okE:
  assumes "link_ok c"
  obtains T T' where "calls_from T c s" "calls_from T' c (other s)"
  using assms unfolding link_ok_def by blast

lemma set_responses_in: "set (responses_in msgs) = {(i, r). Response i r \<in> set msgs}"
  by (induction msgs rule: rev_induct) (auto split: Message.splits simp: responses_in_def List.map_filter_def)

lemma server_part_served:
  "server_part ep' = server_part ep \<Longrightarrow> served_by ep' = served_by ep \<and> outcomes ep' = outcomes ep"
  by (simp add: server_part_def served_by_def outcomes_def)

lemma at_end_simps [simp]:
  "ends (at_end s c r) s = fst r"
  "ends (at_end s c r) (other s) = ends c (other s)"
  "wire (at_end s c r) (other s) = wire c (other s) @ snd r"
  "wire (at_end s c r) s = wire c s"
  by (simp_all add: at_end_def)

text \<open>A step at one end, as its own direction and the other one see it.\<close>

lemma at_end_ok:
  assumes T: "calls_from T c s" and T': "calls_from T' c (other s)"
    and own: "dir_ok T'' ep' ((requests_in (wire c (other s)) @ served_by (ends c (other s))) @ requests_in msgs)
        (outcomes (ends c (other s))) (set (responses_in (wire c s)) \<union> set (responses_in (ep_responses (ends c s))))"
    and resps: "set (ep_responses ep') \<subseteq> set (ep_responses (ends c s))"
    and srv: "mset (served_by ep') \<subseteq># mset (served_by (ends c s))" "outcomes (ends c s) \<subseteq> outcomes ep'"
      "set (responses_in msgs) \<subseteq> outcomes ep'"
  shows "link_ok (at_end s c (ep', msgs))"
proof (rule link_okI)
  let ?c = "at_end s c (ep', msgs)" and ?o = "ends c (other s)"
  from T have sub: "set (responses_in (wire c s)) \<union> set (responses_in (ep_responses (ends c s))) \<subseteq> outcomes ?o"
    by (simp add: calls_from_def dir_ok_def)
  have r: "set (responses_in (ep_responses ep')) \<subseteq> set (responses_in (ep_responses (ends c s)))"
    using resps by (auto simp: set_responses_in)
  from own show "calls_from T'' ?c s" unfolding calls_from_def at_end_simps fst_conv snd_conv
    by (rule dir_ok_mono) (use sub r in auto)
  from T' have T': "dir_ok T' ?o (requests_in (wire c s) @ served_by (ends c s)) (outcomes (ends c s))
      (set (responses_in (wire c (other s))) \<union> set (responses_in (ep_responses ?o)))"
    and sub': "set (responses_in (wire c (other s))) \<union> set (responses_in (ep_responses ?o)) \<subseteq> outcomes (ends c s)"
    by (simp_all add: calls_from_def dir_ok_def)
  show "calls_from T' ?c (other s)"
    unfolding calls_from_def at_end_simps other_side fst_conv snd_conv
    by (rule dir_ok_mono [OF T']) (use srv sub' in auto)
qed

text \<open>Messages that are lost, and messages that arrive.\<close>

lemma messages_without:
  assumes "n < length msgs"
  shows "mset (requests_in msgs) = mset (requests_in [msgs ! n]) + mset (requests_in (take n msgs @ drop (Suc n) msgs))"
    and "set (responses_in msgs) = set (responses_in [msgs ! n]) \<union> set (responses_in (take n msgs @ drop (Suc n) msgs))"
proof -
  have split: "msgs = take n msgs @ [msgs ! n] @ drop (Suc n) msgs"
    using id_take_nth_drop [OF assms] by simp
  show "mset (requests_in msgs) = mset (requests_in [msgs ! n]) + mset (requests_in (take n msgs @ drop (Suc n) msgs))"
    by (subst split) (simp only: messages_in_simps(7) mset_append union_ac)
  show "set (responses_in msgs) = set (responses_in [msgs ! n]) \<union> set (responses_in (take n msgs @ drop (Suc n) msgs))"
    by (subst split) (simp only: messages_in_simps(8) set_append Un_ac)
qed

lemma off_wire_simps [simp]:
  "ends (off_wire s n c) = ends c"
  "wire (off_wire s n c) s = take n (wire c s) @ drop (Suc n) (wire c s)"
  "wire (off_wire s n c) (other s) = wire c (other s)"
  by (simp_all add: off_wire_def)

lemma off_wire_ok:
  assumes "link_ok c"
  shows "link_ok (off_wire s n c)"
proof (cases "n < length (wire c s)")
  case True
  note w = messages_without [OF True]
  obtain T T' where T: "calls_from T c s" and T': "calls_from T' c (other s)" by (rule link_okE [OF assms])
  show ?thesis
  proof (rule link_okI)
    show "calls_from T (off_wire s n c) s" unfolding calls_from_def off_wire_simps
      by (rule dir_ok_mono [OF T [unfolded calls_from_def]]) (use T w(2) in \<open>auto simp: calls_from_def dir_ok_def\<close>)
    show "calls_from T' (off_wire s n c) (other s)" unfolding calls_from_def off_wire_simps other_side
      by (rule dir_ok_mono [OF T' [unfolded calls_from_def other_side]])
        (use T' w(1) in \<open>auto simp: calls_from_def dir_ok_def\<close>)
  qed
next
  case False
  then have "off_wire s n c = c" by (simp add: off_wire_def)
  with assms show ?thesis by simp
qed

lemma arrive_ok:
  assumes ok: "link_ok c" and n: "n < length (wire c s)"
  shows "\<exists>ep. arrive (wire c s ! n) (ends c s) = Inr ep \<and> link_ok (at_end s (off_wire s n c) (ep, []))"
proof -
  note w = messages_without [OF n]
  have same: "at_end s (off_wire s n c) (ends c s, []) = off_wire s n c"
    by (auto simp: at_end_def off_wire_def fun_eq_iff)
  obtain T T' where T: "calls_from T c s" and T': "calls_from T' c (other s)" by (rule link_okE [OF ok])
  show ?thesis
  proof (cases "wire c s ! n")
    case (Request i req)
    let ?ep = "(ends c s)\<lparr>ep_queue := ep_queue (ends c s) @ [(req, i)]\<rparr>"
    have "link_ok (at_end s (off_wire s n c) (?ep, []))"
    proof (rule link_okI)
      show "calls_from T (at_end s (off_wire s n c) (?ep, [])) s"
        unfolding calls_from_def at_end_simps off_wire_simps fst_conv snd_conv dir_ok_fields
        by (rule dir_ok_mono [OF T [unfolded calls_from_def]]) (use T w(2) in \<open>auto simp: calls_from_def dir_ok_def\<close>)
      show "calls_from T' (at_end s (off_wire s n c) (?ep, [])) (other s)"
        unfolding calls_from_def at_end_simps off_wire_simps fst_conv snd_conv other_side
        by (rule dir_ok_mono [OF T' [unfolded calls_from_def other_side]])
          (use T' w(1) Request in \<open>auto simp: calls_from_def dir_ok_def served_by_def outcomes_def union_ac\<close>)
    qed
    with off_wire_ok [OF ok, of s n] show ?thesis
      by (auto simp: arrive_def on_message_def Request same)
  next
    case (Response i r)
    let ?ep = "(ends c s)\<lparr>ep_responses := ep_responses (ends c s) @ [Response i r]\<rparr>"
    have "link_ok (at_end s (off_wire s n c) (?ep, []))"
    proof (rule link_okI)
      show "calls_from T (at_end s (off_wire s n c) (?ep, [])) s"
        unfolding calls_from_def at_end_simps off_wire_simps fst_conv snd_conv dir_ok_fields
        by (rule dir_ok_mono [OF T [unfolded calls_from_def]])
          (use T w(2) Response in \<open>auto simp: calls_from_def dir_ok_def\<close>)
      show "calls_from T' (at_end s (off_wire s n c) (?ep, [])) (other s)"
        unfolding calls_from_def at_end_simps off_wire_simps fst_conv snd_conv other_side
        by (rule dir_ok_mono [OF T' [unfolded calls_from_def other_side]])
          (use T' w(1) Response in \<open>auto simp: calls_from_def dir_ok_def served_by_def outcomes_def\<close>)
    qed
    with off_wire_ok [OF ok, of s n] show ?thesis
      by (auto simp: arrive_def on_message_def Response same)
  qed
qed

lemma serve_next_ok:
  assumes "link_ok c"
  shows "link_ok (at_end s c (serve_next (ends c s), []))"
proof -
  obtain T T' where T: "calls_from T c s" and T': "calls_from T' c (other s)" by (rule link_okE [OF assms])
  show ?thesis
    by (rule at_end_ok [OF T T', where T'' = T])
      (use T in \<open>auto simp: serve_next_def served_by_def outcomes_def calls_from_def split: serve_loop.splits list.splits\<close>)
qed

lemma handler_answers_parts:
  assumes "handler_answers r sent ep = (ep', msgs)"
  shows "dir_ok T ep' = dir_ok T ep \<and> requests_in msgs = [] \<and> ep_responses ep' = ep_responses ep
    \<and> mset (served_by ep') = mset (served_by ep) \<and> outcomes ep \<subseteq> outcomes ep' \<and> set (responses_in msgs) \<subseteq> outcomes ep'"
proof (cases "ep_serving ep")
  case (Handling req i)
  with assms have ep': "ep' = ep\<lparr>ep_serving := Idle, ep_handled := ep_handled ep @ [(i, req, r)]\<rparr>"
    and "msgs = (if sent then [Response i r] else [])"
    by (auto simp: handler_answers_def answer_request_def)
  moreover have o: "outcomes ep' = insert (i, r) (outcomes ep)" by (simp add: ep' outcomes_def)
  moreover have "outcomes ep \<subseteq> outcomes ep'" unfolding o by blast
  moreover have "mset (served_by ep') = mset (served_by ep)" using Handling by (simp add: ep' served_by_def)
  moreover have "dir_ok T ep' = dir_ok T ep" "ep_responses ep' = ep_responses ep" by (simp_all add: ep')
  ultimately show ?thesis
    by simp
qed (use assms in \<open>auto simp: handler_answers_def\<close>)

lemma handler_answers_ok:
  assumes "link_ok c"
  shows "link_ok (at_end s c (handler_answers r sent (ends c s)))"
proof -
  obtain T T' where T: "calls_from T c s" and T': "calls_from T' c (other s)" by (rule link_okE [OF assms])
  obtain ep msgs where h: "handler_answers r sent (ends c s) = (ep, msgs)" by force
  note parts = handler_answers_parts [OF h]
  have "link_ok (at_end s c (ep, msgs))"
    by (rule at_end_ok [OF T T', where T'' = T]) (use T parts in \<open>simp_all add: calls_from_def\<close>)
  with h show ?thesis by simp
qed

lemma poll_issued:
  "poll_requests dc ep = Inr (ep', msgs) \<Longrightarrow> ep_issued ep' = ep_issued ep"
  "poll_responses ep = Inr (ep', msgs) \<Longrightarrow> ep_issued ep' = ep_issued ep"
  "poll_timer n ep = Inr (ep', msgs) \<Longrightarrow> ep_issued ep' = ep_issued ep"
  by (auto simp: poll_requests_def poll_responses_def poll_timer_def managed_def stop_manager_def rbind_eq_Inr Let_def
      split: if_splits option.splits list.splits)

lemma arrive_issued: "arrive msg ep = Inr ep' \<Longrightarrow> ep_issued ep' = ep_issued ep"
  by (cases msg) (auto simp: arrive_def on_message_def split: if_splits)

lemma conn_issued:
  assumes "conn_step c a = Inr c'"
  shows "length (ep_issued (ends c' s)) \<le> Suc (length (ep_issued (ends c s)))"
proof (cases a)
  case (HandlerAnswers s' r b)
  with assms show ?thesis by (auto simp: at_end_def handler_answers_def split: serve_loop.splits)
qed (use assms in \<open>auto dest!: poll_issued arrive_issued simp: rbind_eq_Inr at_end_def off_wire_def start_call_def serve_next_def on_close_def
      Let_def split: if_splits serve_loop.splits list.splits prod.splits\<close>)

lemma start_call_parts: "server_part (start_call req ep) = server_part ep"
    "ep_responses (start_call req ep) = ep_responses ep"
  by (simp_all add: start_call_def Let_def server_part_def split: prod.split)

text \<open>A step of the calling side, whatever is on the wire.\<close>

lemma caller_step_ok:
  assumes ok: "link_ok c"
    and own: "\<And>T served outs resps. dir_ok T (ends c s) served outs resps \<Longrightarrow>
        set (responses_in (ep_responses (ends c s))) \<subseteq> outs \<Longrightarrow>
        \<exists>T' ep' msgs. r = Inr (ep', msgs) \<and> dir_ok T' ep' (served @ requests_in msgs) outs resps
          \<and> responses_in msgs = [] \<and> set (ep_responses ep') \<subseteq> set (ep_responses (ends c s))
          \<and> server_part ep' = server_part (ends c s)"
  shows "\<exists>c'. rbind r (\<lambda>r. Inr (at_end s c r)) = Inr c' \<and> link_ok c'"
proof -
  obtain T T' where T: "calls_from T c s" and T': "calls_from T' c (other s)" by (rule link_okE [OF ok])
  let ?o = "ends c (other s)"
  have "set (responses_in (ep_responses (ends c s))) \<subseteq> outcomes ?o" using T by (simp add: calls_from_def dir_ok_def)
  with own T obtain T'' ep' msgs where r: "r = Inr (ep', msgs)"
    and d: "dir_ok T'' ep' ((requests_in (wire c (other s)) @ served_by ?o) @ requests_in msgs) (outcomes ?o)
      (set (responses_in (wire c s)) \<union> set (responses_in (ep_responses (ends c s))))"
    and f: "responses_in msgs = []" "set (ep_responses ep') \<subseteq> set (ep_responses (ends c s))"
      "server_part ep' = server_part (ends c s)"
    unfolding calls_from_def by metis
  have "link_ok (at_end s c (ep', msgs))"
    by (rule at_end_ok [OF T T' d f(2)]) (use f server_part_served [OF f(3)] in auto)
  with r show ?thesis by simp
qed

lemma conn_step_ok:
  assumes ok: "link_ok c" and few: "\<And>s. length (ep_issued (ends c s)) < 2 ^ 32"
  shows "\<exists>c'. conn_step c a = Inr c' \<and> link_ok c'"
proof (cases a)
  case (MakeCall s req)
  have "\<exists>c'. rbind (Inr (start_call req (ends c s), [])) (\<lambda>r. Inr (at_end s c r)) = Inr c' \<and> link_ok c'"
    by (rule caller_step_ok [OF ok]) (auto dest: start_call_ok [where req = req] simp: start_call_parts)
  with MakeCall show ?thesis by simp
next
  case (PollRequests s dc)
  show ?thesis unfolding PollRequests conn_step.simps
    by (rule caller_step_ok [OF ok]) (metis poll_requests_ok [OF _ few [of s], of _ _ _ _ dc])
next
  case (PollResponses s)
  show ?thesis unfolding PollResponses conn_step.simps
    by (rule caller_step_ok [OF ok]) (metis append_Nil2 messages_in_simps(1,2) poll_responses_ok)
next
  case (PollTimer s n)
  show ?thesis unfolding PollTimer conn_step.simps
    by (rule caller_step_ok [OF ok]) (metis append_Nil2 messages_in_simps(1,2) order_refl poll_timer_ok)
next
  case (OnClose s)
  have "\<exists>c'. rbind (Inr (on_close (ends c s), [])) (\<lambda>r. Inr (at_end s c r)) = Inr c' \<and> link_ok c'"
    by (rule caller_step_ok [OF ok]) (auto simp: on_close_def server_part_def)
  with OnClose show ?thesis by simp
next
  case (MessageArrives s n)
  with arrive_ok [OF ok, of n s] ok show ?thesis by (cases "n < length (wire c s)") auto
qed (use serve_next_ok [OF ok] handler_answers_ok [OF ok] off_wire_ok [OF ok] ok in auto)

section \<open>Runs\<close>

lemma conn_start_ok: "link_ok (conn_start a b)"
proof -
  have new: "manager_ok (RequestManager_new :: nat RequestManager)" by (rule manager_ok_new)
  have "contents (in_flight (RequestManager_new :: nat RequestManager)) = Map.empty"
    using ring_ok_with_capacity [of MAX_IN_FLIGHT_REQUESTS, where 'v = nat]
    by (simp add: RequestManager_new_def MAX_IN_FLIGHT_REQUESTS_def)
  then have "calls_from Map.empty (conn_start a b) s" for s
    using new by (cases s) (simp_all add: conn_start_def endpoint_start_def calls_from_def dir_ok_def calls_counted_def
      tickets_ok_def settled_def inflight_def served_ok_def answers_ok_def served_by_def manager_ok_def
      RequestManager_new_def with_capacity_def)
  then show ?thesis unfolding link_ok_def by blast
qed

lemma conn_run_ok:
  assumes "link_ok c" and "\<And>s. length (ep_issued (ends c s)) + length as < 2 ^ 32"
  shows "\<exists>c'. conn_run c as = Inr c' \<and> link_ok c' \<and> (\<forall>s. length (ep_issued (ends c' s)) \<le> length (ep_issued (ends c s)) + length as)"
  using assms
proof (induction as arbitrary: c)
  case (Cons a as)
  have few: "length (ep_issued (ends c s)) < 2 ^ 32" for s using Cons.prems(2) [of s] by simp
  from conn_step_ok [OF Cons.prems(1) few, of a] obtain c1 where c1: "conn_step c a = Inr c1" "link_ok c1" by blast
  note grow = conn_issued [OF c1(1)]
  have "length (ep_issued (ends c1 s)) + length as < 2 ^ 32" for s
    using grow [of s] Cons.prems(2) [of s] by simp
  from Cons.IH [OF c1(2) this] obtain c2 where c2: "conn_run c1 as = Inr c2" "link_ok c2"
    "\<And>s. length (ep_issued (ends c2 s)) \<le> length (ep_issued (ends c1 s)) + length as" by blast
  have "length (ep_issued (ends c2 s)) \<le> length (ep_issued (ends c s)) + length (a # as)" for s
    using c2(3) [of s] grow [of s] by simp
  with c1(1) c2(1,2) show ?case by simp
qed simp

lemma reachable_conn:
  assumes "length as < 2 ^ 32"
  obtains c where "conn_run (conn_start a b) as = Inr c" "link_ok c" "\<And>s. length (ep_issued (ends c s)) \<le> length as"
  using conn_run_ok [OF conn_start_ok, of a b as] assms by (auto simp: conn_start_def endpoint_start_def)

text \<open>
  What a caller may rely on: a call is answered at most once; every request that the other side's
  server has handled is that of a call of its own; and an answer is a failure that the transport
  reports, or what the server answered to this very call.
\<close>

definition calls_matched :: "('req, 'resp) endpoint \<Rightarrow> ('req, 'resp) endpoint \<Rightarrow> bool" where
  "calls_matched ep peer \<longleftrightarrow> distinct (map fst (ep_answers ep)) \<and>
     (\<exists>call_of. inj_on call_of {..<length (ep_handled peer)} \<and>
       (\<forall>h < length (ep_handled peer). call_of h < length (ep_issued ep) \<and>
          ep_issued ep ! call_of h = fst (snd (ep_handled peer ! h))) \<and>
       (\<forall>(k, r) \<in> set (ep_answers ep). k < length (ep_issued ep) \<and>
          (transport_failure r \<or> (\<exists>h < length (ep_handled peer). call_of h = k \<and> snd (snd (ep_handled peer ! h)) = r))))"

lemma link_ok_matched:
  assumes "link_ok c"
  shows "calls_matched (ends c s) (ends c (other s))"
proof -
  let ?ep = "ends c s" and ?hs = "ep_handled (ends c (other s))"
  obtain T where T: "calls_from T c s" using link_okE [OF assms] by metis
  then have c: "calls_counted T ?ep" and t: "tickets_ok T ?ep" and a: "answers_ok T (ep_answers ?ep) (outcomes (ends c (other s)))"
    and s: "served_ok T (ep_issued ?ep) (map (\<lambda>(i, req, r). (i, req)) ?hs)"
    using served_ok_sub [of T _ _ "map (\<lambda>(i, req, r). (i, req)) ?hs"]
    by (auto simp: calls_from_def dir_ok_def served_by_def)
  define call_of where "call_of h = the (T (fst (?hs ! h)))" for h
  have call: "T (fst (?hs ! h)) = Some (call_of h)" "ep_issued ?ep ! call_of h = fst (snd (?hs ! h))"
    if "h < length ?hs" for h
  proof -
    obtain i req r where h: "?hs ! h = (i, req, r)" by (metis prod_cases3)
    with that have "(i, req) \<in> set (map (\<lambda>(i, req, r). (i, req)) ?hs)" by (force simp: in_set_conv_nth)
    with s h show "T (fst (?hs ! h)) = Some (call_of h)" "ep_issued ?ep ! call_of h = fst (snd (?hs ! h))"
      by (auto simp: served_ok_def call_of_def)
  qed
  have "distinct (map fst ?hs)" using s by (simp add: served_ok_def comp_def case_prod_unfold)
  then have tickets: "fst (?hs ! h) = fst (?hs ! h') \<Longrightarrow> h = h'" if "h < length ?hs" "h' < length ?hs" for h h'
    using that nth_eq_iff_index_eq [of "map fst ?hs" h h'] by simp
  have "inj_on call_of {..<length ?hs}"
  proof (rule inj_onI)
    fix h h'
    assume h: "h \<in> {..<length ?hs}" "h' \<in> {..<length ?hs}" and eq: "call_of h = call_of h'"
    have "fst (?hs ! h) = fst (?hs ! h')"
      using call(1) [of h] call(1) [of h'] h eq t by (intro inj_onD [of T "dom T"]) (auto simp: tickets_ok_def)
    with tickets h show "h = h'" by simp
  qed
  moreover have "call_of h < length (ep_issued ?ep)" if "h < length ?hs" for h
    using call(1) [OF that] t by (auto simp: tickets_ok_def ran_def)
  moreover have "\<exists>h < length ?hs. call_of h = k \<and> snd (snd (?hs ! h)) = r"
    if kr: "(k, r) \<in> set (ep_answers ?ep)" and "\<not> transport_failure r" for k r
  proof -
    from a that obtain i where i: "T i = Some k" "(i, r) \<in> outcomes (ends c (other s))" by (auto simp: answers_ok_def)
    then obtain h where h: "h < length ?hs" "fst (?hs ! h) = i" "snd (snd (?hs ! h)) = r"
      by (force simp: outcomes_def in_set_conv_nth)
    with call(1) [OF h(1)] i(1) have "call_of h = k" by simp
    with h show ?thesis by blast
  qed
  moreover have "k < length (ep_issued ?ep)" if "(k, r) \<in> set (ep_answers ?ep)" for k r
  proof -
    have "k \<in> set (settled ?ep)" using that by (force simp: settled_def)
    with c show ?thesis unfolding calls_counted_def by blast
  qed
  moreover have "distinct (map fst (ep_answers ?ep))" using c by (simp add: calls_counted_def settled_def)
  ultimately show ?thesis using call(2) unfolding calls_matched_def by blast
qed

section \<open>After the data channel is lost\<close>

lemma poll_requests_closed:
  assumes "poll_requests dc ep = Inr (ep', msgs)" and "\<not> ep_open ep"
  shows "\<not> ep_open ep'" and "ep_manager ep' = None \<or> length (ep_requests ep) = Suc (length (ep_requests ep'))"
  using assms by (auto simp: poll_requests_def managed_def stop_manager_def rbind_eq_Inr
      split: option.splits list.splits prod.splits)

text \<open>The request manager works off its queue, and stops; then no call is left without an answer.\<close>

lemma polling_stops:
  assumes "link_ok c" and "\<And>s. length (ep_issued (ends c s)) < 2 ^ 32" and "\<not> ep_open (ends c s)"
    and "ep_manager (ends c s) = None \<or> length (ep_requests (ends c s)) < n"
  shows "\<exists>c'. conn_run c (replicate n (PollRequests s dc)) = Inr c' \<and> link_ok c'
    \<and> ep_manager (ends c' s) = None \<and> ep_issued (ends c' s) = ep_issued (ends c s)"
  using assms
proof (induction n arbitrary: c)
  case (Suc n)
  from conn_step_ok [OF Suc.prems(1,2), of "PollRequests s dc"] obtain c1 ep msgs where
    p: "poll_requests dc (ends c s) = Inr (ep, msgs)" and c1: "c1 = at_end s c (ep, msgs)" and ok: "link_ok c1"
    by (auto simp: rbind_eq_Inr)
  note issued = poll_issued(1) [OF p]
  have left: "ep_manager ep = None \<or> length (ep_requests ep) < n"
  proof (cases "ep_manager (ends c s)")
    case None
    with p show ?thesis by (simp add: poll_requests_def)
  next
    case (Some m)
    with poll_requests_closed(2) [OF p Suc.prems(3)] Suc.prems(4) show ?thesis by auto
  qed
  have few: "length (ep_issued (ends c1 s')) < 2 ^ 32" for s'
    using Suc.prems(2) [of s'] Suc.prems(2) [of s] issued by (simp add: c1 at_end_def)
  from Suc.IH [OF ok few] left poll_requests_closed(1) [OF p Suc.prems(3)] obtain c2 where
    "conn_run c1 (replicate n (PollRequests s dc)) = Inr c2" "link_ok c2" "ep_manager (ends c2 s) = None"
    "ep_issued (ends c2 s) = ep_issued (ends c1 s)"
    by (auto simp: c1)
  with p c1 issued show ?case by simp
qed simp

lemma stopped_answered:
  assumes "link_ok c" and "ep_manager (ends c s) = None"
  shows "distinct (map fst (ep_answers (ends c s)))"
    and "set (map fst (ep_answers (ends c s))) = {..<length (ep_issued (ends c s))}"
proof -
  obtain T where "calls_from T c s" using link_okE [OF assms(1)] by metis
  then have c: "calls_counted T (ends c s)" by (simp add: calls_from_def dir_ok_def)
  with assms(2) have none: "ep_requests (ends c s) = []" by (simp add: calls_counted_def)
  from c assms(2) none show "distinct (map fst (ep_answers (ends c s)))"
    "set (map fst (ep_answers (ends c s))) = {..<length (ep_issued (ends c s))}"
    by (simp_all add: calls_counted_def settled_def inflight_def)
qed

section \<open>A call and its answer\<close>

lemmas conn_runs = conn_start_def endpoint_start_def at_end_def off_wire_def poll_requests_def poll_responses_def
  manager_step_def handle_request_def handle_response_def managed_def timers_of_def List.map_filter_simps
  start_call_def call_def peer_transport_start_def serve_next_def handler_answers_def answer_request_def arrive_def
  on_message_def on_close_def await_answer_def Let_def add_def remove_def data_idx_def slot_at_def
  RequestManager_new_def with_capacity_def MAX_IN_FLIGHT_REQUESTS_def advance_min.simps
  word_less_nat_alt word_le_nat_alt

definition one_call :: "(string, string) conn_action list" where
  "one_call = [MakeCall LeftEnd ''q'', PollRequests LeftEnd None, MessageArrives RightEnd 0, ServeNext RightEnd,
     HandlerAnswers RightEnd (Inr ''r'') True, MessageArrives LeftEnd 0, PollResponses LeftEnd]"

lemma one_call_run:
  "\<exists>c. conn_run (conn_start 1 2) one_call = Inr c \<and> ep_answers (ends c LeftEnd) = [(0, Inr ''r'')]"
  unfolding one_call_def by (simp add: conn_runs cong del: rbind_cong)

definition two_calls :: "(string, string) conn_action list" where
  "two_calls = [MakeCall LeftEnd ''p'', PollRequests LeftEnd None, MakeCall LeftEnd ''q'', OnClose LeftEnd]"

lemma two_calls_run:
  "\<exists>c. conn_run (conn_start 1 2) two_calls = Inr c \<and> ep_requests (ends c LeftEnd) = [(''q'', 1)]
     \<and> ep_issued (ends c LeftEnd) = [''p'', ''q''] \<and> \<not> ep_open (ends c LeftEnd)"
  unfolding two_calls_def by (simp add: conn_runs cong del: rbind_cong)

end
