(* ===== verification/IntroductionRuns.thy ===== *)
theory IntroductionRuns
  imports Introduction "HOL-Library.Sublist"
begin

text \<open>
  When introductions go well: as long as no peer has two tasks at a time, no task panics, and every
  peer is handed over with the connection that was made for it.
\<close>

section \<open>The invariant\<close>

fun peer_of :: "intro_task \<Rightarrow> u64 option" where
  "peer_of (Describing p pc) = Some p"
| "peer_of (Offering p pc sdp) = Some p"
| "peer_of (Answering p pc) = Some p"
| "peer_of (AwaitingChannel p pc) = Some p"
| "peer_of Applying = None"

text \<open>The connection that a task has put into the map.\<close>

fun held_by :: "intro_task \<Rightarrow> (u64 \<times> nat) option" where
  "held_by (Offering p pc sdp) = Some (p, pc)"
| "held_by (Answering p pc) = Some (p, pc)"
| "held_by (AwaitingChannel p pc) = Some (p, pc)"
| "held_by _ = None"

definition peers_of :: "(nat \<times> intro_task) list \<Rightarrow> u64 list" where
  "peers_of ts = List.map_filter (\<lambda>(k, t). peer_of t) ts"

abbreviation busy :: "page \<Rightarrow> u64 set" where
  "busy pg \<equiv> set (peers_of (tasks pg))"

definition tasks_ok :: "IntroState \<Rightarrow> (nat \<times> intro_task) list \<Rightarrow> bool" where
  "tasks_ok st ts \<longleftrightarrow> distinct (map fst ts) \<and> distinct (peers_of ts) \<and>
     (\<forall>(k, t) \<in> set ts. \<forall>p pc. held_by t = Some (p, pc) \<longrightarrow> i_peers st p = Some pc)"

definition page_ok :: "page \<Rightarrow> bool" where
  "page_ok pg \<longleftrightarrow> tasks_ok (intro pg) (tasks pg) \<and> (\<forall>(k, t) \<in> set (tasks pg). k < next_task pg)"

lemma peers_of_simps [simp]:
  "peers_of [] = []"
  "peers_of ((k, t) # ts) = (case peer_of t of None \<Rightarrow> peers_of ts | Some p \<Rightarrow> p # peers_of ts)"
  "peers_of (ts @ ts') = peers_of ts @ peers_of ts'"
  by (simp_all add: peers_of_def List.map_filter_def split: option.splits)

lemma held_busy: "held_by t = Some (p, pc) \<Longrightarrow> peer_of t = Some p"
  by (cases t) auto

lemma peers_of_mem: "(k, t) \<in> set ts \<Longrightarrow> peer_of t = Some p \<Longrightarrow> p \<in> set (peers_of ts)"
  by (force simp: peers_of_def List.map_filter_def image_iff)

text \<open>Only peers without a task may change in the map.\<close>

lemma tasks_ok_frame:
  "tasks_ok st ts \<Longrightarrow> (\<And>p. p \<in> set (peers_of ts) \<Longrightarrow> i_peers st' p = i_peers st p) \<Longrightarrow> tasks_ok st' ts"
  unfolding tasks_ok_def by (fastforce dest: held_busy peers_of_mem)

lemma page_ok_add_task:
  assumes "page_ok pg" and "\<And>p. peer_of t = Some p \<Longrightarrow> p \<notin> busy pg"
    and "\<And>p pc. held_by t = Some (p, pc) \<Longrightarrow> i_peers (intro pg) p = Some pc"
  shows "page_ok (add_task t pg)"
proof -
  have "next_task pg \<notin> fst ` set (tasks pg)" using assms(1) by (force simp: page_ok_def)
  with assms show ?thesis
    by (auto simp: page_ok_def tasks_ok_def add_task_def split: option.splits)
qed

lemma page_ok_wake:
  assumes "page_ok pg" and "map_of (tasks pg) k = Some t"
  defines "pg' \<equiv> pg\<lparr>tasks := AList.delete k (tasks pg)\<rparr>"
  shows "page_ok pg'" and "peer_of t = Some p \<Longrightarrow> p \<notin> busy pg'"
    and "held_by t = Some (p, pc) \<Longrightarrow> i_peers (intro pg) p = Some pc"
proof -
  from assms(2) obtain ts ts' where ts: "tasks pg = ts @ (k, t) # ts'"
    using map_of_SomeD split_list by fast
  then have k: "k \<notin> fst ` set ts" "k \<notin> fst ` set ts'" using assms(1) by (auto simp: page_ok_def tasks_ok_def)
  then have "AList.delete k ts = ts" "AList.delete k ts' = ts'" by (simp_all add: AList.delete_notin_dom)
  then have d: "tasks pg' = ts @ ts'" by (simp add: pg'_def ts AList.delete_eq)
  from assms(1) show "page_ok pg'"
    using d by (auto simp: page_ok_def tasks_ok_def pg'_def ts split: option.splits)
  show "p \<notin> busy pg'" if "peer_of t = Some p"
    using assms(1) that by (auto simp: d page_ok_def tasks_ok_def ts)
  show "i_peers (intro pg) p = Some pc" if "held_by t = Some (p, pc)"
    using assms(1) that by (auto simp: page_ok_def tasks_ok_def ts)
qed

lemma page_ok_intro:
  assumes "page_ok pg" and "\<And>p. p \<in> busy pg \<Longrightarrow> i_peers st p = i_peers (intro pg) p"
  shows "page_ok (pg\<lparr>intro := st\<rparr>)"
  using assms tasks_ok_frame [of "intro pg" "tasks pg" st] by (simp add: page_ok_def)

lemma page_ok_fields:
  "page_ok (pg\<lparr>to_ws := out\<rparr>) = page_ok pg" "page_ok (pg\<lparr>met := ps\<rparr>) = page_ok pg"
  "page_ok (pg\<lparr>failed := e\<rparr>) = page_ok pg" "page_ok (pg\<lparr>panics := xs\<rparr>) = page_ok pg"
  "page_ok (pg\<lparr>peer_rx := ps\<rparr>) = page_ok pg" "page_ok (pg\<lparr>errors_rx := es\<rparr>) = page_ok pg"
  "page_ok (pg\<lparr>done_rx := ds\<rparr>) = page_ok pg" "page_ok (pg\<lparr>orphans := os\<rparr>) = page_ok pg"
  by (simp_all add: page_ok_def)

section \<open>Calm schedules\<close>

text \<open>
  Session updates and offers come only for peers that are not being introduced; messages are binary
  and none is a join; the browser's descriptions are texts, data channels are open when they say so,
  and none opens for an introduction that has been given up; the web socket takes the candidates, and
  the transport of a peer tells its end.
\<close>

fun calm :: "page \<Rightarrow> page_action \<Rightarrow> bool" where
  "calm pg (Message new_pc (Some (SessionStatus session))) = (to_introduce (intro pg) session \<inter> busy pg = {})"
| "calm pg (Message new_pc (Some (Offer offer))) = (o_node_id offer \<notin> busy pg)"
| "calm pg (Message new_pc (Some (Join j))) = False"
| "calm pg TextFrame = False"
| "calm pg (Wake k ws_ok (ChannelUp dc ready)) = ready"
| "calm pg (Wake k ws_ok (Described x)) = (\<not> isl x)"
| "calm pg (IceFound ws_ok p found) = (ws_ok \<or> found = None)"
| "calm pg (TransportEnded p told) = (told \<or> p \<notin> set (done_rx pg))"
| "calm pg (LateChannel p) = (p \<notin> set (orphans pg))"
| "calm pg a = True"

text \<open>
  What a stretch may do: nothing panics, the loop stays where it is, and at most one peer goes to it,
  as \<open>ps\<close> allows.
\<close>

definition settles_well :: "PeerInfo set \<Rightarrow> page \<Rightarrow> page \<Rightarrow> bool" where
  "settles_well ps pg pg' \<longleftrightarrow> page_ok pg' \<and> panics pg' = panics pg \<and> met pg' = met pg \<and> failed pg' = failed pg \<and>
     (peer_rx pg' = peer_rx pg \<or> (\<exists>info \<in> ps. peer_rx pg' = peer_rx pg @ [info]))"

lemma settle_waits:
  assumes "page_ok pg" and "\<And>p. peer_of t = Some p \<Longrightarrow> p \<notin> busy pg"
    and "\<And>p pc. held_by t = Some (p, pc) \<Longrightarrow> i_peers (intro pg) p = Some pc"
  shows "settles_well ps pg (settle reported (Waits t) pg)"
  using page_ok_add_task [OF assms] by (simp add: settles_well_def settle_def) (simp add: add_task_def)

lemma settle_returns:
  assumes "page_ok pg" and "reported \<Longrightarrow> failed pg = None" and "\<And>info. r = Inr (Some info) \<Longrightarrow> info \<in> ps"
  shows "settles_well ps pg (settle reported (Returns r) pg)"
  using assms by (auto simp: settles_well_def settle_def page_ok_fields split: sum.splits option.splits)

lemma settles_well_start:
  "settles_well ps pg pg' \<Longrightarrow> panics pg = panics pg0 \<Longrightarrow> met pg = met pg0 \<Longrightarrow> failed pg = failed pg0 \<Longrightarrow>
   peer_rx pg = peer_rx pg0 \<Longrightarrow> settles_well ps pg0 pg'"
  by (simp add: settles_well_def)

lemma introduce_all:
  assumes "page_ok pg" and "distinct ps" and "set ps \<inter> busy pg = {}"
  shows "settles_well {} pg (foldl (\<lambda>pg p. settle False (introduce p (new_pc p)) pg) pg ps)"
  using assms
proof (induction ps arbitrary: pg)
  case (Cons p ps)
  let ?pg = "settle False (introduce p (new_pc p)) pg"
  have one: "settles_well {} pg ?pg"
    using Cons.prems by (cases "new_pc p") (auto simp: introduce_def intro: settle_returns settle_waits)
  have "set ps \<inter> busy ?pg = {}"
    using Cons.prems by (cases "new_pc p") (auto simp: introduce_def settle_def add_task_def)
  with Cons.IH [of ?pg] one Cons.prems(2) show ?case by (auto simp: settles_well_def)
qed (simp add: settles_well_def)

lemma message_settles:
  assumes ok: "page_ok pg" and live: "failed pg = None" and calm: "calm pg (Message new_pc cmd)"
  shows "settles_well {} pg (handle_message new_pc cmd pg)"
proof (cases cmd)
  case None
  then show ?thesis using settle_returns [OF ok, of True "Inl RustBox"] live by (simp add: handle_message_def)
next
  case (Some c)
  show ?thesis
  proof (cases c)
    case (SessionStatus session)
    let ?ps = "sorted_list_of_set (to_introduce (intro pg) session)"
    have "set ?ps \<inter> busy pg = {}" using calm Some SessionStatus by (cases "finite (to_introduce (intro pg) session)") auto
    from introduce_all [OF ok _ this] show ?thesis by (simp add: handle_message_def Some SessionStatus)
  next
    case (Offer offer)
    let ?p = "o_node_id offer"
    have p: "?p \<notin> busy pg" using calm Some Offer by simp
    show ?thesis
    proof (cases "new_pc ?p")
      case None
      then show ?thesis using settle_returns [OF ok, of True "Inl JsError" "{}"] live
        by (simp add: handle_message_def Some Offer handle_offer_def settle_result_def)
    next
      case (Some pc)
      let ?pg = "pg\<lparr>intro := insert_peer (intro pg) ?p pc\<rparr>"
      have "page_ok ?pg" by (rule page_ok_intro [OF ok]) (use p in \<open>auto simp: insert_peer_def\<close>)
      then have "settles_well {} ?pg (settle True (Waits (Answering ?p pc)) ?pg)"
        by (rule settle_waits) (use p in \<open>auto simp: insert_peer_def\<close>)
      then have "settles_well {} pg (settle True (Waits (Answering ?p pc)) ?pg)"
        by (rule settles_well_start) simp_all
      then show ?thesis
        by (simp add: handle_message_def \<open>cmd = Some c\<close> Offer handle_offer_def settle_result_def Some Let_def)
    qed
  next
    case (Answer answer)
    then show ?thesis using live
      by (auto simp: handle_message_def Some handle_answer_def intro!: settle_returns settle_waits ok split: option.splits)
  next
    case (IceCandidate candidate)
    then show ?thesis using live
      by (auto simp: handle_message_def Some handle_ice_candidate_def intro!: settle_returns settle_waits ok split: option.splits)
  qed (use calm Some in simp)
qed

lemma leave_waiter_simps [simp]:
  "intro (leave_waiter p r pg) = intro pg" "tasks (leave_waiter p r pg) = tasks pg"
  "next_task (leave_waiter p r pg) = next_task pg" "peer_rx (leave_waiter p r pg) = peer_rx pg"
  "met (leave_waiter p r pg) = met pg" "failed (leave_waiter p r pg) = failed pg"
  "panics (leave_waiter p r pg) = panics pg" "page_ok (leave_waiter p r pg) = page_ok pg"
  by (simp_all add: leave_waiter_def page_ok_fields split: stretch.splits)

text \<open>A task that wakes hands over, if any, its own peer with its own connection.\<close>

definition hands_over :: "intro_task \<Rightarrow> wakeup \<Rightarrow> PeerInfo set" where
  "hands_over t w = {(p, pc, dc) | p pc dc. held_by t = Some (p, pc) \<and> (\<exists>r. w = ChannelUp dc r)}"

lemma wake_describing:
  assumes ok: "page_ok pg" and p: "p \<notin> busy pg" and w: "wake ws_ok (Describing p pc) w pg = Some pg'"
    and calm: "\<And>x. w = Described x \<Longrightarrow> \<not> isl x"
  shows "settles_well ps pg pg'"
proof -
  from w calm obtain sdp where d: "w = Described (Inr sdp)"
    by (cases w) (auto simp: wake_def Let_def split: sum.splits)
  show ?thesis
  proof (cases "\<exists>s. sdp = Some s \<and> ws_ok")
    case True
    then obtain s where s: "sdp = Some s" "ws_ok" by blast
    let ?st = "insert_peer (intro pg) p pc"
    let ?pg = "leave_waiter p (Waits (Offering p pc s)) (pg\<lparr>intro := ?st, to_ws := to_ws pg @ [send_offer ?st p s]\<rparr>)"
    have "page_ok ?pg" unfolding leave_waiter_simps page_ok_fields
      by (rule page_ok_intro [OF ok]) (use p in \<open>auto simp: insert_peer_def\<close>)
    then have "settles_well ps ?pg (settle False (Waits (Offering p pc s)) ?pg)"
      by (rule settle_waits) (use p in \<open>auto simp: insert_peer_def\<close>)
    then have "settles_well ps ?pg pg'" using w
      by (simp add: wake_def d introduce_described_def offer_stretch_def s Let_def)
    then show ?thesis by (rule settles_well_start) simp_all
  next
    case False
    have "page_ok (pg\<lparr>intro := insert_peer (intro pg) p pc\<rparr>)"
      by (rule page_ok_intro [OF ok]) (use p in \<open>auto simp: insert_peer_def\<close>)
    with False w ok show ?thesis
      by (auto simp: wake_def d introduce_described_def offer_stretch_def Let_def settles_well_def
          settle_def page_ok_fields split: option.splits)
  qed
qed

lemma wake_retries:
  assumes ok: "page_ok pg" and p: "p \<notin> busy pg" "i_peers (intro pg) p = Some pc"
    and w: "wake ws_ok (Offering p pc s) Retry pg = Some pg'"
  shows "settles_well ps pg pg'"
proof -
  let ?pg = "leave_waiter p (Waits (Offering p pc s)) (pg\<lparr>to_ws := to_ws pg @ [send_offer (intro pg) p s]\<rparr>)"
  have "page_ok ?pg" using ok by (simp add: page_ok_fields)
  then have "settles_well ps ?pg (settle False (Waits (Offering p pc s)) ?pg)"
    by (rule settle_waits) (use p in auto)
  then have "settles_well ps pg (settle False (Waits (Offering p pc s)) ?pg)"
    by (rule settles_well_start) simp_all
  with w ok show ?thesis
    by (auto simp: wake_def offer_stretch_def Let_def settles_well_def settle_def page_ok_fields split: if_splits)
qed

lemma wake_answers:
  assumes ok: "page_ok pg" and live: "failed pg = None" and p: "p \<notin> busy pg" "i_peers (intro pg) p = Some pc"
    and w: "wake ws_ok (Answering p pc) w pg = Some pg'" and calm: "\<And>x. w = Described x \<Longrightarrow> \<not> isl x"
  shows "settles_well ps pg pg'"
proof -
  from w calm obtain sdp where d: "w = Described (Inr sdp)"
    by (cases w) (auto simp: wake_def Let_def split: sum.splits)
  let ?r = "snd (offer_described (intro pg) ws_ok p pc sdp)"
  let ?pg = "leave_waiter p ?r (pg\<lparr>to_ws := to_ws pg @ fst (offer_described (intro pg) ws_ok p pc sdp)\<rparr>)"
  have okp: "page_ok ?pg" using ok by (simp add: page_ok_fields)
  have "settles_well ps ?pg (settle True (Waits (AwaitingChannel p pc)) ?pg)"
    by (rule settle_waits [OF okp]) (use p in auto)
  moreover have "settles_well ps ?pg (settle True (Returns (Inl e)) ?pg)" for e
    by (rule settle_returns [OF okp]) (use live in auto)
  moreover have "pg' = settle True ?r ?pg" using w by (simp add: wake_def d Let_def case_prod_beta)
  ultimately have "settles_well ps ?pg pg'" by (auto simp: offer_described_def split: option.splits)
  then show ?thesis by (rule settles_well_start) simp_all
qed

lemma wake_settles:
  assumes ok: "page_ok pg" and live: "failed pg = None" and p: "\<And>p. peer_of t = Some p \<Longrightarrow> p \<notin> busy pg"
    and held: "\<And>p pc. held_by t = Some (p, pc) \<Longrightarrow> i_peers (intro pg) p = Some pc"
    and w: "wake ws_ok t w pg = Some pg'" and ready: "\<And>dc r. w = ChannelUp dc r \<Longrightarrow> r"
    and calm: "\<And>x. w = Described x \<Longrightarrow> \<not> isl x"
  shows "settles_well (hands_over t w) pg pg'"
proof -
  have handed: "settles_well (hands_over t w) pg (settle b (Returns (map_sum id Some (Inr (p, pc, dc)))) (pg\<lparr>intro := st\<rparr>))"
    if "held_by t = Some (p, pc)" "w = ChannelUp dc r" "st = (intro pg)\<lparr>i_peers := (i_peers (intro pg))(p := None)\<rparr>"
    for p pc dc r st b
  proof -
    have "p \<notin> busy pg" using assms(3) held_busy [OF that(1)] by simp
    then have "page_ok (pg\<lparr>intro := st\<rparr>)" by (intro page_ok_intro [OF ok]) (auto simp: that(3))
    then have "settles_well (hands_over t w) (pg\<lparr>intro := st\<rparr>)
        (settle b (Returns (map_sum id Some (Inr (p, pc, dc)))) (pg\<lparr>intro := st\<rparr>))"
      by (rule settle_returns) (use live that in \<open>auto simp: hands_over_def\<close>)
    then show ?thesis by (rule settles_well_start) simp_all
  qed
  show ?thesis
  proof (cases t)
    case (Describing q pc)
    with wake_describing [OF ok _ w [unfolded Describing] calm] p show ?thesis by simp
  next
    case (Offering q pc s)
    show ?thesis
    proof (cases w)
      case Retry
      with wake_retries [OF ok, of q pc ws_ok s pg'] Offering p held w show ?thesis by simp
    next
      case (ChannelUp dc r)
      with handed [of q pc dc r _ False] ready w Offering held live show ?thesis
        by (simp add: wake_def introduce_done_def send_peer_def settle_result_def Let_def ex_bool_eq)
    qed (use w Offering in \<open>simp_all add: wake_def\<close>)
  next
    case (Answering q pc)
    with wake_answers [OF ok live _ _ w [unfolded Answering] calm] p held show ?thesis by simp
  next
    case (AwaitingChannel q pc)
    then obtain dc r where c: "w = ChannelUp dc r" using w by (cases w) (auto simp: wake_def)
    have "i_peers (intro pg) q = Some pc" using held AwaitingChannel by simp
    with handed [of q pc dc r _ True] w AwaitingChannel c live show ?thesis
      by (simp add: wake_def offer_done_def send_peer_def settle_result_def Let_def)
  next
    case Applying
    then obtain b where "w = Applied b" using w by (cases w) (auto simp: wake_def)
    with w Applying live show ?thesis by (auto simp: wake_def Let_def intro!: settle_returns ok split: if_splits)
  qed
qed

text \<open>The loop moves a peer on to its caller, or ends.\<close>

definition loop_moves :: "page \<Rightarrow> page \<Rightarrow> bool" where
  "loop_moves pg pg' \<longleftrightarrow> page_ok pg' \<and> panics pg' = panics pg \<and> tasks pg' = tasks pg \<and>
     (met pg' @ peer_rx pg' = met pg @ peer_rx pg \<and> prefix (met pg) (met pg') \<or> met pg' = met pg \<and> failed pg' \<noteq> None)"

lemma take_peer_moves: "page_ok pg \<Longrightarrow> loop_moves pg (take_peer send_ok pg)"
  by (auto simp: loop_moves_def take_peer_def Let_def page_ok_fields split: list.splits)

lemma take_error_moves: "page_ok pg \<Longrightarrow> loop_moves pg (take_error pg)"
  by (auto simp: loop_moves_def take_error_def page_ok_fields split: list.splits)

lemma outside_settles:
  assumes ok: "page_ok pg" and calm: "calm pg a" and a: "a \<in> {IceFound b p x, TransportEnded p b, LateChannel p}"
  shows "settles_well {} pg (page_step pg a)"
  using a
proof (elim insertE)
  assume "a = IceFound b p x"
  with ok calm show ?thesis
    by (auto simp: page_step_def on_ice_candidate_def settles_well_def page_ok_fields split: option.splits)
next
  assume a: "a = TransportEnded p b"
  have "page_ok (pg\<lparr>intro := (intro pg)\<lparr>i_online := i_online (intro pg) - {p}\<rparr>\<rparr>)"
    by (rule page_ok_intro [OF ok]) simp
  then have "page_ok (pg\<lparr>done_rx := ds, intro := (intro pg)\<lparr>i_online := i_online (intro pg) - {p}\<rparr>\<rparr>)" for ds
    by (simp add: page_ok_def)
  with a calm ok show ?thesis by (auto simp: page_step_def transport_ended_def settles_well_def Let_def)
qed (use ok calm in \<open>simp_all add: page_step_def late_channel_def settles_well_def\<close>)

text \<open>What a calm action does: a turn of the loop, or of a task or callback.\<close>

definition goes_calmly :: "page \<Rightarrow> page_action \<Rightarrow> page \<Rightarrow> bool" where
  "goes_calmly pg a pg' \<longleftrightarrow> settles_well {} pg pg' \<or> loop_moves pg pg' \<or>
     (\<exists>k ws_ok dc t p pc. a = Wake k ws_ok (ChannelUp dc True) \<and> map_of (tasks pg) k = Some t
        \<and> held_by t = Some (p, pc) \<and> settles_well {(p, pc, dc)} pg pg')"

lemma calm_step_settles:
  assumes ok: "page_ok pg" and live: "failed pg = None" and calm: "calm pg a"
    and turn: "\<And>b. a \<noteq> TakePeer b" "a \<noteq> TakeError"
  shows "settles_well {} pg (page_step pg a) \<or>
    (\<exists>k ws_ok dc t p pc. a = Wake k ws_ok (ChannelUp dc True) \<and> map_of (tasks pg) k = Some t
      \<and> held_by t = Some (p, pc) \<and> settles_well {(p, pc, dc)} pg (page_step pg a))"
proof (cases a)
  case (Message new_pc cmd)
  with message_settles [OF ok live] calm show ?thesis by (auto simp: page_step_def)
next
  case (Wake k ws_ok w)
  show ?thesis
  proof (cases "map_of (tasks pg) k")
    case None
    with Wake ok show ?thesis by (simp add: page_step_def settles_well_def)
  next
    case (Some t)
    note t = Some
    let ?pg = "pg\<lparr>tasks := AList.delete k (tasks pg)\<rparr>"
    note pw = page_ok_wake [OF ok t]
    show ?thesis
    proof (cases "wake ws_ok t w ?pg")
      case None
      with Wake t ok show ?thesis by (simp add: page_step_def settles_well_def)
    next
      case (Some pg')
      have "settles_well (hands_over t w) ?pg pg'"
        by (rule wake_settles [OF pw(1) _ pw(2) _ Some]) (use live pw(3) calm Wake in auto)
      then have s: "settles_well (hands_over t w) pg pg'" by (rule settles_well_start) simp_all
      have pg': "page_step pg a = pg'" using Wake t Some by (simp add: page_step_def)
      show ?thesis
      proof (cases "\<exists>p pc dc. held_by t = Some (p, pc) \<and> w = ChannelUp dc True")
        case True
        then obtain p pc dc where h: "held_by t = Some (p, pc)" "w = ChannelUp dc True" by blast
        then have "hands_over t w = {(p, pc, dc)}" by (auto simp: hands_over_def)
        with s pg' have "settles_well {(p, pc, dc)} pg (page_step pg a)" by simp
        with Wake t h show ?thesis by blast
      next
        case False
        with calm Wake have "hands_over t w = {}" by (auto simp: hands_over_def)
        with s pg' show ?thesis by simp
      qed
    qed
  qed
qed (use outside_settles [OF ok calm] calm turn in auto)

lemma calm_step:
  assumes "page_ok pg" and "failed pg = None" and "calm pg a"
  shows "goes_calmly pg a (page_step pg a)"
proof (cases "\<exists>b. a \<in> {TakePeer b, TakeError}")
  case True
  with take_peer_moves [OF assms(1)] take_error_moves [OF assms(1)] show ?thesis
    by (auto simp: goes_calmly_def page_step_def)
next
  case False
  with calm_step_settles [OF assms] show ?thesis unfolding goes_calmly_def by blast
qed

lemma goes_calmly_ok: "goes_calmly pg a pg' \<Longrightarrow> page_ok pg' \<and> panics pg' = panics pg"
  by (auto simp: goes_calmly_def settles_well_def loop_moves_def)

text \<open>A schedule is calm if each of its actions is, when its turn comes.\<close>

fun calm_run :: "page \<Rightarrow> page_action list \<Rightarrow> bool" where
  "calm_run pg [] = True"
| "calm_run pg (a # as) = (calm pg a \<and> failed pg = None \<and> calm_run (page_step pg a) as)"

lemma calm_run_ok:
  "page_ok pg \<Longrightarrow> calm_run pg as \<Longrightarrow> page_ok (page_run pg as) \<and> panics (page_run pg as) = panics pg"
proof (induction as arbitrary: pg)
  case (Cons a as)
  then have "page_ok (page_step pg a) \<and> panics (page_step pg a) = panics pg"
    by (intro goes_calmly_ok [OF calm_step]) simp_all
  with Cons show ?case by (simp add: page_run_def)
qed (simp add: page_run_def)

lemma initiate_ok: "page_ok (initiate n s)"
  by (simp add: page_ok_def tasks_ok_def initiate_def)

lemma to_introduce_eval:
  "to_introduce st \<lparr>s_session_id = s, s_online = {}\<rparr> = {}"
  "to_introduce st \<lparr>s_session_id = s, s_online = insert p ps\<rparr> =
     (if i_node_id st < p \<and> p \<notin> i_online st then insert p (to_introduce st \<lparr>s_session_id = s, s_online = ps\<rparr>)
      else to_introduce st \<lparr>s_session_id = s, s_online = ps\<rparr>)"
  by (auto simp: to_introduce_def)

text \<open>How a run is evaluated, action by action.\<close>

lemma wake_eval:
  "wake True (Describing p pc) (Described (Inr (Some sdp))) pg =
     Some (add_task (Offering p pc sdp) (pg\<lparr>intro := insert_peer (intro pg) p pc,
       to_ws := to_ws pg @ [send_offer (insert_peer (intro pg) p pc) p sdp]\<rparr>))"
  "wake True (Offering p pc sdp) Retry pg =
     Some (add_task (Offering p pc sdp) (pg\<lparr>to_ws := to_ws pg @ [send_offer (intro pg) p sdp]\<rparr>))"
  "wake True (Answering p pc) (Described (Inr (Some sdp))) pg =
     Some (add_task (AwaitingChannel p pc) (pg\<lparr>to_ws := to_ws pg @ [send_answer (intro pg) p sdp]\<rparr>))"
  "wake ws_ok (Offering p pc sdp) (ChannelUp dc ready) pg =
     Some (settle_result False (introduce_done (intro pg) (failed pg = None) p dc ready) pg)"
  "wake ws_ok (AwaitingChannel p pc) (ChannelUp dc ready) pg =
     Some (settle_result True (offer_done (intro pg) (failed pg = None) p dc) pg)"
  "wake ws_ok Applying (Applied True) pg = Some pg"
  by (simp_all add: wake_def introduce_described_def offer_stretch_def offer_described_def leave_waiter_def settle_def Let_def)

lemma page_step_eval:
  "page_step pg (Message new_pc cmd) = handle_message new_pc cmd pg"
  "page_step pg (Wake k ws_ok w) =
     (case map_of (tasks pg) k of
        None \<Rightarrow> pg
      | Some t \<Rightarrow>
          (case wake ws_ok t w (pg\<lparr>tasks := AList.delete k (tasks pg)\<rparr>) of None \<Rightarrow> pg | Some pg' \<Rightarrow> pg'))"
  "page_step pg (TakePeer b) = take_peer b pg"
  "page_step pg TakeError = take_error pg"
  "peer_rx pg = [] \<Longrightarrow> take_peer b pg = pg"
  "peer_rx pg = info # rest \<Longrightarrow> failed pg = None \<Longrightarrow>
     take_peer True pg = pg\<lparr>peer_rx := rest, done_rx := done_rx pg @ [fst info], met := met pg @ [info]\<rparr>"
  "errors_rx pg = err # errs \<Longrightarrow> failed pg = None \<Longrightarrow> take_error pg = pg\<lparr>errors_rx := errs, failed := Some err\<rparr>"
  by (simp_all add: page_step_def take_peer_def take_error_def Let_def)

lemmas page_runs = page_run_def page_step_eval initiate_def State_new_def handle_message_def settle_def
  settle_result_def introduce_def introduce_done_def
  handle_offer_def offer_done_def handle_answer_def handle_ice_candidate_def
  send_peer_def insert_peer_def send_offer_def send_answer_def offer_to_def send_join_command_def
  to_introduce_eval wake_eval add_task_def panic_task_def Let_def

text \<open>The message by which the introducer tells who is online.\<close>

abbreviation status :: "nat \<Rightarrow> u128 \<Rightarrow> u64 set \<Rightarrow> page_action" where
  "status k s ns \<equiv> Message (\<lambda>p. Some k) (Some (SessionStatus \<lparr>s_session_id = s, s_online = ns\<rparr>))"

text \<open>
  A repeated answer ends all introductions. An offer that is not acknowledged within five seconds is
  sent again, and answered again; if the second answer arrives when the peer has been handed over,
  handling it is an error, the loop of \<^verbatim>\<open>initiate\<close> returns it, and its caller unwraps it.
\<close>

lemma late_answer_stops:
  "let answer = Message (\<lambda>_. None)
         (Some (Answer \<lparr>o_session_id = 9, o_node_id = 2, o_target_id = 1, o_sdp_data = []\<rparr>));
       pg = page_run (initiate 1 9) [status 5 9 {1, 2}, Wake 0 True (Described (Inr (Some ''a''))), Wake 1 True Retry,
         answer, Wake 3 True (Applied True), Wake 2 True (ChannelUp 7 True), TakePeer True, answer, TakeError]
   in met pg = [(2, 5, 7)] \<and> failed pg = Some (AlreadyInitialized 2)"
  by (simp add: page_runs)

text \<open>
  Two session updates in quick succession break an introduction. A peer counts as online only once
  its introduction has its local description, so that a second update before that starts a second
  one: the first data channel is then handed over with the connection of the second introduction,
  and the task of the second panics.
\<close>

lemma introduced_twice:
  "let pg = page_run (initiate 1 9) [status 5 9 {1, 2}, status 6 9 {1, 2, 3},
      Wake 0 True (Described (Inr (Some ''a''))), Wake 1 True (Described (Inr (Some ''b''))),
      Wake 3 True (ChannelUp 7 True), Wake 4 True (ChannelUp 8 True), TakePeer True]
   in met pg = [(2, 6, 7)] \<and> panics pg = [ExplicitPanic]"
  by (simp add: page_runs)

end
