(* ===== verification/PeerTransports.thy ===== *)
theory PeerTransports
  imports ConnectionRuns IntroductionRuns
begin

text \<open>
  Where introductions and connections meet: how a browser reaches the introducer before \<^verbatim>\<open>initiate\<close>
  loops, the \<^verbatim>\<open>PeerTransport\<close> that the loop makes of a peer it met, and how the end of the peer's
  server lets the peer be introduced again.
\<close>

section \<open>Reaching the introducer\<close>

text \<open>
  \<^verbatim>\<open>init_ws\<close> makes the web socket, or fails (its callback for messages is \<^const>\<open>handle_message\<close>, the one for
  errors writes to the log); \<^verbatim>\<open>wait_for_ws_opened\<close> waits for the callback that the socket
  calls once it is open; then the node joins its session. Until then the introducer sends nothing.
\<close>

datatype reaching =
    Opening u64 u128
  | Refused IntroError
  | Reached page

definition init_ws :: "bool \<Rightarrow> u64 \<Rightarrow> u128 \<Rightarrow> reaching" where
  "init_ws new_ok n s = (if new_ok then Opening n s else Refused JsError)"

definition ws_opened :: "bool \<Rightarrow> reaching \<Rightarrow> reaching" where
  "ws_opened join_ok r =
     (case r of
        Opening n s \<Rightarrow> if join_ok then Reached (initiate n s) else Refused JsError
      | _ \<Rightarrow> r)"

lemma reached_joins:
  "ws_opened join_ok (init_ws new_ok n s) = Reached pg \<longleftrightarrow> new_ok \<and> join_ok \<and> pg = initiate n s"
  by (auto simp: ws_opened_def init_ws_def)

text \<open>A second event of the socket does nothing: its callback was taken back.\<close>

lemma ws_opened_once: "ws_opened b (ws_opened b' (init_ws new_ok n s)) = ws_opened b' (init_ws new_ok n s)"
  by (simp add: ws_opened_def init_ws_def)

section \<open>The transport of a peer\<close>

record PeerTransport =
  pt_node_id :: u64
  pt_connection :: nat
  pt_data_channel :: nat

definition PeerTransport_new :: "u64 \<Rightarrow> nat \<Rightarrow> nat \<Rightarrow> PeerTransport" where
  "PeerTransport_new n connection data_channel =
     \<lparr>pt_node_id = n, pt_connection = connection, pt_data_channel = data_channel\<rparr>"

text \<open>The body of the loop, for the peer that \<^verbatim>\<open>send_peer\<close> passed on.\<close>

definition transport_of :: "PeerInfo \<Rightarrow> PeerTransport" where
  "transport_of info = (let (peer_id, dc, pc) = info in PeerTransport_new peer_id dc pc)"

definition transport_debug :: "string \<Rightarrow> PeerTransport \<Rightarrow> string" where
  "transport_debug ready_state t = ''PeerTransport for '' @ to_string (pt_node_id t) @ '' ('' @ ready_state @ '')''"

text \<open>
  \<^verbatim>\<open>start\<close> hands the connection and the sender that tells its end on to the server; dropping the
  server tells it, the first time, and closes the connection.
\<close>

record Server =
  sv_connection :: nat
  sv_done :: bool

definition transport_start :: "PeerTransport \<Rightarrow> Server \<times> ('req, 'resp) endpoint" where
  "transport_start t = (\<lparr>sv_connection = pt_connection t, sv_done = True\<rparr>, endpoint_start (pt_node_id t))"

datatype drop_effect = TellDone | CloseConnection nat

definition server_drop :: "Server \<Rightarrow> Server \<times> drop_effect list" where
  "server_drop s =
     (s\<lparr>sv_done := False\<rparr>, (if sv_done s then [TellDone] else []) @ [CloseConnection (sv_connection s)])"

section \<open>A peer that goes and comes back\<close>

text \<open>The task that the loop spawned for the peer takes it off the list when it is told.\<close>

definition peer_left :: "drop_effect list \<Rightarrow> u64 \<Rightarrow> page \<Rightarrow> page" where
  "peer_left out p pg = (if TellDone \<in> set out then page_step pg (TransportEnded p True) else pg)"

text \<open>
  While a peer counts as online, session updates do not introduce the node to it; once the server of
  its transport is gone they do again.
\<close>

lemma online_not_introduced: "p \<in> i_online (intro pg) \<Longrightarrow> p \<notin> to_introduce (intro pg) session"
  by (simp add: to_introduce_def)

theorem dropped_peer_returns:
  fixes srv :: Server and ep :: "('req, 'resp) endpoint"
  assumes "transport_start (transport_of (p, pc, dc)) = (srv, ep)" and "p \<in> s_online session" and "i_node_id (intro pg) < p"
    and "p \<in> set (done_rx pg)"
  shows "p \<in> to_introduce (intro (peer_left (snd (server_drop srv)) p pg)) session"
    and "CloseConnection pc \<in> set (snd (server_drop srv))"
  using assms by (auto simp: transport_start_def transport_of_def PeerTransport_new_def server_drop_def peer_left_def
      page_step_def transport_ended_def to_introduce_def)

text \<open>The end is told once.\<close>

lemma told_once: "TellDone \<notin> set (snd (server_drop (fst (server_drop srv))))"
  by (simp add: server_drop_def)

end
