(* ===== verification/Errors.thy ===== *)
theory Errors
  imports Transport
begin

text \<open>
  The texts of errors: what a failed call is shown as, and what \<^verbatim>\<open>Raft::start\<close> makes of a JavaScript
  exception.
\<close>

text \<open>\<^verbatim>\<open>Display\<close> of the transport's errors.\<close>

fun error_text :: "TransportError \<Rightarrow> string" where
  "error_text (Js err) = err"
| "error_text RequestTimeout = ''request timeout''"
| "error_text TooManyInFlightRequests = ''too many in-flight requests''"
| "error_text Disconnected = ''data channel has been disconnected''"
| "error_text TransportUnavailable = ''rpc server is unavailable''"

text \<open>Without exceptions, the text tells which error it was.\<close>

lemma error_text_inj:
  assumes "range Js \<inter> {e, e'} = {}"
  shows "error_text e = error_text e' \<longleftrightarrow> e = e'"
  using assms by (cases e; cases e') auto

section \<open>Errors of Raft::start\<close>

datatype RaftError =
    RaftJs string
  | RaftTransport TransportError
  | NotEnoughPeers
  | NotLeader
  | CommandTimeout

text \<open>An exception may be an event: its type and the debug rendering of its target.\<close>

record JsError = JsValue +
  js_event :: "(string \<times> string) option"

definition raft_error_from_js :: "JsError \<Rightarrow> RaftError" where
  "raft_error_from_js err =
     RaftJs (case as_string err of
               Some e \<Rightarrow> e
             | None \<Rightarrow>
                 (case js_event err of
                    Some (type, target) \<Rightarrow> ''error on event with type '' @ type @ '' and target '' @ target
                  | None \<Rightarrow> ''JS error: '' @ debug_fmt err))"

end
