(* ===== verification/Meetings.thy ===== *)
theory Meetings
  imports IntroductionRuns
begin

text \<open>
  How introductions end: one whose awaits all succeed hands its peer over with the connection it
  made, whatever else the page does in the meantime.
\<close>

section \<open>A task keeps its place\<close>

text \<open>The peer and the connection of a task.\<close>

fun contact :: "intro_task \<Rightarrow> (u64 \<times> nat) option" where
  "contact (Describing p pc) = Some (p, pc)"
| "contact (Offering p pc sdp) = Some (p, pc)"
| "contact (Answering p pc) = Some (p, pc)"
| "contact (AwaitingChannel p pc) = Some (p, pc)"
| "contact Applying = None"

lemma contact_peer: "contact t = Some (p, pc) \<Longrightarrow> peer_of t = Some p"
  by (cases t) auto

lemma under_way_peer: "map_of (tasks pg) k = Some t \<Longrightarrow> contact t = Some (p, pc) \<Longrightarrow> p \<in> busy pg"
  by (blast intro: peers_of_mem contact_peer dest: map_of_SomeD)

lemma settle_keeps: "map_of (tasks pg) k = Some t \<Longrightarrow> map_of (tasks (settle b r pg)) k = Some t"
  by (auto simp: settle_def add_task_def panic_task_def split: stretch.splits sum.splits option.splits)

lemma settle_result_keeps: "map_of (tasks pg) k = Some t \<Longrightarrow> map_of (tasks (settle_result b r pg)) k = Some t"
  by (auto simp: settle_result_def panic_task_def settle_keeps split: sum.splits)

lemma introductions_keep:
  "map_of (tasks pg) k = Some t \<Longrightarrow>
   map_of (tasks (foldl (\<lambda>pg p. settle False (introduce p (new_pc p)) pg) pg ps)) k = Some t"
  by (induction ps arbitrary: pg) (simp_all add: settle_keeps)

lemma message_keeps: "map_of (tasks pg) k = Some t \<Longrightarrow> map_of (tasks (handle_message new_pc cmd pg)) k = Some t"
  by (auto simp: handle_message_def settle_keeps settle_result_keeps introductions_keep panic_task_def
      split: option.splits Command.splits)

lemma wake_keeps:
  "wake ws_ok t' w pg = Some pg' \<Longrightarrow> map_of (tasks pg) k = Some t \<Longrightarrow> map_of (tasks pg') k = Some t"
  by (cases t'; cases w)
    (auto simp: wake_def Let_def settle_keeps settle_result_keeps panic_task_def split: sum.splits prod.splits if_splits)

section \<open>One action\<close>

text \<open>What the tasks of \<open>p\<close> wait for succeeds.\<close>

definition goes_well :: "u64 \<Rightarrow> page \<Rightarrow> page_action \<Rightarrow> bool" where
  "goes_well p pg a = (case a of
     Wake k ws_ok w \<Rightarrow>
       (case map_of (tasks pg) k of
          None \<Rightarrow> True
        | Some t \<Rightarrow> peer_of t = Some p \<longrightarrow> ws_ok \<and>
            (case w of Described x \<Rightarrow> \<not> isl x \<and> x \<noteq> Inr None | ChannelUp dc ready \<Rightarrow> ready | _ \<Rightarrow> True))
   | _ \<Rightarrow> True)"

definition under_way :: "u64 \<Rightarrow> nat \<Rightarrow> page \<Rightarrow> bool" where
  "under_way p pc pg \<longleftrightarrow> (\<exists>k t. map_of (tasks pg) k = Some t \<and> contact t = Some (p, pc))"

lemma under_way_busy: "under_way p pc pg \<Longrightarrow> p \<in> busy pg"
  unfolding under_way_def using under_way_peer by blast

lemma under_way_kept:
  "(\<And>k t. map_of (tasks pg) k = Some t \<Longrightarrow> map_of (tasks pg') k = Some t) \<Longrightarrow> under_way p pc pg \<Longrightarrow> under_way p pc pg'"
  unfolding under_way_def by blast

lemma new_task: "page_ok pg \<Longrightarrow> map_of (tasks (add_task t pg)) (next_task pg) = Some t"
  by (auto simp: page_ok_def add_task_def map_add_def map_of_eq_None_iff split: option.splits dest!: map_of_SomeD)

lemma new_task_under_way: "page_ok pg \<Longrightarrow> contact t = Some (p, pc) \<Longrightarrow> under_way p pc (add_task t pg)"
  using new_task unfolding under_way_def by blast

lemma page_ok_shape:
  assumes "page_ok pg" shows "page_ok (pg\<lparr>to_ws := out\<rparr>)"
  using assms by (simp add: page_ok_fields)

text \<open>A task that is woken well goes on, or hands over its peer.\<close>

lemma wake_well:
  assumes ok: "page_ok pg" and live: "failed pg = None" and c: "contact t = Some (p, pc)"
    and held: "held_by t = Some (p, pc) \<Longrightarrow> i_peers (intro pg) p = Some pc" and p: "p \<notin> busy pg"
    and w: "wake ws_ok t w pg = Some pg'" and well: "ws_ok"
      "case w of Described x \<Rightarrow> \<not> isl x \<and> x \<noteq> Inr None | ChannelUp dc ready \<Rightarrow> ready | _ \<Rightarrow> True"
  shows "under_way p pc pg' \<or> (\<exists>dc. w = ChannelUp dc True \<and> peer_rx pg' = peer_rx pg @ [(p, pc, dc)])"
proof (cases t)
  case (Describing q c)
  with w well obtain s where s: "w = Described (Inr (Some s))"
    by (cases w) (auto simp: wake_def Let_def split: sum.splits)
  have "page_ok (pg\<lparr>intro := insert_peer (intro pg) p pc, to_ws := out\<rparr>)" for out
    unfolding page_ok_fields by (rule page_ok_intro [OF ok]) (use p in \<open>auto simp: insert_peer_def\<close>)
  then show ?thesis using w well(1) Describing c s by (auto simp: wake_eval intro!: new_task_under_way)
next
  case (Offering q c s)
  with w well obtain dc where "w = Retry \<or> w = ChannelUp dc True" by (cases w) (auto simp: wake_def)
  then show ?thesis using w well(1) Offering c held live page_ok_shape [OF ok]
    by (auto simp: wake_eval introduce_done_def send_peer_def settle_result_def settle_def intro!: new_task_under_way)
next
  case (Answering q c)
  with w well obtain s where "w = Described (Inr (Some s))"
    by (cases w) (auto simp: wake_def Let_def split: sum.splits)
  with w well(1) Answering c page_ok_shape [OF ok] show ?thesis by (auto simp: wake_eval intro!: new_task_under_way)
next
  case (AwaitingChannel q c)
  with w well obtain dc where "w = ChannelUp dc True" by (cases w) (auto simp: wake_def)
  with w well(1) AwaitingChannel c held live show ?thesis
    by (auto simp: wake_eval offer_done_def send_peer_def settle_result_def settle_def)
qed (use c in simp)

lemma step_well:
  assumes ok: "page_ok pg" and live: "failed pg = None" and calm: "calm pg a" and well: "goes_well p pg a"
    and u: "under_way p pc pg"
  shows "under_way p pc (page_step pg a) \<or> (\<exists>dc. (p, pc, dc) \<in> set (peer_rx (page_step pg a)))"
proof (cases a)
  case (Message new_pc cmd)
  then show ?thesis using under_way_kept [OF message_keeps u] by (simp add: page_step_def)
next
  case (Wake k ws_ok w)
  from u obtain k0 t0 where t0: "map_of (tasks pg) k0 = Some t0" "contact t0 = Some (p, pc)" unfolding under_way_def by blast
  show ?thesis
  proof (cases "map_of (tasks pg) k")
    case None
    with Wake u show ?thesis by (simp add: page_step_def)
  next
    case (Some t)
    let ?pg = "pg\<lparr>tasks := AList.delete k (tasks pg)\<rparr>"
    note pw = page_ok_wake [OF ok Some]
    show ?thesis
    proof (cases "wake ws_ok t w ?pg")
      case None
      with Wake Some u show ?thesis by (simp add: page_step_def)
    next
      case woken: (Some pg')
      have pg': "page_step pg a = pg'" using Wake Some woken by (simp add: page_step_def)
      show ?thesis
      proof (cases "k = k0")
        case True
        with t0 Some have t: "contact t = Some (p, pc)" by simp
        have "p \<notin> busy ?pg" by (rule pw(2) [OF contact_peer [OF t]])
        moreover have "ws_ok" "case w of Described x \<Rightarrow> \<not> isl x \<and> x \<noteq> Inr None | ChannelUp dc ready \<Rightarrow> ready | _ \<Rightarrow> True"
          using well Wake Some contact_peer [OF t] by (auto simp: goes_well_def)
        ultimately show ?thesis
          using wake_well [OF pw(1) _ t _ _ woken] pw(3) [of p pc] live pg' by fastforce
      next
        case False
        with t0(1) have "map_of (tasks ?pg) k0 = Some t0" by (simp add: AList.delete_conv')
        from wake_keeps [OF woken this] t0(2) pg' show ?thesis unfolding under_way_def by blast
      qed
    qed
  qed
qed (use u in \<open>auto simp: page_step_def under_way_def panic_task_def on_ice_candidate_def take_peer_def take_error_def
    transport_ended_def late_channel_def Let_def split: option.splits list.splits\<close>)

text \<open>What was handed over stays so, as long as the loop goes on.\<close>

abbreviation passed_on :: "page \<Rightarrow> PeerInfo list" where
  "passed_on pg \<equiv> met pg @ peer_rx pg"

lemma passed_on_stays:
  "goes_calmly pg a pg' \<Longrightarrow> failed pg' = None \<Longrightarrow> set (passed_on pg) \<subseteq> set (passed_on pg')"
proof -
  assume "goes_calmly pg a pg'" and "failed pg' = None"
  then have "\<exists>xs. passed_on pg' = passed_on pg @ xs"
    unfolding goes_calmly_def settles_well_def loop_moves_def by auto
  then show ?thesis by (metis Un_upper1 set_append)
qed

text \<open>What a calm action does to the peers that are handed over.\<close>

lemma calm_step_hands:
  assumes ok: "page_ok pg" and live: "failed pg = None" and calm: "calm pg a"
  shows "passed_on (page_step pg a) = passed_on pg \<and> prefix (met pg) (met (page_step pg a))
      \<or> (\<exists>k ws_ok dc t p pc. a = Wake k ws_ok (ChannelUp dc True) \<and> map_of (tasks pg) k = Some t
        \<and> held_by t = Some (p, pc) \<and> met (page_step pg a) = met pg \<and> peer_rx (page_step pg a) = peer_rx pg @ [(p, pc, dc)])
      \<or> a = TakePeer False \<and> failed (page_step pg a) = Some RustBox \<and> met (page_step pg a) = met pg"
proof (cases "\<exists>b. a \<in> {TakePeer b, TakeError}")
  case True
  with live show ?thesis
    by (auto simp: page_step_def take_peer_def take_error_def Let_def split: list.splits)
next
  case False
  have "settles_well {} pg (page_step pg a) \<or> (\<exists>k ws_ok dc t p pc. a = Wake k ws_ok (ChannelUp dc True) \<and>
      map_of (tasks pg) k = Some t \<and> held_by t = Some (p, pc) \<and> settles_well {(p, pc, dc)} pg (page_step pg a))"
    using calm_step_settles [OF ok live calm] False by auto
  then show ?thesis unfolding settles_well_def by auto
qed

section \<open>Runs\<close>

fun goes_well_run :: "u64 \<Rightarrow> page \<Rightarrow> page_action list \<Rightarrow> bool" where
  "goes_well_run p pg [] = True"
| "goes_well_run p pg (a # as) = (goes_well p pg a \<and> goes_well_run p (page_step pg a) as)"

lemma run_well:
  assumes "page_ok pg" and "calm_run pg as" and "goes_well_run p pg as" and "failed (page_run pg as) = None"
    and "under_way p pc pg \<or> (\<exists>dc. (p, pc, dc) \<in> set (passed_on pg))"
  shows "under_way p pc (page_run pg as) \<or> (\<exists>dc. (p, pc, dc) \<in> set (passed_on (page_run pg as)))"
  using assms
proof (induction as arbitrary: pg)
  case (Cons a as)
  let ?pg = "page_step pg a"
  have live: "failed pg = None" and a: "calm pg a" "goes_well p pg a" "calm_run ?pg as" "goes_well_run p ?pg as"
    using Cons.prems by simp_all
  note g = calm_step [OF Cons.prems(1) live a(1)]
  have "failed ?pg = None" using a(3) Cons.prems(4) by (cases as) (simp_all add: page_run_def)
  with passed_on_stays [OF g] step_well [OF Cons.prems(1) live a(1,2)] Cons.prems(5)
  have "under_way p pc ?pg \<or> (\<exists>dc. (p, pc, dc) \<in> set (passed_on ?pg))" by fastforce
  with Cons.IH [OF _ a(3,4)] goes_calmly_ok [OF g] Cons.prems(4) show ?case by (simp add: page_run_def)
qed (simp add: page_run_def)

text \<open>The loop, when its turns come, hands all peers to its caller.\<close>

definition drain :: "page \<Rightarrow> page" where
  "drain pg = page_run pg (replicate (length (peer_rx pg)) (TakePeer True))"

lemma drain_met: "failed pg = None \<Longrightarrow> met (drain pg) = passed_on pg"
proof -
  have "failed pg = None \<Longrightarrow> length (peer_rx pg) = n \<Longrightarrow> met (page_run pg (replicate n (TakePeer True))) = passed_on pg" for n
  proof (induction n arbitrary: pg)
    case (Suc n)
    then obtain info rest where r: "peer_rx pg = info # rest" by (cases "peer_rx pg") auto
    with Suc.prems show ?case
      using Suc.IH [of "take_peer True pg"] by (simp add: page_run_def page_step_eval)
  qed (simp add: page_run_def)
  then show "failed pg = None \<Longrightarrow> met (drain pg) = passed_on pg" by (simp add: drain_def)
qed

text \<open>From any moment of an introduction: the actions that finish it.\<close>

definition finishing :: "page \<Rightarrow> nat \<Rightarrow> intro_task \<Rightarrow> string \<Rightarrow> nat \<Rightarrow> page_action list" where
  "finishing pg k t sdp dc = (case t of
     Describing p pc \<Rightarrow> [Wake k True (Described (Inr (Some sdp))), Wake (next_task pg) True (ChannelUp dc True)]
   | Answering p pc \<Rightarrow> [Wake k True (Described (Inr (Some sdp))), Wake (next_task pg) True (ChannelUp dc True)]
   | _ \<Rightarrow> [Wake k True (ChannelUp dc True)])"

lemma channel_finishes:
  assumes ok: "page_ok pg" and live: "failed pg = None" and t: "map_of (tasks pg) k = Some t" "held_by t = Some (p, pc)"
    and off: "\<And>p pc. t \<noteq> Answering p pc"
  shows "peer_rx (page_step pg (Wake k True (ChannelUp dc True))) = peer_rx pg @ [(p, pc, dc)] \<and>
    failed (page_step pg (Wake k True (ChannelUp dc True))) = None"
  using page_ok_wake(3) [OF ok t] t off live
  by (cases t) (auto simp: page_step_eval wake_eval introduce_done_def offer_done_def send_peer_def settle_result_def settle_def)

lemma finishing_hands_over:
  assumes ok: "page_ok pg" and live: "failed pg = None" and t: "map_of (tasks pg) k = Some t" "contact t = Some (p, pc)"
  shows "(p, pc, dc) \<in> set (passed_on (page_run pg (finishing pg k t sdp dc))) \<and> failed (page_run pg (finishing pg k t sdp dc)) = None"
proof -
  let ?del = "pg\<lparr>tasks := AList.delete k (tasks pg)\<rparr>"
  note pw = page_ok_wake [OF ok t(1)]
  have "p \<notin> busy ?del" by (rule pw(2) [OF contact_peer [OF t(2)]])
  note busy = this
  have last: "(p, pc, dc) \<in> set (passed_on (page_step pg' (Wake j True (ChannelUp dc True)))) \<and>
      failed (page_step pg' (Wake j True (ChannelUp dc True))) = None"
    if "page_ok pg'" "failed pg' = None" "map_of (tasks pg') j = Some t'" "held_by t' = Some (p, pc)" "\<And>p pc. t' \<noteq> Answering p pc"
    for pg' j t'
    using channel_finishes [OF that, of dc] by simp
  show ?thesis
  proof (cases t)
    case (Describing q c)
    let ?st = "insert_peer (intro pg) p pc"
    let ?mid = "?del\<lparr>intro := ?st, to_ws := to_ws pg @ [send_offer ?st p sdp]\<rparr>"
    have mid: "page_ok ?mid" unfolding page_ok_fields
      by (rule page_ok_intro [OF pw(1)]) (use busy in \<open>auto simp: insert_peer_def\<close>)
    then have "page_ok (add_task (Offering p pc sdp) ?mid)"
      by (rule page_ok_add_task) (use busy in \<open>auto simp: insert_peer_def\<close>)
    from last [OF this _ new_task [OF mid]] live Describing t show ?thesis
      by (simp add: page_run_def finishing_def page_step_eval wake_eval add_task_def)
  next
    case (Answering q c)
    let ?mid = "?del\<lparr>to_ws := to_ws pg @ [send_answer (intro pg) p sdp]\<rparr>"
    have mid: "page_ok ?mid" by (rule page_ok_shape [OF pw(1)])
    then have "page_ok (add_task (AwaitingChannel p pc) ?mid)"
      by (rule page_ok_add_task) (use busy pw(3) t Answering in auto)
    from last [OF this _ new_task [OF mid]] live Answering t show ?thesis
      by (simp add: page_run_def finishing_def page_step_eval wake_eval add_task_def)
  qed (use last [OF ok live t(1)] t in \<open>auto simp: finishing_def page_run_def\<close>)
qed

end
