(* ===== verification/Panics.thy ===== *)
theory Panics
  imports Election Replication
begin

text \<open>
  How a leader with one entry comes to panic over a follower that has none: its first request
  carries no entry, and counts as starting at its last one; the rejection takes the peer's next
  index to zero, and the index before that is none.
\<close>

text \<open>A request to a peer that is thought to have everything.\<close>

lemma append_entries_probes:
  assumes ok: "inner_ok env w" and n: "entries_of env w \<noteq> []" "last_log_index (store w) \<noteq> - 1"
    and client: "map_of (peer_clients w) p = Some client" "connected client" "p \<notin> set (in_flight_peers l)"
    and nxt: "map_of (next_indices l) p = Some (last_log_index (store w) + 1)"
  shows "\<exists>l' q. append_entries env w l p = Inr (l', [CallAppend p (last_log_index (store w)) (last_log_index (store w)) q]) \<and>
    ae_term q = term_of w \<and> ae_prev_log_index q = last_log_index (store w) \<and> ae_entries q = []"
proof -
  let ?n = "last_log_index (store w)"
  have st: "storage_ok env (store w)" using ok by (simp add: inner_ok_def)
  have len: "length (entries_of env w) = unat ?n" by simp
  have nz: "0 < ?n" using n(1) len by (metis length_0_conv unat_0 word_gt_0)
  have n1: "?n + 1 \<noteq> 0" "unat (?n + 1) = Suc (unat ?n)" using n(2) unat_plus_one [OF n(2)] by auto
  have "sublog env (store w) (range_excl (?n + 1) (?n + 1 + MAX_BATCH_SIZE)) = Inr []"
    using sublog_excl [OF st n1(1)] n1(2) len by simp
  moreover have "get_log env (store w) ?n = Inr (Some (entries_of env w ! (unat ?n - 1)))"
    using get_log_spec [OF st, of ?n] nz len by (auto simp: log_nth_def)
  ultimately show ?thesis using client nxt nz by (simp add: append_entries_def Let_def)
qed

text \<open>A follower with no log rejects what follows an entry.\<close>

lemma empty_log_rejects:
  assumes ok: "inner_ok env w" and log: "entries_of env w = []" and q: "term_of w \<le> ae_term q" "ae_prev_log_index q \<noteq> 0"
    and step: "worker_step env (Follower w) (RpcEvent (AppendEntries q) tx) = Inr (st', out)"
  shows "\<exists>rest. out = RpcReply tx (AppendEntriesR \<lparr>aer_term = ae_term q, aer_success = False\<rparr>) # rest"
proof -
  from step obtain s b w1 resp where s: "update_term env (store w) (ae_term q) = Inr (s, b)"
    and h: "handle_append_entries env (w\<lparr>store := s, leader_id := Some (ae_leader_id q)\<rparr>) q = Inr (w1, resp)"
    and out: "\<exists>rest. out = RpcReply tx (AppendEntriesR resp) # rest"
    by (auto simp: worker_step_def follower_step_def follower_handle_rpc_def after_def rbind_eq_Inr)
  have t: "current_term s = ae_term q"
    using update_term_node(3) [OF inner_ok_node [OF ok] s] q(1) by simp
  note u = update_term_inner [OF ok s]
  have "storage_ok env s" using u(3) by (simp add: inner_ok_def)
  have nz: "0 < unat (ae_prev_log_index q)" using q(2) by (simp add: unat_gt_0)
  from get_log_spec [OF \<open>storage_ok env s\<close>, of "ae_prev_log_index q"] u(2) log q(2) nz
  have "get_log env s (ae_prev_log_index q) = Inr None" by (simp add: log_nth_def)
  with h t q(2) have "resp = \<lparr>aer_term = ae_term q, aer_success = False\<rparr>"
    by (simp add: handle_append_entries_def Let_def)
  with out show ?thesis by simp
qed

text \<open>A rejection of a request that starts at the first entry makes the leader panic.\<close>

lemma first_rejection_panics:
  assumes ok: "inner_ok env w" and max: "last_log_index (store w) \<noteq> - 1"
    and client: "map_of (peer_clients w) p = Some client" "connected client"
    and nxt: "map_of (next_indices l) p = Some i"
  shows "worker_step env (Leader w l)
    (AppendResponse p 1 j (Inr (AppendEntriesR \<lparr>aer_term = term_of w, aer_success = False\<rparr>))) = Inl UnwrapNone"
proof -
  have st: "storage_ok env (store w)" using ok by (simp add: inner_ok_def)
  have up: "update_term env (store w) (term_of w) = Inr (store w, False)" by (simp add: update_term_def)
  have "last_log_index (store w) < - 1" using max word_n1_ge [of "last_log_index (store w)"] by (simp add: order.not_eq_order_implies_strict)
  then have "get_log env (store w) (- 1) = Inr None"
    by (simp add: get_log_def)
  then have "append_entries env w (l\<lparr>in_flight_peers := removeAll p (in_flight_peers l),
      next_indices := AList.update p 0 (next_indices l)\<rparr>) p = Inl UnwrapNone"
    using client word_gt_0 [of "- 1 :: u64"] by (simp add: append_entries_def Let_def update_conv')
  with up nxt show ?thesis
    by (simp add: worker_step_def leader_step_def handle_append_entries_response_def Let_def)
qed

end
