(* ===== verification/Html.thy ===== *)
theory Html
  imports Main
begin

text \<open>
  What the pages' \<^verbatim>\<open>view\<close> functions return: the tree of yew's \<^verbatim>\<open>html!\<close> macro. A handler is attached
  to the name of an event and is whatever the page makes of the event's input ('h). How the
  browser shows a tree is outside.
\<close>

datatype attribute =
    Attr string string
  | Flag string bool
  | Classes "string list"

datatype 'h html =
    Element string "attribute list" "(string \<times> 'h) list" "'h html list"
  | Fragment "'h html list"
  | Text string

text \<open>The texts of a tree from top to bottom, and the handlers of the elements of a class.\<close>

fun texts :: "'h html \<Rightarrow> string list" where
  "texts (Element tag attrs hs cs) = concat (map texts cs)"
| "texts (Fragment cs) = concat (map texts cs)"
| "texts (Text t) = [t]"

definition has_class :: "string \<Rightarrow> attribute list \<Rightarrow> bool" where
  "has_class c attrs \<longleftrightarrow> (\<exists>cs \<in> {cs. Classes cs \<in> set attrs}. c \<in> set cs)"

lemma has_class_simps [simp]:
  "has_class c [] = False"
  "has_class c (Classes cs # attrs) = (c \<in> set cs \<or> has_class c attrs)"
  "has_class c (Attr n v # attrs) = has_class c attrs"
  "has_class c (Flag n b # attrs) = has_class c attrs"
  by (auto simp: has_class_def)

fun handlers_at :: "string \<Rightarrow> string \<Rightarrow> 'h html \<Rightarrow> 'h list" where
  "handlers_at c ev (Element tag attrs hs cs) =
     (if has_class c attrs then [h. (e, h) \<leftarrow> hs, e = ev] else []) @ concat (map (handlers_at c ev) cs)"
| "handlers_at c ev (Fragment cs) = concat (map (handlers_at c ev) cs)"
| "handlers_at c ev (Text t) = []"

fun handlers :: "'h html \<Rightarrow> 'h list" where
  "handlers (Element tag attrs hs cs) = map snd hs @ concat (map handlers cs)"
| "handlers (Fragment cs) = concat (map handlers cs)"
| "handlers (Text t) = []"

text \<open>The links of a tree.\<close>

fun hrefs :: "'h html \<Rightarrow> string list" where
  "hrefs (Element tag attrs hs cs) =
     (if tag = ''a'' then [v. Attr n v \<leftarrow> attrs, n = ''href''] else []) @ concat (map hrefs cs)"
| "hrefs (Fragment cs) = concat (map hrefs cs)"
| "hrefs (Text t) = []"

end
