(* ===== verification/TodoView.thy ===== *)
theory TodoView
  imports Todo Html Radix
begin

text \<open>
  The page of the todo list, the \<^verbatim>\<open>view\<close> functions of todo.rs: what it shows of a state, and the
  command that each of its controls sends.
\<close>

section \<open>The page\<close>

text \<open>
  \<open>Send f\<close> is a callback made by \<^verbatim>\<open>raft_callback\<close> or \<^verbatim>\<open>raft_batch_callback\<close>: \<open>f\<close> takes the event's
  input, a field's text or a key (or nothing), and may yield a command. \<open>Local\<close> is a message to the
  page itself.
\<close>

datatype todo_handler =
    Send "string \<Rightarrow> TodoMsg option"
  | Local TodoPageMsg

definition always :: "TodoMsg \<Rightarrow> todo_handler" where
  "always cmd = Send (\<lambda>_. Some cmd)"

fun filter_name :: "Filter \<Rightarrow> string" where
  "filter_name FilterAll = ''All''"
| "filter_name FilterActive = ''Active''"
| "filter_name FilterCompleted = ''Completed''"

definition view_filter :: "TodoState \<Rightarrow> Filter \<Rightarrow> todo_handler html" where
  "view_filter st flt =
     (let cls = if filter_by st = flt then ''selected'' else ''not-selected''
      in Element ''li'' [] []
           [Element ''a'' [Classes [cls], Attr ''href'' (as_href flt)]
              [(''onclick'', always (SetFilter flt))]
              [Text (filter_name flt)]])"

definition view_input :: "TodoState \<Rightarrow> todo_handler html" where
  "view_input st =
     Element ''input''
       [Classes [''new-todo''], Attr ''placeholder'' ''What needs to be done?'', Attr ''value'' (input_value st)]
       [(''oninput'', Send (\<lambda>value. Some (Update value))),
        (''onkeypress'', Send (on_enter AddEntry))] []"

definition view_entry_edit_input :: "TodoState \<Rightarrow> usize \<times> Entry \<Rightarrow> todo_handler html" where
  "view_entry_edit_input st r =
     (let (idx, entry) = r
      in if editing entry
         then Element ''input''
                [Classes [''edit''], Attr ''type'' ''text'', Attr ''value'' (edit_value st)]
                [(''onmouseover'', Local Focus),
                 (''oninput'', Send (\<lambda>value. Some (UpdateEdit value))),
                 (''onblur'', always (Edit idx)),
                 (''onkeypress'', Send (on_enter (Edit idx)))] []
         else Element ''input'' [Attr ''type'' ''hidden''] [] [])"

definition view_entry :: "TodoState \<Rightarrow> usize \<times> Entry \<Rightarrow> todo_handler html" where
  "view_entry st r =
     (let (idx, entry) = r;
          class = [''todo''] @ (if editing entry then ['' editing''] else []) @ (if completed entry then ['' completed''] else [])
      in Element ''li'' [Classes class] []
           [Element ''div'' [Classes [''view'']] []
              [Element ''input'' [Attr ''type'' ''checkbox'', Classes [''toggle''], Flag ''checked'' (completed entry)]
                 [(''onclick'', always (Toggle idx))] [],
               Element ''label'' [] [(''ondblclick'', always (ToggleEdit idx))] [Text (description entry)],
               Element ''button'' [Classes [''destroy'']] [(''onclick'', always (Remove idx))] []],
            view_entry_edit_input st (idx, entry)])"

text \<open>\<^verbatim>\<open>entries.iter().filter(..).enumerate().map(view_entry)\<close>\<close>

definition todo_rows :: "TodoState \<Rightarrow> todo_handler html list" where
  "todo_rows st =
     map (\<lambda>(n, e). view_entry st (word_of_nat n, e)) (enumerate 0 (filter (fitting st) (entries st)))"

definition stylesheet :: "string \<Rightarrow> todo_handler html" where
  "stylesheet url = Element ''link'' [Attr ''rel'' ''stylesheet'', Attr ''href'' url] [] []"

definition todo_view :: "TodoState \<Rightarrow> todo_handler html" where
  "todo_view st =
     (let hidden_class = if entries st = [] then ''hidden'' else ''''
      in Fragment
          [stylesheet ''https://cdn.jsdelivr.net/npm/todomvc-common@1.0.5/base.css'',
           stylesheet ''https://cdn.jsdelivr.net/npm/todomvc-app-css@2.3.0/index.css'',
           Element ''div'' [Classes [''todomvc-wrapper'']] []
            [Element ''section'' [Classes [''todoapp'']] []
              [Element ''header'' [Classes [''header'']] [] [Element ''h1'' [] [] [Text ''todos''], view_input st],
               Element ''section'' [Classes [''main'', hidden_class]] []
                [Element ''input''
                   [Attr ''type'' ''checkbox'', Classes [''toggle-all''], Attr ''id'' ''toggle-all'',
                    Flag ''checked'' (is_all_completed st)]
                   [(''onclick'', always ToggleAll)] [],
                 Element ''label'' [Attr ''for'' ''toggle-all''] [] [],
                 Element ''ul'' [Classes [''todo-list'']] [] (todo_rows st)],
               Element ''footer'' [Classes [''footer'', hidden_class]] []
                [Element ''span'' [Classes [''todo-count'']] []
                   [Element ''strong'' [] [] [Text (show_radix 10 (total st))], Text '' item(s) left''],
                 Element ''ul'' [Classes [''filters'']] [] (map (view_filter st) [FilterAll, FilterActive, FilterCompleted]),
                 Element ''button'' [Classes [''clear-completed'']] [(''onclick'', always ClearCompleted)]
                   [Text (''Clear completed ('' @ show_radix 10 (total_completed st) @ '')'')]]],
             Element ''footer'' [Classes [''info'']] []
              [Element ''p'' [] [] [Text ''Double-click to edit a todo''],
               Element ''p'' [] []
                [Text ''Written by '',
                 Element ''a'' [Attr ''href'' ''https://github.com/shosti/'', Attr ''target'' ''_blank''] [] [Text ''Emanuel Evans'']],
               Element ''p'' [] []
                [Text ''Adapted from TodoMVC by '',
                 Element ''a'' [Attr ''href'' ''https://github.com/DenisKolodin/'', Attr ''target'' ''_blank''] []
                   [Text ''Denis Kolodin'']]]]])"

text \<open>
  The page starts with an empty list, and every notification of Raft makes it ask for the state.
\<close>

definition todo_create :: TodoState where
  "todo_create = todo_default"

definition todo_run_raft :: "unit list \<Rightarrow> TodoPageMsg list" where
  "todo_run_raft notifications = map (\<lambda>_. StateUpdate) notifications"

section \<open>The rows\<close>

lemma length_shown: "length (shown_at st) = length (filter (fitting st) (entries st))"
  using arg_cong [OF shown_entries, of length st] by simp

lemma usize_position:
  assumes "length (entries st) < 2 ^ 32" and "n < length (filter (fitting st) (entries st))"
  shows "unat (word_of_nat n :: usize) = n"
proof -
  have "n < length (entries st)" using assms(2) length_filter_le [of "fitting st" "entries st"] by linarith
  with assms(1) show ?thesis by (simp add: unsigned_of_nat take_bit_nat_eq_self)
qed

lemma todo_rows_nth:
  "n < length (todo_rows st) \<Longrightarrow>
     todo_rows st ! n = view_entry st (word_of_nat n, entries st ! (shown_at st ! n))"
proof -
  assume n: "n < length (todo_rows st)"
  then have "n < length (shown_at st)" by (simp add: todo_rows_def length_shown)
  moreover have "filter (fitting st) (entries st) ! n = map (\<lambda>i. entries st ! i) (shown_at st) ! n"
    by (simp only: shown_entries)
  ultimately show ?thesis using n by (simp add: todo_rows_def nth_enumerate_eq)
qed

lemma length_todo_rows: "length (todo_rows st) = length (shown_at st)"
  by (simp add: todo_rows_def length_shown)

text \<open>A row shows its entry's text, and its controls name its position.\<close>

lemma view_entry_parts:
  "texts (view_entry st (idx, e)) = [description e]"
  "handlers_at ''toggle'' ''onclick'' (view_entry st (idx, e)) = [always (Toggle idx)]"
  "handlers_at ''destroy'' ''onclick'' (view_entry st (idx, e)) = [always (Remove idx)]"
  by (simp_all add: view_entry_def view_entry_edit_input_def Let_def)

section \<open>The commands of the page\<close>

lemma row_sends:
  assumes "Send f \<in> set (handlers (view_entry st (idx, e)))" and "f input = Some cmd"
    and "unat idx < length (shown_at st)"
  shows "in_range st cmd"
  using assms by (auto simp: view_entry_def view_entry_edit_input_def Let_def always_def on_enter_def split: if_splits)

lemma view_sends_in_range:
  assumes "length (entries st) < 2 ^ 32" and h: "Send f \<in> set (handlers (todo_view st))" and f: "f input = Some cmd"
  shows "in_range st cmd"
proof (cases "\<exists>row \<in> set (todo_rows st). Send f \<in> set (handlers row)")
  case True
  then obtain n where n: "n < length (todo_rows st)" "Send f \<in> set (handlers (todo_rows st ! n))"
    by (metis in_set_conv_nth)
  from n(1) have "unat (word_of_nat n :: usize) < length (shown_at st)"
    using usize_position [OF assms(1), of n] by (simp add: todo_rows_def length_shown)
  with row_sends n f show ?thesis by (metis todo_rows_nth)
next
  case False
  with h have "Send f \<in> {always ToggleAll, always ClearCompleted, Send (\<lambda>value. Some (Update value)), Send (on_enter AddEntry)}
      \<union> range (\<lambda>flt. always (SetFilter flt))"
    by (auto simp: todo_view_def Let_def view_input_def view_filter_def stylesheet_def)
  with f show ?thesis by (auto simp: always_def on_enter_def split: if_splits)
qed

section \<open>Commands that are sent twice\<close>

lemma shown_at_change:
  assumes "fitting s e = fitting s (entries s ! i)" and "i < length (entries s)"
  shows "shown_at (s\<lparr>entries := (entries s)[i := e]\<rparr>) = shown_at s"
  using assms by (auto simp: shown_at_def nth_list_update intro!: filter_cong)

lemma edit_twice:
  assumes "unat idx < length (shown_at s)" and "trim (edit_value s) \<noteq> []"
  shows "\<exists>s' s''. todo_apply s (Edit idx) = Inr s' \<and> todo_apply s' (Edit idx) = Inr s''
    \<and> (let i = shown_at s ! unat idx in entries s'' = take i (entries s) @ drop (Suc i) (entries s))"
proof -
  let ?i = "shown_at s ! unat idx" and ?v = "trim (edit_value s)"
  let ?e = "(entries s ! ?i)\<lparr>description := ?v, editing := \<not> editing (entries s ! ?i)\<rparr>"
  let ?s' = "s\<lparr>entries := (entries s)[?i := ?e], edit_value := []\<rparr>"
  have i: "?i < length (entries s)" "fitting s (entries s ! ?i)" using shown_at_less [OF assms(1)] by simp_all
  have fit: "fitting s ?e = fitting s (entries s ! ?i)" by (cases "filter_by s") simp_all
  have first: "todo_apply s (Edit idx) = Inr ?s'"
    using assms by (simp add: todo_apply_def complete_edit_def change_shown_eq Let_def)
  have shown: "shown_at ?s' = shown_at s"
    using shown_at_change [OF fit i(1)] by (simp add: shown_at_def)
  have "trim [] = []" by (simp add: trim_def)
  then have "todo_apply ?s' (Edit idx) = Inr (?s'\<lparr>entries := take ?i (entries ?s') @ drop (Suc ?i) (entries ?s')\<rparr>)"
    using assms(1) by (simp add: todo_apply_def complete_edit_def remove_entry_eq shown Let_def)
  with first show ?thesis by (auto simp: Let_def)
qed

end
