(* ===== verification/PageView.thy ===== *)
theory PageView
  imports RaftInit Benchmark Html
begin

text \<open>
  What the start page shows in each of its states (raft_init.rs), the page of the benchmark
  (benchmark.rs), and the pages of lib.rs, among which the address chooses.
\<close>

section \<open>The start page\<close>

text \<open>
  \<open>OnInput f\<close> is a handler that takes the event's input and may yield a message to the page; \<open>app\<close>
  is the application's component, which gets the Raft that was started.
\<close>

datatype 'r init_handler = OnInput "string \<Rightarrow> 'r InitMsg option"

definition on_click :: "'r InitMsg \<Rightarrow> 'r init_handler" where
  "on_click msg = OnInput (\<lambda>_. Some msg)"

definition button :: "'r InitMsg \<Rightarrow> string \<Rightarrow> 'r init_handler html" where
  "button msg label = Element ''button'' [Attr ''type'' ''button''] [(''onclick'', on_click msg)] [Text label]"

definition render_setup :: "string \<Rightarrow> usize \<Rightarrow> 'r init_handler html" where
  "render_setup key local_storage_items =
     Fragment
      [Element ''h1'' [] [] [Text ''Startup''],
       Element ''p'' [] [] [button StartCluster ''Start new cluster''],
       Element ''p'' [] []
        [Element ''label'' [Attr ''for'' ''join-session-key''] [] [Text ''Join existing cluster: ''],
         Element ''input''
           [Attr ''type'' ''text'', Attr ''value'' key, Attr ''name'' ''join-session-key'',
            Attr ''placeholder'' ''Cluster ID'']
           [(''oninput'', OnInput (\<lambda>value. Some (UpdateSessionKey value))),
            (''onkeypress'', OnInput (\<lambda>key. if key = ''Enter'' then Some JoinCluster else None))] []],
       Element ''p'' [] []
        [Element ''div'' [] []
          [button ClearStorage
             (''Clear local storage (currently '' @ to_string local_storage_items @ '' item(s))'')]]]"

definition member_link :: "string \<Rightarrow> 'r init_handler html" where
  "member_link url =
     Element ''div'' [] [] [Element ''a'' [Attr ''href'' url, Attr ''target'' ''_blank''] [] [Text url]]"

definition render_waiting :: "string \<Rightarrow> string \<Rightarrow> u128 \<Rightarrow> 'r init_handler html" where
  "render_waiting hostname path key =
     Fragment
      [Element ''h1'' [] [] [Text ''Waiting for cluster to start...''],
       Element ''h3'' [] [] [Text (''Cluster ID is '' @ format_032x key)],
       Element ''p'' [] []
        ([Text ''Open one browser window with each cluster member to start the cluster.'',
          Element ''h4'' [] [] [Text ''Other cluster members:'']]
         @ map member_link (other_cluster_members hostname path key))]"

definition init_view ::
  "string \<Rightarrow> string \<Rightarrow> usize \<Rightarrow> ('r RaftWrapper \<Rightarrow> 'r init_handler html) \<Rightarrow> 'r InitModel \<Rightarrow> 'r init_handler html" where
  "init_view hostname path local_storage_items app m =
     (case init_state m of
        Setup \<Rightarrow> render_setup (init_key m) local_storage_items
      | Waiting key \<Rightarrow> render_waiting hostname path key
      | InitState.Running raft \<Rightarrow> app raft)"

lemma hrefs_waiting: "hrefs (render_waiting hostname path sk) = other_cluster_members hostname path sk"
  by (simp add: render_waiting_def member_link_def comp_def)

section \<open>The benchmark's page\<close>

text \<open>
  \<open>figures\<close> are the elapsed seconds and the iterations per second of a result, computed in floating
  point and printed with two decimals; \<open>show_dump\<close> is the \<^verbatim>\<open>Debug\<close> rendering of a state dump.
\<close>

definition render_bench_result ::
  "('time BenchResult \<Rightarrow> string \<times> string) \<Rightarrow> 'time BenchModel \<Rightarrow> 'time BenchPageMsg html" where
  "render_bench_result figures m =
     (case bm_result m of
        Some res \<Rightarrow>
          let (elapsed_secs, iterations_per_sec) = figures res
          in Element ''div'' [] []
               [Element ''strong'' [] [] [Text ''Results:''],
                Text (to_string (br_iters res) @ '' iterations in '' @ elapsed_secs @ '' seconds ('' @
                      iterations_per_sec @ '' iterations per second)'')]
      | None \<Rightarrow> Fragment [])"

definition render_state_dump :: "(RaftStateDump \<Rightarrow> string) \<Rightarrow> 'time BenchModel \<Rightarrow> 'time BenchPageMsg html" where
  "render_state_dump show_dump m =
     (case bm_dump m of
        Some dump \<Rightarrow> Element ''pre'' [] [] [Text (show_dump dump)]
      | None \<Rightarrow> Fragment [])"

definition bench_view ::
  "('time BenchResult \<Rightarrow> string \<times> string) \<Rightarrow> (RaftStateDump \<Rightarrow> string) \<Rightarrow> 'time BenchModel \<Rightarrow> 'time BenchPageMsg html" where
  "bench_view figures show_dump m =
     (let (title, label) =
        (case bm_state m of
           BenchState.Running \<Rightarrow> (''Benchmark running...'', ''Stop'')
         | Stopped \<Rightarrow> (''Benchmark WRaft'', ''Start''))
      in Fragment
          [Element ''h1'' [] [] [Text title],
           render_bench_result figures m,
           Element ''button'' [Attr ''type'' ''button''] [(''onclick'', ToggleBenchmark)] [Text label],
           Element ''button'' [Attr ''type'' ''button''] [(''onclick'', DumpState)] [Text ''Show Raft State''],
           render_state_dump show_dump m])"

section \<open>The site\<close>

datatype Route = TodoRoute | BenchmarkRoute | HomeRoute

text \<open>A page of the site: either a component with the session key of the address, or a tree.\<close>

datatype 'h page_content =
    TodoPage "u128 option"
  | BenchmarkPage "u128 option"
  | HomePage "'h html"

definition router_anchor :: "Route \<Rightarrow> string \<Rightarrow> Route html" where
  "router_anchor route label = Element ''li'' [] [] [Element ''RouterAnchor'' [] [(''route'', route)] [Text label]]"

definition external_link :: "string \<Rightarrow> string \<Rightarrow> Route html" where
  "external_link url label = Element ''a'' [Attr ''href'' url] [] [Text label]"

definition home_page :: "Route html" where
  "home_page =
     Fragment
      [Element ''h1'' [] [] [Text ''Try out WRaft!''],
       Element ''ul'' [] [] [router_anchor TodoRoute ''Todos'', router_anchor BenchmarkRoute ''Benchmark''],
       Element ''h2'' [] [] [Text ''What is this?''],
       Element ''p'' [] []
        [Text ''This is a toy implementation of the '',
         external_link ''https://raft.github.io/'' ''Raft algorithm'',
         Text '' running in browser windows over WebRTC.''],
       Element ''p'' [] []
        [Text ''For more information, see the '',
         external_link ''https://github.com/shosti/wraft'' ''code'',
         Text '' and accompanying '',
         external_link ''https://eevans.co/blog/wraft/'' ''blog post'',
         Text ''.''],
       Element ''p'' [] [] [Text ''WRaft currently doesn't work on Safari or mobile.'']]"

definition site_view :: "string option \<Rightarrow> Route \<Rightarrow> Route page_content" where
  "site_view hash route =
     (case route of
        HomeRoute \<Rightarrow> HomePage home_page
      | TodoRoute \<Rightarrow> TodoPage (get_session_key hash)
      | BenchmarkRoute \<Rightarrow> BenchmarkPage (get_session_key hash))"

end
