(* ===== verification/Spec2Isabelle.thy ===== *)
theory Spec2Isabelle
  imports Demo RaftInit CommitBound VotedRuns AnswerTypes Timers DataChannel Benchmark Rpc Todo IntroducerProcess PeerTransports Errors Meetings Panics TodoView PageView
begin

text \<open>
  \<^bold>\<open>wraft\<close> is a Raft implementation that runs in web browsers: nodes talk over WebRTC data
  channels, keep their persistent state in the browser's local storage, and replicate the
  commands of an application. This development models the Rust code of the repository.

  \<^bold>\<open>The program and its parts.\<close> A window opens the start page, which creates or takes a session key
  and starts a node. The node finds the other members through the introducer, a server that passes
  commands between the browsers of a session, and sets up a data channel to each. An RPC
  transport runs over every channel; the worker, which is follower, candidate or leader, calls the
  others through it, answers their calls, serves the requests of the application, writes the storage
  and hands committed entries to the task that applies them. The application is a benchmark or a
  todo list. Paths below are those under \<^verbatim>\<open>src/wraft/src\<close> unless they name another crate.

  \<^bold>\<open>Where it is modelled.\<close>
  \<^item> \<^verbatim>\<open>raft/mod.rs\<close>, \<^verbatim>\<open>raft/errors.rs\<close> (data): theory RaftTypes. Structs are records, enums datatypes,
    \<^verbatim>\<open>u64\<close>, \<^verbatim>\<open>u128\<close> and \<^verbatim>\<open>u32\<close> words; Prelude has the panics of the code as the values \<open>Inl p\<close> of a result
    type, and association lists for \<^verbatim>\<open>HashMap\<close>; Radix has the conversions of numbers and text.
  \<^item> \<^verbatim>\<open>raft/storage.rs\<close>: theory Storage. A struct of cached numbers over a map from strings to strings,
    every operation with its panics; its abstraction is a term, a vote and a list of entries.
    LogInterface states, as two locales, what the worker relies on; Storage interprets them.
  \<^item> \<^verbatim>\<open>raft/worker.rs\<close>: Worker (the state and operations the roles share), Follower, Candidate, Leader
    (the handlers of each role), Node (\<^verbatim>\<open>RaftWorkerState\<close>: one step per branch of a \<^verbatim>\<open>select!\<close>, and the
    changes of role). Messages, replies and notifications are the effects of a step.
  \<^item> \<^verbatim>\<open>raft/mod.rs\<close> (\<^verbatim>\<open>Raft::start\<close> and its helpers): Bootstrap; the state machine task and the instance
    of \<^verbatim>\<open>State\<close> for hash maps: StateMachine.
  \<^item> \<^verbatim>\<open>ringbuf/mod.rs\<close>: RingBuf, with the locale of a table of requests and its interpretation.
  \<^item> \<^verbatim>\<open>webrtc_rpc/transport.rs\<close>: Transport (the request manager and a call), Rpc (the serving side, with
    \<^verbatim>\<open>raft/rpc_server.rs\<close> and \<^verbatim>\<open>raft/client.rs\<close>), Connection (both ends with the tasks, channels and
    callbacks between them, in any interleaving; ConnectionRuns has its invariant).
  \<^item> \<^verbatim>\<open>webrtc-introducer\<close>, \<^verbatim>\<open>webrtc-introducer-types\<close>: Introducer; the browsers' side,
    \<^verbatim>\<open>webrtc_rpc/introduction.rs\<close> and \<^verbatim>\<open>webrtc_rpc/mod.rs\<close>: Introduction (the tasks, the callbacks and the loop
    of \<^verbatim>\<open>initiate\<close> with its channels, in any interleaving); what its tasks wait for
    (the descriptions, and the acknowledgement on a new data channel): DataChannel; the transport made of a
    peer that was met, and its end: PeerTransports; the process of the introducer: IntroducerProcess.
  \<^item> \<^verbatim>\<open>raft/errors.rs\<close> and the texts of errors: Errors. \<^verbatim>\<open>util/mod.rs\<close>: Timers, with the election timer of \<^verbatim>\<open>raft/worker.rs\<close> in milliseconds.
  \<^item> \<^verbatim>\<open>raft_init.rs\<close>, \<^verbatim>\<open>lib.rs\<close> (\<^verbatim>\<open>get_session_key\<close>): RaftInit; \<^verbatim>\<open>benchmark.rs\<close>: Benchmark; \<^verbatim>\<open>todo_state.rs\<close>,
    \<^verbatim>\<open>todo.rs\<close>: Todo. What the pages show and what their controls send is in TodoView and PageView, as
    trees of theory Html (\<^verbatim>\<open>view\<close> functions of \<^verbatim>\<open>todo.rs\<close>, \<^verbatim>\<open>raft_init.rs\<close>, \<^verbatim>\<open>benchmark.rs\<close>, \<^verbatim>\<open>lib.rs\<close>).

  \<^bold>\<open>The cluster.\<close> Theory Cluster puts nodes of theory Node on a network and drives them by a schedule
  of actions: timers, client requests, connections, the delivery, failure or loss of a call or of its
  answer, and the reload of a page, which restarts its node from what the browser holds. Every
  theorem about the cluster holds for all schedules.
  \<^item> Elections: Election classifies the steps of a node by what they do to its term, vote and role;
    Voting is the abstract system of ballots, whose quorums are a locale; Simulation proves that the
    cluster refines it; Terms bounds the terms by the number of actions.
  \<^item> Logs: Replication classifies the steps by what they do to the log and by the segments a leader
    sends; Logs is the abstract system of logs with the history of every term; LogMatching proves
    that the cluster refines it. ClusterInvariant has, as a locale, what an invariant of the cluster
    has to show; the bound on terms, the refinement of the logs and what is applied interpret it.
  \<^item> Applying: CommitBound shows that no handler commits past the end of its log and that every wait applies
    what is committed, so that a state machine gets each index once. Moves has what a step does to the term, the log
    and the commit index together; Agreement follows every command a state machine got to the leader that
    committed it, and shows that state machines agree as long as leaders are complete.
  \<^item> Leaders: Completeness is the argument for leader completeness, as a locale of the histories of a cluster;
    Leadership has what a step does to a leader's counts and to a node that takes over, Turns which packets an
    action may send, Ballots Raft's rule for votes and the moment of every ballot; VotedRuns puts them together
    along a run and interprets the locale for the runs whose votes obey the rule.
  \<^item> Answers: AnswerTypes follows the channels of RPCs through the nodes, also those that a leader keeps for
    forwarded requests; an answer is of the kind of its call.
  \<^item> Commit has the walk of the leader's commit index, with what it commits and where it stops.
  \<^item> IntroducerRuns and IntroductionRuns have the invariants of the introducer and of the
    introductions over all their runs; Meetings shows how an introduction ends.
  \<^item> Panics has the steps by which a leader with one entry panics over a follower that has none.
  \<^item> Demo has a concrete environment, and runs of the cluster that evaluate by rewriting. Steps splits
    a step into its handler and the wait that follows.

  \<^bold>\<open>What the properties say.\<close> Elections are safe: a term has at most one leader. Logs match: entries
  of the same index and term are equal, and so is all that precedes them. A state machine gets every index once
  and in order, after a reload from the beginning. If every leader's log begins with what earlier leaders committed,
  all state machines get the same commands; it does in every run whose votes obey Raft's rule, which the code does not
  enforce. Answers are of the kind of their calls. A follower that hears
  from a leader in time calls no election. The storage, the table of requests, the RPC transport, the state machine and the todo list do what their callers rely
  on, and the introducer and the introductions bring the right peers together.
  What the code does \<^emph>\<open>not\<close> guarantee is proved too, on concrete runs or for every state of a
  kind: a committed entry can be lost, because votes look at the length of a log and not at its last
  term; a conflict in a follower's log panics, and so does a leader with one entry over a follower with
  none; an entry of an older term blocks the commit index; a deposed leader is followed and puts off elections; departed nodes stay in the introducer's list; a peer that is
  introduced twice breaks its introduction; the request table accepts fewer than 2^32 requests plus its capacity; a
  command that is sent again after a timeout is applied twice, which deletes an entry of the todo list.

  \<^bold>\<open>Bounds.\<close> Machine integers wrap, as in the release build. Election safety and log matching are about
  runs of fewer than 2^64 - 1 (2^64 - 2) actions, after which a term or an index could wrap, and the
  count of applied commands about fewer than 2^64 - 103, after which the end of a batch of 100 entries could; the
  table of requests hands out fewer than 2^32 tickets. No definition takes fuel: every loop of the code that is
  modelled is a structural or a proved recursion, and a task that waits forever is a schedule
  that never wakes it.

  \<^bold>\<open>Parameters.\<close> Code outside the repository is an argument of the definitions that call it: the codec of
  log entries (\<^verbatim>\<open>bincode\<close> with \<^verbatim>\<open>base64\<close>) and the quota of the local storage are an environment, of
  which theorems assume at most that decoding inverts encoding or that writes fit; so are the hash function behind node ids,
  and the codec of the member list. The floating-point figures of a benchmark and the debug rendering of a
  state dump are parameters of the page that shows them. Data channels, web sockets and broadcast channels
  are inputs of a step; what they may deliver is left open.

  \<^bold>\<open>Limits of the model.\<close> A node whose step panics halts in the cluster, and what that step wrote or sent
  before its panic is dropped; a page is reloaded between two steps. A closed
  response channel, and the channel to the state machine task, are not sources of panics. A
  \<^verbatim>\<open>HashMap\<close> is walked in the order of its association list. When one introduction of a session
  update panics, the code stops the others of that update too, the model does not. Strings have
  characters of one byte. A panic of an introduction's task ends that task alone; that it keeps
  the lock it holds is not modelled.

  \<^bold>\<open>Not modelled.\<close> How yew and the browser show a page, and how the router reads the path; logging
  and the panic hook of \<^verbatim>\<open>util\<close>; the boxing of library errors; the handles that only forward to a channel
  (\<^verbatim>\<open>Raft\<close> as a stream, the clones of clients); the tests. The cluster of theory Cluster has no clock: there a timer may expire at any time, and
  Timers has the time of one follower's timer on its own.
\<close>

section \<open>Elections\<close>

lemma election_runs: "is_leader_in (run demo_env demo election) 1 1"
  by (simp add: runs)

text \<open>
  C1: Election safety. A cluster of distinct members starts with empty storages. Whatever the
  network and the timers do (messages delayed, reordered, lost or failed, connections lost,
  nodes restarted), as long as fewer than 2^64 - 1 actions happened, two nodes that are leader
  in the same term at any two moments of the run are the same node.
\<close>

theorem election_safety:
  assumes "distinct ms" and "list_all (member_action ms) as" and "length as < 2 ^ 64 - 1"
    and "i \<le> length as" and "is_leader_in (run env (cluster_init env sk ms) (take i as)) n t"
    and "j \<le> length as" and "is_leader_in (run env (cluster_init env sk ms) (take j as)) m t"
  shows "n = m"
proof -
  from run_elects [OF assms(1-3), of env sk] obtain vs where
    ok: "voting_ok (set ms) (majority (length ms)) vs" and "(t, n) \<in> elected vs" "(t, m) \<in> elected vs"
    using assms(4-7) unfolding elects_def by blast
  with one_leader_per_term [of ms vs t n m] assms(1) show ?thesis by (simp add: distinct_card)
qed

theorem election_safety_witness:
  "is_leader_in (run demo_env demo election) 1 1 \<and> \<not> is_leader_in (run demo_env demo election) 2 1"
  using election_safety [of "[1, 2, 3]" election 4 demo_env 1 1 1 4 2] election_runs by auto

text \<open>
  C2: Every run of the cluster, of fewer than 2^64 - 1 actions, is simulated by a run of the
  abstract voting system: its terms, votes and roles are those of the nodes that run, and every
  vote call and every granted vote on the wire is one of its ballots.
\<close>

theorem cluster_refines_voting:
  assumes "distinct ms" and "list_all (member_action ms) as" and "length as < 2 ^ 64 - 1"
  shows "\<exists>vs. (vstep (set ms) (majority (length ms)))\<^sup>*\<^sup>* (v_init (\<lambda>_. 0) (\<lambda>_. None)) vs
    \<and> sim ms (run env (cluster_init env sk ms) as) vs"
  using run_elects [OF assms, of env sk] unfolding elects_def by blast

theorem cluster_refines_voting_witness:
  "\<exists>vs. (vstep (set [1, 2, 3]) (majority (length [1, 2, 3 :: NodeId])))\<^sup>*\<^sup>* (v_init (\<lambda>_. 0) (\<lambda>_. None)) vs
    \<and> sim [1, 2, 3] (run demo_env demo election) vs"
  by (rule cluster_refines_voting) simp_all

text \<open>
  C3: The answer to a vote request, in every role: the node goes to the higher of the two terms;
  it grants its vote exactly when its commit index is not beyond the candidate's log and it has
  not voted for another node in that term (a leader never grants one in its own term); it then
  records the vote, and forgets the old vote whenever the term rises; a higher term makes it a
  follower.
\<close>

theorem vote_answered_once:
  assumes "node_ok (inner_of st)" and "worker_step env st (RpcEvent (RequestVote req) tx) = Inr (st', out)"
  shows "\<exists>resp rest. out = RpcReply tx (RequestVoteR resp) # rest
    \<and> term_of (inner_of st') = max (term_of (inner_of st)) (rv_term req)
    \<and> (rvr_vote_granted resp \<longleftrightarrow> commit_index (inner_of st) \<le> rv_last_log_index req \<and>
        (term_of (inner_of st) < rv_term req \<or>
         term_of (inner_of st) = rv_term req \<and> role_of st \<noteq> LeaderRole \<and>
         vote_of (inner_of st) \<in> {None, Some (rv_candidate req)}))
    \<and> vote_of (inner_of st') =
        (if rvr_vote_granted resp then Some (rv_candidate req)
         else if term_of (inner_of st) < rv_term req then None else vote_of (inner_of st))
    \<and> role_of st' = (if term_of (inner_of st) < rv_term req then FollowerRole else role_of st)"
proof -
  from step_vote_request [OF assms] obtain resp rest where out: "out = RpcReply tx (RequestVoteR resp) # rest"
    and v: "vote_answered (role_of st = LeaderRole) req (inner_of st) (inner_of st') resp"
    and r: "role_of st' = (if term_of (inner_of st) < rv_term req then FollowerRole else role_of st)" .
  show ?thesis
    by (rule exI [of _ resp], rule exI [of _ rest]) (use out v r in \<open>simp add: vote_answered_def\<close>)
qed

theorem vote_answered_once_witness:
  "\<exists>st' out resp rest.
     worker_step demo_env (Follower (demo_inner demo_store))
       (RpcEvent (RequestVote \<lparr>rv_term = 1, rv_candidate = 2, rv_last_log_index = 0, rv_last_log_term = 0\<rparr>) 5)
       = Inr (st', out)
     \<and> out = RpcReply 5 (RequestVoteR resp) # rest \<and> rvr_vote_granted resp \<and> vote_of (inner_of st') = Some 2"
proof -
  let ?ev = "RpcEvent (RequestVote \<lparr>rv_term = 1, rv_candidate = 2, rv_last_log_index = 0, rv_last_log_term = 0\<rparr>) 5"
  obtain st' out where s: "worker_step demo_env (Follower (demo_inner demo_store)) ?ev = Inr (st', out)"
    by (simp add: runs demo_defs)
  have ok: "node_ok (inner_of (Follower (demo_inner demo_store)))"
    using inner_ok_node [OF demo_inner_ok(1)] by simp
  from vote_answered_once [OF ok s] s show ?thesis by (auto simp: demo_defs)
qed

text \<open>
  C4: Terms do not run away: after a run of fewer than 2^64 - 1 actions, the term of every node
  that runs is at most the number of actions. So the 64-bit terms do not wrap around.
\<close>

theorem terms_bounded:
  assumes "distinct ms" and "list_all (member_action ms) as" and "length as < 2 ^ 64 - 1"
    and "nodes (run env (cluster_init env sk ms) as) n = Some st"
  shows "unat (term_of (inner_of st)) \<le> length as"
proof -
  from run_elects [OF assms(1-3), of env sk] obtain vs where
    "elects ms (length as) (run env (cluster_init env sk ms) as) vs" by blast
  with assms(4) show ?thesis by (simp add: elects_def terms_upto_def)
qed

theorem terms_bounded_witness:
  "\<exists>st. nodes (run demo_env demo election) 1 = Some st \<and> term_of (inner_of st) = 1
     \<and> unat (term_of (inner_of st)) \<le> length election"
proof -
  obtain st where s: "nodes (run demo_env demo election) 1 = Some st" "term_of (inner_of st) = 1"
    by (simp add: runs)
  have "unat (term_of (inner_of st)) \<le> length election"
    by (rule terms_bounded [OF _ _ _ s(1)]) simp_all
  with s show ?thesis by blast
qed



section \<open>Replication\<close>

abbreviation replication :: "u64 action list" where
  "replication \<equiv> election @ [Request 1 (Apply 7) 0, Deliver 0]"

lemma replication_logs:
  "log_at demo_env (run demo_env demo replication) 1 = Some [entry 7 1 1]"
  "log_at demo_env (run demo_env demo replication) 2 = Some [entry 7 1 1]"
  by (simp_all add: runs log_at_def log_of_def entry_at_def entry_def cong del: rbind_cong)

text \<open>
  C6: Log matching. Whatever happens to a cluster of distinct members that starts with empty
  storages, for fewer than 2^64 - 2 actions: if the logs of two nodes that run have entries of
  the same term at the same index, the logs are the same up to that index. It needs the codec of
  log entries to read back what it wrote.
\<close>

theorem log_matching:
  assumes "codec_ok env" and "distinct ms" and "list_all (member_action ms) as" and "length as < 2 ^ 64 - 2"
    and "log_at env (run env (cluster_init env sk ms) as) n = Some l"
    and "log_at env (run env (cluster_init env sk ms) as) m = Some l'"
    and "i < length l" and "i < length l'" and "le_term (l ! i) = le_term (l' ! i)"
  shows "take (Suc i) l = take (Suc i) l'"
proof -
  from run_replicates [OF assms(1-4), of sk] obtain vs s where
    rep: "replicates env ms (length as) (run env (cluster_init env sk ms) as) vs s" by blast
  show ?thesis
    by (rule copied_agree [OF replicates_log(2) [OF rep assms(5)] replicates_log(2) [OF rep assms(6)] assms(7-9)])
qed

theorem log_matching_witness:
  "\<exists>l l'. log_at demo_env (run demo_env demo replication) 1 = Some l
     \<and> log_at demo_env (run demo_env demo replication) 2 = Some l'
     \<and> le_term (l ! 0) = le_term (l' ! 0) \<and> take (Suc 0) l = take (Suc 0) l'"
proof -
  have l: "0 < length [entry 7 1 1]" by simp
  have m: "list_all (member_action [1, 2, 3]) replication" "length replication < 2 ^ 64 - 2" by simp_all
  have "take (Suc 0) [entry 7 1 1] = take (Suc 0) [entry 7 1 1]"
    by (rule log_matching [OF demo_env_ok(1) _ m replication_logs l l]) simp_all
  with replication_logs show ?thesis by blast
qed

text \<open>
  C7: What a step of a node does to its log, for a log of fewer than 2^64 - 2 entries and events
  whose append-entries requests number their entries from their previous index, as those of
  theorem log_matching's clusters do. It keeps the invariant of the storage, and either leaves
  the log as it is, or merges the entries of the append-entries request that it answers and does
  not lead afterwards, or, on a leader, appends one entry of its term; and every request it
  sends carries a segment of its log with the term of the entry before it.
\<close>

theorem step_changes_log:
  assumes "inner_ok env (inner_of st)" and "unat (last_log_index (store (inner_of st))) < 2 ^ 64 - 2"
    and "event_indexed ev" and "worker_step env st ev = Inr (st', out)"
  shows "inner_ok env (inner_of st')
    \<and> (entries_of env (inner_of st') = entries_of env (inner_of st)
       \<or> (\<exists>q tx. ev = RpcEvent (AppendEntries q) tx \<and> role_of st' \<noteq> LeaderRole
            \<and> prev_matches (entries_of env (inner_of st)) (ae_prev_log_index q) (ae_prev_log_term q)
            \<and> entries_of env (inner_of st') = raft_merge le_term (entries_of env (inner_of st))
                (unat (ae_prev_log_index q)) (ae_entries q))
       \<or> (\<exists>e. role_of st = LeaderRole \<and> role_of st' = LeaderRole \<and> le_term e = term_of (inner_of st)
            \<and> entries_of env (inner_of st') = entries_of env (inner_of st) @ [e]))
    \<and> (\<forall>p i j q. CallAppend p i j q \<in> set out \<longrightarrow> segment (entries_of env (inner_of st')) q)"
proof -
  from step_log [OF assms] obtain ch where "log_step env ch (inner_of st) (inner_of st') out"
    and "change_allowed st ev (inner_of st') (role_of st') ch" .
  then show ?thesis by (cases ch) (auto simp: log_step_def calls_ok_def)
qed

theorem step_changes_log_witness:
  "\<exists>st' out. worker_step demo_env (Follower (demo_inner demo_store1)) (RpcEvent (AppendEntries
       \<lparr>ae_term = 1, ae_leader_id = 2, ae_prev_log_index = 1, ae_prev_log_term = 1,
        ae_entries = [entry 5 1 2], ae_leader_commit = 1\<rparr>) 4) = Inr (st', out)
     \<and> entries_of demo_env (inner_of st') = [entry 7 1 1, entry 5 1 2]"
proof -
  let ?q = "\<lparr>ae_term = 1, ae_leader_id = 2, ae_prev_log_index = 1, ae_prev_log_term = 1,
        ae_entries = [entry 5 1 2], ae_leader_commit = 1\<rparr>"
  obtain st' out where s: "worker_step demo_env (Follower (demo_inner demo_store1)) (RpcEvent (AppendEntries ?q) 4) = Inr (st', out)"
    and n: "last_log_index (store (inner_of st')) = 2"
    by (simp add: runs demo_defs)
  have i: "unat (last_log_index (store (inner_of (Follower (demo_inner demo_store1))))) < 2 ^ 64 - 2"
    "event_indexed (RpcEvent (AppendEntries ?q) 4)" "inner_ok demo_env (inner_of (Follower (demo_inner demo_store1)))"
    using demo_inner_ok(2) by (simp_all add: demo_inner_def demo_store1_def event_indexed_def entry_def)
  have l: "entries_of demo_env (inner_of st') \<noteq> [\<lparr>le_cmd = 7, le_term = 1, le_idx = 1\<rparr>]"
  proof
    assume "entries_of demo_env (inner_of st') = [\<lparr>le_cmd = 7, le_term = 1, le_idx = 1\<rparr>]"
    from arg_cong [OF this, of length] n show False by simp
  qed
  have f: "store (demo_inner demo_store1) = demo_store1" by (simp add: demo_inner_def)
  from step_changes_log [OF i(3,1,2) s] l s show ?thesis
    by (auto simp: f demo_logs entry_def log_nth_def)
qed

text \<open>
  C8: The answer to an append-entries request whose entries are numbered from its previous
  index: success exactly when the request's term is not old and the log holds the previous entry
  with the given term. On success the log becomes the merge of the log and the entries, as Raft
  defines it (cut at the first conflicting entry, and the rest of the entries after it), and the
  commit index becomes the smaller of the leader's and the last new entry; term and vote stay.
  On failure nothing changes.
\<close>

theorem append_entries_merges:
  assumes "inner_ok env w" and "handle_append_entries env w req = Inr (w', resp)"
    and "indexed_from le_idx (unat (ae_prev_log_index req)) (ae_entries req)"
  shows "inner_ok env w' \<and> aer_term resp = term_of w
    \<and> (aer_success resp \<longleftrightarrow> term_of w \<le> ae_term req
        \<and> prev_matches (entries_of env w) (ae_prev_log_index req) (ae_prev_log_term req))
    \<and> (if aer_success resp
        then entries_of env w' = raft_merge le_term (entries_of env w)
               (unat (ae_prev_log_index req)) (ae_entries req)
          \<and> commit_index w' =
              (if commit_index w < ae_leader_commit req
               then if ae_entries req = [] then ae_leader_commit req
                    else min (ae_leader_commit req) (le_idx (last (ae_entries req)))
               else commit_index w)
          \<and> term_of w' = term_of w \<and> vote_of w' = vote_of w
        else w' = w)"
  by (rule handle_append_entries_spec [OF assms])

theorem append_entries_merges_witness:
  "\<exists>w' resp. handle_append_entries demo_env (demo_inner demo_store1)
       \<lparr>ae_term = 1, ae_leader_id = 2, ae_prev_log_index = 1, ae_prev_log_term = 1,
        ae_entries = [entry 5 1 2], ae_leader_commit = 2\<rparr> = Inr (w', resp)
     \<and> aer_success resp \<and> entries_of demo_env w' = [entry 7 1 1, entry 5 1 2] \<and> commit_index w' = 2"
proof -
  let ?q = "\<lparr>ae_term = 1, ae_leader_id = 2, ae_prev_log_index = 1, ae_prev_log_term = 1,
        ae_entries = [entry 5 1 2], ae_leader_commit = 2\<rparr>"
  obtain w' resp where h: "handle_append_entries demo_env (demo_inner demo_store1) ?q = Inr (w', resp)"
    by (simp add: runs demo_defs)
  have f: "store (demo_inner s) = s" "commit_index (demo_inner s) = 0" "current_term demo_store1 = 1"
    "le_term (entry c t i) = t" "le_idx (entry c t i) = i" for s c t i
    by (simp_all add: demo_defs)
  from append_entries_merges [OF demo_inner_ok(2) h] h show ?thesis
    by (simp add: f demo_logs prev_matches_def log_nth_def)
qed

text \<open>
  C9: How a leader commits. It walks through the indices after its commit index, while enough
  followers are known to hold the entry to make a majority with the leader and the entry is of
  the leader's term; it moves the commit index to the last of them, acknowledges, in order, the
  clients that wait for one of them, and forgets exactly these.
\<close>

theorem commit_rule:
  assumes "storage_ok env (store w)" and "commit_index w \<noteq> - 1"
  shows "let ns = takeWhile (\<lambda>n. quorum w - 1 \<le> agree l n \<and> le_term (entries_of env w ! (unat n - 1)) = term_of w)
                   (range_incl (commit_index w + 1) (last_log_index (store w)))
    in \<exists>m. advance_commit_index env w l =
         Inr (if ns = [] then w else w\<lparr>commit_index := last ns\<rparr>, l\<lparr>in_flight_client_requests := m\<rparr>,
              List.map_filter (\<lambda>i. map_option (\<lambda>tx. ClientReply tx (Inr Ack))
                (map_of (in_flight_client_requests l) i)) ns)
       \<and> map_of m = map_of (in_flight_client_requests l) |` (- set ns)"
  using advance_commit_spec [OF assms, of l] unfolding committable_def [abs_def] acks_def Let_def .

theorem commit_rule_witness:
  "let l = \<lparr>next_indices = [(2, 2), (3, 1)], match_indices = [(2, 1), (3, 0)],
            in_flight_client_requests = [(1, ClientTx 0)], in_flight_peers = []\<rparr>
   in \<exists>m. advance_commit_index demo_env (demo_inner demo_store1) l =
     Inr ((demo_inner demo_store1)\<lparr>commit_index := 1\<rparr>, l\<lparr>in_flight_client_requests := m\<rparr>,
          [ClientReply (ClientTx 0) (Inr Ack)])"
proof -
  let ?l = "\<lparr>next_indices = [(2, 2), (3, 1)], match_indices = [(2, 1), (3, 0)],
            in_flight_client_requests = [(1, ClientTx 0)], in_flight_peers = []\<rparr>"
  have f: "store (demo_inner s) = s" "commit_index (demo_inner s) = 0" "last_log_index demo_store1 = 1"
    "current_term demo_store1 = 1" "cluster_size (demo_inner s) = 3" "le_term (entry c t i) = t" for s c t i
    by (simp_all add: demo_defs demo_store1_def)
  have "storage_ok demo_env (store (demo_inner demo_store1))" by (simp add: f demo_store1_ok)
  from commit_rule [OF this, of ?l] show ?thesis
    by (auto simp: f demo_logs range_incl_Cons range_incl_empty quorum_def agree_def List.map_filter_def Let_def)
qed

text \<open>
  C10: Every index is handed to the state machine once, and in order. Whatever happens to a
  cluster of distinct members that starts with empty storages, for fewer than 2^64 - 103
  actions: a node that runs has applied everything it committed, and nothing past the end of its
  log; its state machine got one command for every index applied since the page was loaded. The
  last action added the commands of the log that follow those the state machine had before, or,
  if it was a restart, those from the beginning of the log. It needs the codec of log entries to
  read back what it wrote.
\<close>

theorem applied_once:
  assumes "codec_ok env" and "distinct ms" and "list_all (member_action ms) (as @ [a])"
    and "length as + 103 < 2 ^ 64"
    and "nodes (run env (cluster_init env sk ms) (as @ [a])) n = Some st"
  shows "let w = inner_of st; l = entries_of env w;
             cl = run env (cluster_init env sk ms) as; cl' = run env (cluster_init env sk ms) (as @ [a]);
             b = (if boots cl' n = boots cl n then applied cl n else []);
             cs = applied cl' n
         in commit_index w \<le> last_applied w \<and> unat (last_applied w) = length cs \<and> length cs \<le> length l
            \<and> cs = b @ map le_cmd (drop (length b) (take (length cs) l))"
proof -
  let ?cl = "run env (cluster_init env sk ms) as"
  have mem: "list_all (member_action ms) as" and len: "length as + 102 < 2 ^ 64" "length as < 2 ^ 64 - 2"
    using assms(3,4) by simp_all
  from run_applied [OF assms(1,2) mem len(1), of sk] obtain b where "applied_ok env b ?cl" by blast
  moreover from run_replicates [OF assms(1,2) mem len(2), of sk] obtain vs s
    where "replicates env ms (length as) ?cl vs s" by blast
  ultimately have "applied_ok env (had ?cl) (act env ?cl a)" using act_applied len(1) by blast
  then have "node_applied env (had ?cl n (boots (act env ?cl a) n)) (applied (act env ?cl a) n) (inner_of st)"
    using assms(5) by (simp add: applied_ok_def run_snoc)
  then show ?thesis
    by (auto simp: Let_def run_snoc node_applied_def commits_ok_def had_def word_le_nat_alt)
qed

theorem applied_once_witness:
  "\<exists>st. nodes (run demo_env demo (replication @ [Deliver 0])) 1 = Some st \<and> unat (last_applied (inner_of st)) = 1
    \<and> applied (run demo_env demo replication) 1 = [] \<and> applied (run demo_env demo (replication @ [Deliver 0])) 1 = [7]"
proof -
  have r: "applied (run demo_env demo replication) 1 = []"
    "applied (run demo_env demo (replication @ [Deliver 0])) 1 = [7]"
    by (simp_all add: runs cong del: rbind_cong)
  obtain st where st: "nodes (run demo_env demo (replication @ [Deliver 0])) 1 = Some st"
    by (simp add: runs cong del: rbind_cong)
  have "list_all (member_action [1, 2, 3]) (replication @ [Deliver 0])" by simp
  from applied_once [OF demo_env_ok(1) _ this _ st] r st show ?thesis by (simp add: Let_def)
qed

text \<open>
  After the entry is committed and node 2 has heard of it, node 2 takes over in term 2: every leader of
  this run has what an earlier one had committed.
\<close>

abbreviation handover :: "u64 action list" where
  "handover \<equiv> replication @ [Deliver 0, Tick 1, Deliver 0, Connect 2 1, Tick 2, Deliver 1, Deliver 1]"

lemma handover_end:
  "is_leader_in (run demo_env demo handover) 2 2"
  "applied (run demo_env demo handover) 1 = [7]" "applied (run demo_env demo handover) 2 = [7]"
  by (simp_all add: runs cong del: rbind_cong)

lemma handover_complete: "leaders_complete (set (leader_views demo_env [1, 2, 3] demo handover))"
proof -
  let ?V = "{(1, [], 0), (1, [entry 7 1 1], 0), (1, [entry 7 1 1], 1), (2, [entry 7 1 1], 1)}"
  have "set (leader_views demo_env [1, 2, 3] demo handover) \<subseteq> ?V"
    by (simp add: List.map_filter_def view_at_def runs log_of_def entry_at_def entry_def cong del: rbind_cong)
  moreover have "leaders_complete ?V" by (simp add: leaders_complete_def entry_def)
  ultimately show ?thesis by (rule leaders_complete_mono [rotated])
qed

text \<open>
  C11: State machines agree as long as leaders are complete. Whatever happens to a cluster of
  distinct members that starts with empty storages, for fewer than 2^64 - 102 actions: if the
  log of every node that led at any moment began with what leaders of earlier terms had
  committed by any moment, then any two members, at any two moments, running, reloaded or
  halted, have given their state machines the same commands in the same order, as far as both
  got. Losing committed entries in an election (as in theorem committed_entry_lost) is therefore
  the only way in which state machines can diverge.
\<close>

theorem state_machine_safety:
  assumes "codec_ok env" and "distinct ms" and "list_all (member_action ms) as" and "length as + 102 < 2 ^ 64"
    and "leaders_complete (set (leader_views env ms (cluster_init env sk ms) as))"
    and "i \<le> length as" and "j \<le> length as"
  shows "let cs = applied (run env (cluster_init env sk ms) (take i as)) n;
             ds = applied (run env (cluster_init env sk ms) (take j as)) p
         in prefix cs ds \<or> prefix ds cs"
  by (rule run_agree [OF assms])

theorem state_machine_safety_witness:
  "is_leader_in (run demo_env demo handover) 2 2 \<and> applied (run demo_env demo handover) 1 = [7]
    \<and> applied (run demo_env demo handover) 2 = [7]
    \<and> (let cs = applied (run demo_env demo (take 12 handover)) 1; ds = applied (run demo_env demo (take 6 handover)) 2
       in prefix cs ds \<or> prefix ds cs)"
proof -
  have "list_all (member_action [1, 2, 3]) handover" "length handover + 102 < 2 ^ 64" "6 \<le> length handover"
    "12 \<le> length handover" by simp_all
  from state_machine_safety [OF demo_env_ok(1) _ this(1,2) handover_complete this(4,3), of 1 2] handover_end
  show ?thesis by simp
qed

lemma handover_votes: "raft_votes demo_env [1, 2, 3] demo handover"
  by (simp add: raft_vote_def up_to_date_def runs log_of_def entry_at_def entry_def is_candidate_in_def
      cong del: rbind_cong)

text \<open>
  C12: Leader completeness and state machine safety, under Raft's rule for votes. Whatever else
  happens to a cluster of distinct members that starts with empty storages, for fewer than 2^64
  - 102 actions: if in every action in which a node gives its vote to another node that is still
  a candidate of the term, the candidate's log is at least as up to date as the voter's (a later
  last term, or the same and no shorter), then the log of every leader begins with what leaders
  of earlier terms had committed, and any two members, at any two moments, have given their
  state machines the same commands in the same order. The source lets a vote depend on the
  voter's commit index alone (theorem committed_entry_lost breaks the rule): that comparison of
  logs is all it lacks, the counting of matching logs, the entries sent and the answers to them
  suffice.
\<close>

theorem leader_completeness:
  assumes "codec_ok env" and "distinct ms" and "list_all (member_action ms) as" and "length as + 102 < 2 ^ 64"
    and "raft_votes env ms (cluster_init env sk ms) as" and "i \<le> length as" and "j \<le> length as"
  shows "leaders_complete (set (leader_views env ms (cluster_init env sk ms) as))
    \<and> (let cs = applied (run env (cluster_init env sk ms) (take i as)) n;
           ds = applied (run env (cluster_init env sk ms) (take j as)) p
       in prefix cs ds \<or> prefix ds cs)"
proof
  show "leaders_complete (set (leader_views env ms (cluster_init env sk ms) as))"
    by (rule run_complete [OF assms(1-5)])
  from run_agree [OF assms(1-4) this assms(6,7)]
  show "let cs = applied (run env (cluster_init env sk ms) (take i as)) n;
           ds = applied (run env (cluster_init env sk ms) (take j as)) p
       in prefix cs ds \<or> prefix ds cs" .
qed

theorem leader_completeness_witness:
  "is_leader_in (run demo_env demo election) 1 1 \<and> is_leader_in (run demo_env demo handover) 2 2
    \<and> applied (run demo_env demo handover) 1 = [7]
    \<and> leaders_complete (set (leader_views demo_env [1, 2, 3] demo handover))"
proof -
  have "list_all (member_action [1, 2, 3]) handover" "length handover + 102 < 2 ^ 64" "1 \<le> length handover"
    by simp_all
  note r = leader_completeness [OF demo_env_ok(1) _ this(1,2) handover_votes this(3,3)]
  have "leaders_complete (set (leader_views demo_env [1, 2, 3] demo handover))"
    by (rule conjunct1 [OF r]) simp
  with handover_end election_runs show ?thesis by blast
qed

text \<open>
  C13: Answers are of the kind of their calls. Whatever happens to a cluster, the answer to a
  vote request is a vote response, the answer to entries is one to entries, also while a leader
  keeps the channels of requests that were forwarded to it until it commits them: the tasks that
  called take the answer and never reach an unreachable arm.
\<close>

theorem answers_typed:
  assumes "packet.Answer orig (Inr resp) \<in> set (net (run env (cluster_init env sk ms) as))"
  shows "case o_tag orig of
           VoteTag t \<Rightarrow> \<exists>r. resp = RequestVoteR r \<and> vote_outcome (Inr resp) = Inr (rvr_vote_granted r)
         | AppendTag t p i j \<Rightarrow> \<exists>r. resp = AppendEntriesR r
         | ForwardTag k \<Rightarrow> \<exists>r. resp = ForwardClientRequestR r \<and>
             forward_outcome (Inr resp) k = Inr [ClientReply (ClientTx k) r]"
proof -
  from run_typed [of env sk ms as] assms have "packet_typed (packet.Answer orig (Inr resp))"
    unfolding typed_def by blast
  then show ?thesis by (cases resp; cases "o_tag orig") (simp_all add: vote_outcome_def forward_outcome_def)
qed

theorem answers_typed_witness:
  "\<exists>orig resp r. packet.Answer orig (Inr resp) \<in> set (net (run demo_env demo replication))
    \<and> o_tag orig = AppendTag 1 2 1 1 \<and> resp = AppendEntriesR r"
proof -
  obtain orig resp where a: "packet.Answer orig (Inr resp) \<in> set (net (run demo_env demo replication))"
    and t: "o_tag orig = AppendTag 1 2 1 1"
    by (simp add: runs cong del: rbind_cong)
  from answers_typed [OF a] t show ?thesis using a by auto
qed

section \<open>The persistent state\<close>

text \<open>
  C14: The storage refines its abstract specification, a term, a vote and a list of entries: any
  sequence of operations that the worker may issue and that returns has, on the strings in the
  browser's local storage, the effect it has on the specification, and keeps the storage's
  invariant.
\<close>

theorem storage_refines:
  assumes "storage_ok env s" and "ops_legal (abs_storage env s) xs" and "rfold (exec_op env) s xs = Inr s'"
  shows "storage_ok env s' \<and> abs_storage env s' = foldl abs_op (abs_storage env s) xs
    \<and> session_key s' = session_key s"
  by (rule exec_ops_spec [OF assms])

theorem storage_refines_witness:
  "\<exists>s'. rfold (exec_op demo_env) demo_store1 [IncrementTerm, SetVote (Some 2), AppendEntry (entry 5 2 2)] = Inr s'
     \<and> abs_storage demo_env s' = \<lparr>p_term = 2, p_vote = Some 2, p_log = [entry 7 1 1, entry 5 2 2]\<rparr>"
proof -
  let ?ops = "[IncrementTerm, SetVote (Some 2), AppendEntry (entry 5 2 2)]"
  have a: "abs_storage demo_env demo_store1 = \<lparr>p_term = 1, p_vote = None, p_log = [entry 7 1 1]\<rparr>"
    by (simp add: abs_storage_def demo_logs) (simp add: demo_store1_def demo_store_def)
  obtain s' where s: "rfold (exec_op demo_env) demo_store1 ?ops = Inr s'"
    by (simp add: runs demo_defs)
  from storage_refines [OF demo_store1_ok _ s] have
    "abs_storage demo_env s' = foldl abs_op (abs_storage demo_env demo_store1) ?ops"
    by (simp add: a) (simp add: entry_def)
  with s show ?thesis by (simp add: a)
qed

text \<open>
  C15: A node that restarts reads back exactly the state it had: after any legal sequence of
  operations that returns, Storage::new over the local storage rebuilds the same storage, with
  its term, vote and log.
\<close>

theorem storage_restart:
  assumes "storage_ok env s" and "ops_legal (abs_storage env s) xs" and "rfold (exec_op env) s xs = Inr s'"
  shows "Storage_new (session_key s) (storage s') = Inr s'"
  using exec_ops_spec [OF assms] Storage_new_recovers [OF storage_ok_meta, of env s'] by simp

theorem storage_restart_witness:
  "\<exists>s'. rfold (exec_op demo_env) demo_store1 [SetVote (Some 2), UpdateTerm 3] = Inr s'
     \<and> Storage_new 1 (storage s') = Inr s'"
proof -
  obtain s' where s: "rfold (exec_op demo_env) demo_store1 [SetVote (Some 2), UpdateTerm 3] = Inr s'"
    by (simp add: runs demo_defs)
  have "session_key demo_store1 = 1" by (simp add: demo_defs)
  with storage_restart [OF demo_store1_ok _ s] s show ?thesis by auto
qed

text \<open>
  C16: Sessions do not disturb each other: the operations of one session's storage, whatever
  their arguments, change no key of the local storage that belongs to another session.
\<close>

theorem session_keys_isolated:
  assumes "keys_ok s" and "rfold (exec_op env) s xs = Inr s'" and "sk \<noteq> session_key s" and "k \<in> session_keys sk"
  shows "storage s' k = storage s k"
proof -
  have "only_session s s'" by (rule exec_ops_session [OF assms(1,2)])
  with assms(3,4) session_keys_disjoint [of sk "session_key s"] show ?thesis
    unfolding only_session_def by blast
qed

theorem session_keys_isolated_witness:
  "\<exists>s'. rfold (exec_op demo_env) demo_store1 [SetVote (Some 2), AppendEntry (entry 5 2 2)] = Inr s'
     \<and> storage s' ''log-2-1'' = None"
proof -
  obtain s' where s: "rfold (exec_op demo_env) demo_store1 [SetVote (Some 2), AppendEntry (entry 5 2 2)] = Inr s'"
    by (simp add: runs demo_defs)
  have k: "keys_ok demo_store1" using demo_store1_ok by (simp add: storage_ok_def)
  have m: "''log-2-1'' \<in> session_keys 2"
  proof -
    have "''log-2-1'' = ''log-'' @ to_string (2 :: u128) @ ''-'' @ to_string (1 :: u64)"
      by simp (simp add: to_string_def show_radix_def radix_digits.simps)
    then show ?thesis unfolding session_keys_def by blast
  qed
  have "session_key demo_store1 = 1" "storage demo_store1 ''log-2-1'' = None" by (simp_all add: demo_defs)
  with session_keys_isolated [OF k s _ m] s show ?thesis by auto
qed

section \<open>Starting a node\<close>

text \<open>
  C17: A node that was started before comes back into the same cluster with what it had: after
  its first start and any legal sequence of operations on its storage, starting it again over
  the local storage, with whatever cluster size and whatever peers arrive, gives it the same id,
  members and cluster size, no client yet, and the storage with its term, vote and log. Its list
  of members is under a key that no session's storage uses.
\<close>

theorem restart_rejoins:
  assumes "codec_ok env" and "peer_codec_ok pc" and "local_storage (peer_configuration_key sk) = None"
    and "\<And>k. k \<in> session_keys sk \<Longrightarrow> local_storage k = None"
    and "raft_start env pc hash_bytes hostname sk members local_storage arrivals closed = Inr (Ready (w, rest))"
    and "ops_legal (abs_storage env (store w)) xs" and "rfold (exec_op env) (store w) xs = Inr s'"
  shows "\<exists>w'. raft_start env pc hash_bytes hostname sk members' (storage s') arrivals' closed' = Inr (Ready (w', arrivals'))
    \<and> node_id w' = node_id w \<and> peers w' = peers w \<and> cluster_size w' = cluster_size w
    \<and> peer_clients w' = [] \<and> store w' = s'
    \<and> (\<forall>key. peer_configuration_key sk \<notin> session_keys key)"
proof -
  let ?m = "local_storage(peer_configuration_key sk \<mapsto> encode_peers pc (peers w))"
  note st = first_start_stores [OF assms(3,5)]
  have fresh: "?m k = None" if "k \<in> session_keys sk" for k
    using assms(4) [OF that] that peer_configuration_not_session [of sk sk] by auto
  from Storage_new_fresh [OF assms(1), of sk ?m] fresh st(1) have ok: "storage_ok env (store w)"
    and k: "session_key (store w) = sk" and m: "storage (store w) = ?m" by auto
  note ex = exec_ops_spec [OF ok assms(6,7)]
  have "only_session (store w) s'" using exec_ops_session [OF _ assms(7)] ok by (simp add: storage_ok_def)
  then have conf: "storage s' (peer_configuration_key sk) = Some (encode_peers pc (peers w))"
    using m peer_configuration_not_session by (simp add: only_session_def)
  have new: "Storage_new sk (storage s') = Inr s'"
    using Storage_new_recovers [OF storage_ok_meta, of env s'] ex k by simp
  show ?thesis
    using st(2,3) by (simp add: restart_members [of "storage s'" sk pc "peers w", OF conf assms(2)] start_worker_def worker_new_def new
        peer_configuration_not_session)
qed

theorem restart_rejoins_witness:
  "\<exists>w rest s' w'. raft_start demo_env demo_peers (\<lambda>bs. 1) [] 1 3 (\<lambda>_. None) [2, 3] False = Inr (Ready (w, rest))
     \<and> rfold (exec_op demo_env) (store w) [SetVote (Some 2)] = Inr s'
     \<and> raft_start demo_env demo_peers (\<lambda>bs. 1) [] 1 3 (storage s') [] False = Inr (Ready (w', []))
     \<and> peers w' = [2, 3] \<and> voted_for (store w') = Some 2"
proof -
  obtain w rest s' where s: "raft_start demo_env demo_peers (\<lambda>bs. 1) [] 1 3 (\<lambda>_. None) [2, 3] False = Inr (Ready (w, rest))"
    "rfold (exec_op demo_env) (store w) [SetVote (Some 2)] = Inr s'"
    and w: "peers w = [2, 3]" "voted_for s' = Some 2"
    by (simp add: raft_start_def load_peer_configuration_def store_peer_configuration_def start_worker_def
        runs peer_configuration_key_def demo_peers_def)
  from restart_rejoins [OF demo_env_ok(1) demo_peers_ok _ _ s(1) _ s(2), of 3 "[]" False] s w
  show ?thesis by auto
qed

text \<open>
  C18: The first start of a node, if no peer comes twice while it waits: its members are the
  first peers it meets, one less than the cluster's size, the worker counts with that size and
  has a client for each of them, the peers beyond them are left to the worker, and the list of
  members is in the local storage.
\<close>

theorem first_start_members:
  assumes "local_storage (peer_configuration_key sk) = None" and "members \<noteq> 0"
    and "unat members \<le> Suc (length arrivals)" and "distinct (take (unat members - 1) arrivals)"
    and "raft_start env pc hash_bytes hostname sk members local_storage arrivals closed = Inr r"
  shows "\<exists>w. r = Ready (w, drop (unat members - 1) arrivals) \<and> peers w = take (unat members - 1) arrivals
    \<and> cluster_size w = unat members \<and> node_id w = hash_bytes (hash_input hostname sk)
    \<and> peer_clients w = map (\<lambda>p. (p, \<lparr>client_node_id = p, connected = True\<rparr>)) (peers w)
    \<and> Storage_new sk (local_storage(peer_configuration_key sk \<mapsto> encode_peers pc (peers w))) = Inr (store w)"
  by (rule first_start_ready [OF assms]) (auto simp: generate_node_id_def peer_transport_start_def)

theorem first_start_members_witness:
  "\<exists>w. raft_start demo_env demo_peers (\<lambda>bs. 1) [] 1 3 (\<lambda>_. None) [2, 3, 4] False = Inr (Ready (w, [4]))
     \<and> peers w = [2, 3] \<and> cluster_size w = 3"
proof -
  obtain r where r: "raft_start demo_env demo_peers (\<lambda>bs. 1) [] 1 3 (\<lambda>_. None) [2, 3, 4] False = Inr r"
    by (simp add: raft_start_def load_peer_configuration_def store_peer_configuration_def start_worker_def
        runs peer_configuration_key_def demo_peers_def)
  from first_start_members [OF _ _ _ _ r] r show ?thesis by auto
qed

section \<open>The transport\<close>

text \<open>
  C19: Two nodes may rely on the calls between them. Whatever both ends of a connection do for
  fewer than 2^32 actions (calls in both directions, requests handled, timeouts, exceptions of
  the data channel, messages lost, delayed or overtaken, the loss of the data channel): no task
  panics; no call is answered twice; every request that a server has handled is that of a call
  of the other side, and of no other request that it has handled; and the answer to a call is
  what the other side's server answered to this very call, or a failure that the transport
  reports.
\<close>

theorem calls_answered_by_peer:
  assumes "length as < 2 ^ 32"
  shows "\<exists>c. conn_run (conn_start a b) as = Inr c \<and> (\<forall>s. calls_matched (ends c s) (ends c (other s)))"
  using reachable_conn [OF assms, of a b] link_ok_matched by metis

theorem calls_answered_by_peer_witness:
  "\<exists>c. conn_run (conn_start 1 2) one_call = Inr c \<and> ep_answers (ends c LeftEnd) = [(0, Inr ''r'')]
     \<and> calls_matched (ends c LeftEnd) (ends c RightEnd)"
proof -
  have "length one_call < 2 ^ 32" by (simp add: one_call_def)
  from calls_answered_by_peer [OF this, of 1 2] one_call_run show ?thesis by (metis Inr_inject other.simps(1))
qed

text \<open>
  C20: The loss of the data channel leaves no caller behind. In every state that fewer than 2^32
  actions lead to, once an end has learnt of the loss, its request manager returns after at most
  one more turn than its channel holds requests, and every call that was made at this end has
  then been answered exactly once.
\<close>

theorem lost_channel_answers_all:
  assumes "length as < 2 ^ 32" and "conn_run (conn_start a b) as = Inr c" and "\<not> ep_open (ends c s)"
  shows "\<exists>c'. conn_run c (replicate (Suc (length (ep_requests (ends c s)))) (PollRequests s dc)) = Inr c'
    \<and> ep_manager (ends c' s) = None \<and> ep_issued (ends c' s) = ep_issued (ends c s)
    \<and> distinct (map fst (ep_answers (ends c' s)))
    \<and> set (map fst (ep_answers (ends c' s))) = {..<length (ep_issued (ends c s))}"
proof -
  obtain c0 where c0: "conn_run (conn_start a b) as = Inr c0" "link_ok c0"
    "\<And>s. length (ep_issued (ends c0 s)) \<le> length as" by (rule reachable_conn [OF assms(1), of a b]) blast
  with assms(2) have c: "link_ok c" "\<And>s. length (ep_issued (ends c s)) < 2 ^ 32"
    using assms(1) by (auto intro: le_less_trans)
  obtain c' where "conn_run c (replicate (Suc (length (ep_requests (ends c s)))) (PollRequests s dc)) = Inr c'"
    "link_ok c'" "ep_manager (ends c' s) = None" "ep_issued (ends c' s) = ep_issued (ends c s)"
    using polling_stops [OF c assms(3), of "Suc (length (ep_requests (ends c s)))" dc] by auto
  with stopped_answered [of c' s] show ?thesis by auto
qed

theorem lost_channel_answers_all_witness:
  "\<exists>c'. conn_run (conn_start 1 2) (two_calls @ replicate 2 (PollRequests LeftEnd None)) = Inr c'
     \<and> ep_manager (ends c' LeftEnd) = None \<and> set (map fst (ep_answers (ends c' LeftEnd))) = {0, 1}"
proof -
  obtain c where c: "conn_run (conn_start 1 2) two_calls = Inr c" and q: "length (ep_requests (ends c LeftEnd)) = 1"
    "length (ep_issued (ends c LeftEnd)) = 2" "\<not> ep_open (ends c LeftEnd)"
    using two_calls_run by auto
  have "length two_calls < 2 ^ 32" by (simp add: two_calls_def)
  from lost_channel_answers_all [OF this c q(3), of None] obtain c' where
    c': "conn_run c (replicate 2 (PollRequests LeftEnd None)) = Inr c'" "ep_manager (ends c' LeftEnd) = None"
    "set (map fst (ep_answers (ends c' LeftEnd))) = {..<2}"
    unfolding q(1,2) by (metis Suc_1 One_nat_def)
  have "conn_run (conn_start 1 2) (two_calls @ replicate 2 (PollRequests LeftEnd None)) = Inr c'"
    by (simp only: rfold_append c rbind_Inr c'(1))
  moreover have "{..<2 :: nat} = {0, 1}" by auto
  ultimately show ?thesis using c'(2,3) by simp
qed

text \<open>
  C21: A remote call comes back to its caller. With room in the table, a request is sent under a
  fresh ticket; the other side decodes it, hands it to its server and answers under the same
  ticket; and when that answer is decoded, whatever other requests, responses, repetitions and
  timeouts came in between, it is the caller that gets it.
\<close>

theorem rpc_round_trip:
  fixes m :: "'tx RequestManager" and enc :: "('req, 'resp) Message \<Rightarrow> 'bytes"
  assumes "ring_ok (in_flight m)" and "unat (next_idx (in_flight m)) + Suc (length (requests_of evs)) < 2 ^ 32"
    and "unat (next_idx (in_flight m)) - unat (min_idx (in_flight m)) < unat (capacity (in_flight m))"
    and "list_all (leaves (next_idx (in_flight m))) evs" and "\<And>msg. dec (enc msg) = Some msg"
  shows "let i = next_idx (in_flight m) in
    \<exists>m1 m2 m3 out. handle_request (\<lambda>_. None) m req tx = Inr (m1, [SendMessage (Message.Request i req), StartTimer i])
      \<and> on_message dec (enc (Message.Request i req)) = Inr (AskServer i req)
      \<and> answer_request i True (Some resp) = [Response i resp]
      \<and> on_message dec (enc (Response i resp)) = Inr (ToClient (Response i resp))
      \<and> manager_run m1 evs = Inr (m2, out) \<and> handle_response m2 (Response i resp :: ('req, 'resp) Message) = Inr (m3, [Reply tx resp])"
proof -
  let ?i = "next_idx (in_flight m)"
  have max: "?i \<noteq> - 1" using assms(2) by (auto simp: unat_minus_1)
  obtain b where b: "add (in_flight m) tx = Inr (Inr ?i, b)" "ring_ok b"
    "contents b = (contents (in_flight m))(?i \<mapsto> tx)" "next_idx b = ?i + 1"
    by (rule add_room [OF assms(1,3) max, of tx])
  have h: "holds ?i tx (m\<lparr>in_flight := b\<rparr>)" using b(2,3) by (simp add: holds_def)
  have "unat (next_idx (in_flight (m\<lparr>in_flight := b\<rparr>))) + length (requests_of evs) < 2 ^ 32"
    using assms(2) b(4) unat_plus_one [OF max] by simp
  from manager_run_leaves [OF h assms(4) this] obtain m2 out where
    m2: "manager_run (m\<lparr>in_flight := b\<rparr>) evs = Inr (m2, out)" "holds ?i tx m2" by blast
  obtain m3 where reply: "handle_response m2 (Response ?i resp :: ('req, 'resp) Message) = Inr (m3, [Reply tx resp])"
    using response_delivered [OF m2(2)] by blast
  have request: "handle_request (\<lambda>_. None) m req tx = Inr (m\<lparr>in_flight := b\<rparr>, [SendMessage (Message.Request ?i req), StartTimer ?i])"
    by (simp add: handle_request_def b(1) Let_def)
  show ?thesis unfolding Let_def
    by (rule exI [of _ "m\<lparr>in_flight := b\<rparr>"], rule exI [of _ m2], rule exI [of _ m3], rule exI [of _ out])
      (simp add: request reply m2(1) on_message_def answer_request_def assms(5))
qed

theorem rpc_round_trip_witness:
  "\<exists>m1 m2 m3 out.
     handle_request (\<lambda>_. None) RequestManager_new ''q'' (1 :: nat)
       = Inr (m1, [SendMessage (Message.Request 0 ''q'' :: (string, string) Message), StartTimer 0])
     \<and> manager_run m1 [GotRequest ''p'' 2 None, GotTimeout 1 :: (string, string, nat) manager_event] = Inr (m2, out)
     \<and> handle_response m2 (Response 0 (Inr ''r'') :: (string, string) Message) = Inr (m3, [Reply 1 (Inr ''r'')])"
proof -
  let ?m = "RequestManager_new :: nat RequestManager"
  have f: "next_idx (in_flight ?m) = 0" "min_idx (in_flight ?m) = 0" "capacity (in_flight ?m) = 1024"
    by (simp_all add: RequestManager_new_def with_capacity_def MAX_IN_FLIGHT_REQUESTS_def)
  have ok: "ring_ok (in_flight ?m)" using manager_ok_new [where 'tx = nat] by (auto simp: manager_ok_def)
  from rpc_round_trip [OF ok, of "[GotRequest ''p'' 2 None, GotTimeout 1 :: (string, string, nat) manager_event]"
      Some "\<lambda>msg. msg" "''q''" 1 "Inr ''r''"]
  show ?thesis by (auto simp: f Let_def simp del: manager_run.simps)
qed

text \<open>
  C22: The ring buffer of the requests in flight is a map from tickets to values. Adding refuses
  when the window of tickets is full, handing the value back, and otherwise stores the value
  under a fresh ticket; removing returns what is stored under the ticket, if anything, and
  deletes it; nothing else changes.
\<close>

theorem ring_is_map:
  assumes "ring_ok b" and "next_idx b \<noteq> - 1"
  shows "(if unat (capacity b) \<le> unat (next_idx b) - unat (min_idx b) then add b v = Inr (Inl (Overflow v), b)
     else \<exists>b'. add b v = Inr (Inr (next_idx b), b') \<and> ring_ok b' \<and> contents b (next_idx b) = None
       \<and> contents b' = (contents b)(next_idx b \<mapsto> v))
    \<and> (\<exists>b'. remove b i = Inr (contents b i, b') \<and> ring_ok b' \<and> contents b' = (contents b)(i := None))"
proof
  show "if unat (capacity b) \<le> unat (next_idx b) - unat (min_idx b) then add b v = Inr (Inl (Overflow v), b)
     else \<exists>b'. add b v = Inr (Inr (next_idx b), b') \<and> ring_ok b' \<and> contents b (next_idx b) = None
       \<and> contents b' = (contents b)(next_idx b \<mapsto> v)"
    using add_full [OF assms(1)] add_room [OF assms(1) _ assms(2), of v] by (auto simp: not_le)
  show "\<exists>b'. remove b i = Inr (contents b i, b') \<and> ring_ok b' \<and> contents b' = (contents b)(i := None)"
    using ring.take_spec [OF assms(1)] by blast
qed

theorem ring_is_map_witness:
  "\<exists>b. add (with_capacity 4) ''x'' = Inr (Inr 0, b) \<and> contents b = [0 \<mapsto> ''x'']"
  using ring_is_map [of "with_capacity 4 :: string RingBuf" "''x''" 0] ring_ok_with_capacity [of 4, where 'v = string]
  by (auto simp: with_capacity_def)

section \<open>The introducer\<close>

text \<open>
  C23: The introducer gives nobody what is not theirs. Whatever messages, losses and failures
  happened before, what the next step sends to a browser, if anything, is one command, on a
  socket that serves a node of a session; it is of that session, and if it is an offer, an
  answer or a candidate it is meant for that node.
\<close>

theorem signals_addressed:
  "let srv = intro_run introducer_init as
   in sent (intro_step srv a) = sent srv \<or>
      (\<exists>k c n s msg. map_of (conns srv) k = Some c \<and> task c = Serving n s
         \<and> sent (intro_step srv a) = sent srv @ [(k, msg)] \<and> session_of msg = s \<and> meant_for n msg)"
proof -
  have ok: "intro_ok (intro_run introducer_init as)" by (rule intro_run_ok [OF introducer_init_ok])
  show ?thesis unfolding Let_def by (metis sent_addressed [OF ok])
qed

text \<open>
  C24: A signal reaches the node it is meant for. When a browser sends an offer, an answer or a
  candidate for a node that the introducer serves in that session, then after as many rounds of
  that node's task as its inbox holds messages, and if its socket works and nothing was dropped,
  it has been sent on.
\<close>

theorem signal_delivered:
  assumes "srv = intro_run introducer_init as" and "map_of (conns srv) k = Some c" and "\<not> leaving c"
    and "map_of (conns srv) k' = Some c'" and "task c' = Serving n s"
    and "signal msg" and "session_of msg = s" and "meant_for n msg"
  shows "(k', msg) \<in> set (sent (intro_run srv
    (Incoming k (Binary (Some msg)) # replicate (Suc (length (inbox c'))) (Relay k' True))))"
proof -
  let ?srv = "intro_step srv (Incoming k (Binary (Some msg)))"
  have ok: "intro_ok srv" unfolding assms(1) by (rule intro_run_ok [OF introducer_init_ok])
  have "inbox_of srv k' s = Some (inbox c')" by (simp add: inbox_of_def assms(4,5) serves_iff)
  from signal_reaches [OF ok assms(2) this assms(6,7,3)] obtain c'' n' where
    c: "map_of (conns ?srv) k' = Some c''" "task c'' = Serving n' s" "inbox c'' = inbox c' @ [msg]"
    by (auto simp: inbox_of_def serves_iff split: option.splits if_splits)
  have n: "n' = n"
    using signal_keeps_task [OF ok assms(2,4,5,6,7,3)] c(1,2) by simp
  from relays_all [OF intro_step_ok [OF ok] c] assms(8) show ?thesis
    by (simp add: intro_run_def n)
qed

theorem signal_delivered_witness:
  "let srv = intro_run introducer_init [Accept 0, Incoming 0 (join_msg 1 9), TakeJoin 0, Accept 1, Incoming 1 (join_msg 2 9), TakeJoin 1]
   in (1, demo_offer 1 2 9) \<in> set (sent (intro_run srv
        (Incoming 0 (Binary (Some (demo_offer 1 2 9))) # replicate 2 (Relay 1 True))))"
proof -
  define srv where "srv = intro_run introducer_init
    [Accept 0, Incoming 0 (join_msg 1 9), TakeJoin 0, Accept 1, Incoming 1 (join_msg 2 9), TakeJoin 1]"
  obtain c c' where c: "map_of (conns srv) 0 = Some c" "\<not> leaving c" "map_of (conns srv) 1 = Some c'"
    "task c' = Serving 2 9" "length (inbox c') = 1" by (simp add: srv_def intro_runs)
  from signal_delivered [OF srv_def c(1-4), of "demo_offer 1 2 9"] c(5) show ?thesis
    unfolding srv_def [symmetric] Let_def by (simp add: eval_nat_numeral)
qed

section \<open>Introductions\<close>

text \<open>
  C25: An introduction that was begun is finished. At any moment of a run that meets the
  conditions of theorem introductions_calm, for every peer that a task is introducing, as the
  side that offers or the one that answers: at most two awaits that succeed (the description,
  the data channel) and the turns of the loop hand the peer to the caller with the connection
  that the task was begun with. And nothing in between loses it: in every continuation of the
  run, with other introductions, retries, candidates and peers that leave in any order, in which
  the awaits of this peer's tasks succeed and the loop does not end, once the peer has no task
  any more it has been handed over with that connection, or is in the loop's channel and handed
  over by its next turns.
\<close>

theorem introductions_finish:
  assumes "calm_run (initiate n s) as" and "pg = page_run (initiate n s) as" and "failed pg = None"
    and "map_of (tasks pg) k = Some t" and "contact t = Some (p, pc)"
  shows "(p, pc, dc) \<in> set (met (drain (page_run pg (finishing pg k t sdp dc))))
    \<and> (\<forall>bs. calm_run pg bs \<and> goes_well_run p pg bs \<and> failed (page_run pg bs) = None \<and> p \<notin> busy (page_run pg bs) \<longrightarrow>
        (\<exists>dc. (p, pc, dc) \<in> set (met (drain (page_run pg bs)))))"
proof
  have ok: "page_ok pg" using calm_run_ok [OF initiate_ok assms(1)] by (simp add: assms(2))
  from finishing_hands_over [OF ok assms(3-5)] show "(p, pc, dc) \<in> set (met (drain (page_run pg (finishing pg k t sdp dc))))"
    by (simp add: drain_met)
  have u: "under_way p pc pg \<or> (\<exists>dc. (p, pc, dc) \<in> set (passed_on pg))" using assms(4,5) by (auto simp: under_way_def)
  show "\<forall>bs. calm_run pg bs \<and> goes_well_run p pg bs \<and> failed (page_run pg bs) = None \<and> p \<notin> busy (page_run pg bs) \<longrightarrow>
        (\<exists>dc. (p, pc, dc) \<in> set (met (drain (page_run pg bs))))"
    using run_well [OF ok _ _ _ u] under_way_busy by (fastforce simp: drain_met)
qed

theorem introductions_finish_witness:
  "let pg = page_run (initiate 1 9) [status 5 9 {1, 2}]
   in (2, 5, 7) \<in> set (met (drain (page_run pg (finishing pg 0 (Describing 2 5) ''sdp'' 7))))"
proof -
  define pg where "pg = page_run (initiate 1 9) [status 5 9 {1, 2}]"
  have c: "calm_run (initiate 1 9) [status 5 9 {1, 2}]" by (simp add: page_runs peers_of_def List.map_filter_def)
  have f: "failed pg = None" "map_of (tasks pg) 0 = Some (Describing 2 5)" "contact (Describing 2 5) = Some (2, 5)"
    by (simp_all add: pg_def page_runs)
  from conjunct1 [OF introductions_finish [OF c pg_def f]] show ?thesis by (simp add: pg_def [symmetric] Let_def)
qed

text \<open>
  C26: Introductions go well while no peer is introduced twice at a time. As long as session
  updates and offers come only for peers without a task, the introducer's messages are binary
  and none is a join, the browser's descriptions are texts, data channels are open when they say
  so and none opens for an introduction that has returned, the web socket takes the candidates,
  a transport tells its end, and no error has ended the introductions: no task and no callback
  panics; a peer goes to the loop only with the connection that was made for it; and the loop
  hands peers to its caller in that order, each once, unless the caller is gone, which ends it.
\<close>

theorem introductions_calm:
  assumes "calm_run (initiate n s) as" and "pg = page_run (initiate n s) as" and "calm pg a" and "failed pg = None"
    and "pg' = page_step pg a"
  shows "panics pg' = [] \<and>
     (passed_on pg' = passed_on pg \<and> prefix (met pg) (met pg')
      \<or> (\<exists>k ws_ok dc t p pc. a = Wake k ws_ok (ChannelUp dc True) \<and> map_of (tasks pg) k = Some t
        \<and> held_by t = Some (p, pc) \<and> met pg' = met pg \<and> peer_rx pg' = peer_rx pg @ [(p, pc, dc)])
      \<or> a = TakePeer False \<and> failed pg' = Some RustBox \<and> met pg' = met pg)"
proof -
  have ok: "page_ok pg" and p: "panics pg = []"
    using calm_run_ok [OF initiate_ok assms(1)] by (simp_all add: assms(2) initiate_def)
  from calm_step [OF ok assms(4,3)] p have "panics pg' = []" using goes_calmly_ok unfolding assms(5) by fastforce
  with calm_step_hands [OF ok assms(4,3)] show ?thesis unfolding assms(5) by blast
qed

theorem introductions_calm_witness:
  "let pg = page_run (initiate 1 9) [status 5 9 {1, 2}, Wake 0 True (Described (Inr (Some ''sdp'')))]
   in peer_rx (page_step pg (Wake 1 True (ChannelUp 7 True))) = [(2, 5, 7)]
     \<and> panics (page_step pg (Wake 1 True (ChannelUp 7 True))) = []"
proof -
  let ?as = "[status 5 9 {1, 2}, Wake 0 True (Described (Inr (Some ''sdp'')))]"
  define pg where "pg = page_run (initiate 1 9) ?as"
  have c: "calm_run (initiate 1 9) ?as" by (simp add: page_runs peers_of_def List.map_filter_def)
  have f: "failed pg = None" and m: "peer_rx (page_step pg (Wake 1 True (ChannelUp 7 True))) = [(2, 5, 7)]"
    by (simp_all add: pg_def page_runs)
  from introductions_calm [OF c pg_def _ f refl, of "Wake 1 True (ChannelUp 7 True)"] m
  show ?thesis unfolding pg_def [symmetric] Let_def by simp
qed

text \<open>
  C27: Two browsers agree that their data channel works. Whatever the browsers and the tasks of
  both sides do from the offer on, as long as a channel is announced when it is open: no
  callback panics; the side that offered goes on only after the other side got the channel; and
  once it has the acknowledgement, what it has lost, handed to its transport and still has on
  the wire is, in this order, what the other side sent: nothing is reordered or doubled, and
  what is lost came before its transport was started.
\<close>

theorem channel_agreed:
  assumes "list_all opened as"
  shows "\<exists>c. rfold dc_step channel_offered as = Inr c \<and> (offer_side c \<longrightarrow> announced c) \<and>
    (ack_seen c \<longrightarrow> lost_messages c @ to_transport c @ on_wire c = peer_sends channel_offered as)"
proof -
  from channel_run [OF assms] obtain c where "rfold dc_step channel_offered as = Inr c"
    and "dc_ok (peer_sends channel_offered as) c" by blast
  then show ?thesis by (cases "on_message_cb c") (auto simp: dc_ok_def)
qed

theorem channel_agreed_witness:
  "\<exists>c. rfold dc_step channel_offered [Announce True, AnswerGoesOn, PeerSends (BinaryMessage ''q''), Arrives,
       OfferGoesOn, StartTransport, Arrives] = Inr c \<and> ack_seen c \<and> to_transport c = [BinaryMessage ''q'']"
proof -
  let ?as = "[Announce True, AnswerGoesOn, PeerSends (BinaryMessage ''q''), Arrives, OfferGoesOn, StartTransport, Arrives]"
  note defs = channel_offered_def on_data_channel_def on_first_message_def wait_for_data_channel_def
    wait_for_dc_initiated_def
  have "list_all opened ?as" by (simp add: opened_def)
  from channel_agreed [OF this] obtain c where c: "rfold dc_step channel_offered ?as = Inr c"
    "ack_seen c \<longrightarrow> lost_messages c @ to_transport c @ on_wire c = peer_sends channel_offered ?as" by auto
  from c(1) have "ack_seen c" "to_transport c = [BinaryMessage ''q'']"
    by (auto simp: defs cong del: rbind_cong)
  with c(1) show ?thesis by blast
qed

section \<open>The replicated state and its applications\<close>

text \<open>
  C28: A read sees the commands applied before it: the task that applies committed commands
  answers a read from the state that all commands before it have made of the initial one, in
  their order, as long as its channels are open and a notification that cannot be sent is one
  too many.
\<close>

theorem reads_see_commands:
  assumes "list_all open_event evs"
  shows "let state = foldl (\<lambda>s cmd. fst (state_apply ops s cmd)) (default_state ops) (commands evs)
    in \<exists>out. handle_state_machine ops (evs @ [Read k tx]) =
         Inr (Some state, out @ [Answer_read tx (state_get ops state k)])"
  using read_answered [OF assms, of ops k tx] by (simp add: state_after_def Let_def)

theorem reads_see_commands_witness:
  "\<exists>s out. handle_state_machine hash_map_state
       [Command (Set_key ''a'' (1 :: nat)) None, Command (Set_key ''a'' 2) (Some (False, True)), Read ''a'' 0]
     = Inr (Some s, out @ [Answer_read 0 (Some 2)])"
  using reads_see_commands [of "[Command (Set_key ''a'' (1 :: nat)) None, Command (Set_key ''a'' 2) (Some (False, True))]"
      hash_map_state "''a''" 0]
  by (auto simp: Let_def hash_map_state_def hash_map_apply_def hash_map_get_def)

text \<open>
  C29: Whatever commands the todo list goes through, the text of every entry is nonempty and
  neither begins nor ends with white space.
\<close>

theorem todo_texts_tidy:
  assumes "rfold todo_apply todo_default cmds = Inr s" and "e \<in> set (entries s)"
  shows "description e \<noteq> [] \<and> \<not> is_whitespace (hd (description e)) \<and> \<not> is_whitespace (last (description e))"
  using todo_run_texts [OF assms(1)] assms(2) by (simp add: texts_ok_def tidy_def)

theorem todo_texts_tidy_witness:
  "\<exists>s e. rfold todo_apply todo_default [Update '' a '', AddEntry, AddEntry] = Inr s \<and> entries s = [e]
     \<and> description e = ''a'' \<and> \<not> is_whitespace (hd (description e))"
proof -
  have t: "trim '' a '' = ''a''" "trim [] = []" by (simp_all add: trim_def is_whitespace_def)
  obtain s e where s: "rfold todo_apply todo_default [Update '' a '', AddEntry, AddEntry] = Inr s" "entries s = [e]"
    "description e = ''a''" by (simp add: todo_apply_def todo_default_def t)
  with todo_texts_tidy [OF s(1), of e] show ?thesis by auto
qed

text \<open>
  C30: A command makes the todo list's state machine panic exactly when it names an entry by a
  position that the page does not show: one beyond the number of entries that pass the filter at
  the moment the command is applied.
\<close>

theorem todo_panics:
  "(\<exists>p. todo_apply s cmd = Inl p) \<longleftrightarrow>
     (case cmd of
        Edit idx \<Rightarrow> length (filter (fitting s) (entries s)) \<le> unat idx
      | Remove idx \<Rightarrow> length (filter (fitting s) (entries s)) \<le> unat idx
      | Toggle idx \<Rightarrow> length (filter (fitting s) (entries s)) \<le> unat idx
      | ToggleEdit idx \<Rightarrow> length (filter (fitting s) (entries s)) \<le> unat idx
      | _ \<Rightarrow> False)"
proof -
  have "length (shown_at s) = length (filter (fitting s) (entries s))"
    using arg_cong [OF shown_entries, of length] by simp
  with todo_apply_returns [of s cmd] show ?thesis
    by (cases "todo_apply s cmd"; cases cmd) auto
qed

text \<open>
  C31: Each row of the todo page controls the entry it shows. The row at a position shows the
  text of one entry, which passes the filter and has as many such entries before it as the
  position says; its checkbox sends a command that changes the completion of this entry alone,
  and its button one that takes this entry alone out of the list.
\<close>

theorem todo_addresses_shown:
  assumes "n < length (todo_rows s)" and "length (entries s) < 2 ^ 32"
  shows "let row = todo_rows s ! n; i = shown_at s ! n; e = entries s ! i
    in i < length (entries s) \<and> fitting s e \<and> length (filter (fitting s) (take i (entries s))) = n
     \<and> texts row = [description e]
     \<and> (\<exists>on off. handlers_at ''toggle'' ''onclick'' row = [always on] \<and> handlers_at ''destroy'' ''onclick'' row = [always off]
          \<and> todo_apply s on = Inr (s\<lparr>entries := (entries s)[i := e\<lparr>completed := \<not> completed e\<rparr>]\<rparr>)
          \<and> todo_apply s off = Inr (s\<lparr>entries := take i (entries s) @ drop (Suc i) (entries s)\<rparr>))"
proof -
  let ?idx = "word_of_nat n :: usize" and ?i = "shown_at s ! n"
  have n: "n < length (shown_at s)" using assms(1) by (simp only: length_todo_rows)
  then have u: "unat ?idx = n" using usize_position [OF assms(2), of n] by (simp only: length_shown)
  have "todo_apply s (Toggle ?idx) =
      Inr (s\<lparr>entries := (entries s)[?i := (entries s ! ?i)\<lparr>completed := \<not> completed (entries s ! ?i)\<rparr>]\<rparr>)"
    and "todo_apply s (Remove ?idx) = Inr (s\<lparr>entries := take ?i (entries s) @ drop (Suc ?i) (entries s)\<rparr>)"
    using n by (simp_all add: todo_apply_def toggle_def change_shown_eq remove_entry_eq Let_def u)
  then show ?thesis using shown_at_less [OF n] shown_before [OF n]
    unfolding Let_def todo_rows_nth [OF assms(1)] view_entry_parts by blast
qed

theorem todo_addresses_shown_witness:
  "let a = \<lparr>description = ''a'', completed = True, editing = False\<rparr>;
       b = \<lparr>description = ''b'', completed = False, editing = False\<rparr>;
       s = \<lparr>entries = [a, b], filter_by = FilterActive, input_value = [], edit_value = []\<rparr>
   in texts (todo_rows s ! 0) = [''b''] \<and> todo_apply s (Toggle 0) = Inr (s\<lparr>entries := [a, b\<lparr>completed := True\<rparr>]\<rparr>)"
proof -
  let ?a = "\<lparr>description = ''a'', completed = True, editing = False\<rparr>"
  let ?b = "\<lparr>description = ''b'', completed = False, editing = False\<rparr>"
  let ?s = "\<lparr>entries = [?a, ?b], filter_by = FilterActive, input_value = [], edit_value = []\<rparr>"
  have n: "0 < length (todo_rows ?s)" and few: "length (entries ?s) < 2 ^ 32" by (simp_all add: todo_rows_def)
  have "shown_at ?s ! 0 = 1" by (simp add: shown_at_def)
  with todo_addresses_shown [OF n few] show ?thesis
    by (auto simp: Let_def todo_rows_nth [OF n] view_entry_parts always_def fun_eq_iff)
qed

text \<open>
  C32: The todo page offers nothing that breaks the list it shows: whatever control of the page
  is used, with whatever input, the command it sends is one that the state on the page can
  apply. So the state machine can only panic when the list has changed since it was shown.
\<close>

theorem page_commands_return:
  assumes "length (entries s) < 2 ^ 32" and "Send f \<in> set (handlers (todo_view s))" and "f input = Some cmd"
  shows "\<exists>s'. todo_apply s cmd = Inr s'"
  using view_sends_in_range [OF assms] todo_apply_returns by simp

theorem page_commands_return_witness:
  "let s = \<lparr>entries = [\<lparr>description = ''a'', completed = True, editing = True\<rparr>], filter_by = FilterAll,
            input_value = [], edit_value = ''b''\<rparr>
   in always (Edit 0) \<in> set (handlers (todo_view s)) \<and> (\<exists>s'. todo_apply s (Edit 0) = Inr s')"
proof -
  let ?s = "\<lparr>entries = [\<lparr>description = ''a'', completed = True, editing = True\<rparr>], filter_by = FilterAll,
      input_value = [], edit_value = ''b''\<rparr>"
  have h: "always (Edit 0) \<in> set (handlers (todo_view ?s))"
    by (simp add: todo_view_def todo_rows_def view_entry_def view_entry_edit_input_def Let_def)
  have "length (entries ?s) < 2 ^ 32" by simp
  from page_commands_return [OF this h [unfolded always_def]] h show ?thesis by (auto simp: Let_def)
qed

section \<open>The start page\<close>

text \<open>
  C33: The links that a waiting page shows lead into its session, on the todo page as on the
  benchmark: every link of the page ends in the session key as 32 hexadecimal digits, the site
  at that address, whichever of the two its path names, gives the application that key, and the
  page it opens waits for that session and starts Raft for it, with the cluster's size.
\<close>

theorem member_link_joins:
  assumes "CHR ''#'' \<notin> set hostname" and "CHR ''#'' \<notin> set path" and "init_state m = Waiting sk"
    and "url \<in> set (hrefs (init_view hostname path items app m))"
  shows "(\<exists>u h. url = u @ ''#'' @ h \<and> length h = 32 \<and> (\<forall>d \<in> set h. to_digit 16 d \<noteq> None) \<and> from_str_radix h 16 = Some sk)
    \<and> site_view (Some (url_hash url)) TodoRoute = TodoPage (Some sk)
    \<and> site_view (Some (url_hash url)) BenchmarkRoute = BenchmarkPage (Some sk)
    \<and> init_create (get_session_key (Some (url_hash url)))
      = (\<lparr>init_key = [], init_state = Waiting sk\<rparr>, [StartRaft sk CLUSTER_SIZE])"
proof -
  have m: "url \<in> set (other_cluster_members hostname path sk)"
    using assms(3,4) by (simp add: init_view_def hrefs_waiting)
  from member_link_parts [OF assms(1,2) m] obtain u where "url = u @ ''#'' @ format_032x sk" by auto
  with length_format_032x [of sk] format_032x_digits [of _ sk] from_str_radix_format_032x [of sk]
  have "\<exists>u h. url = u @ ''#'' @ h \<and> length h = 32 \<and> (\<forall>d \<in> set h. to_digit 16 d \<noteq> None) \<and> from_str_radix h 16 = Some sk"
    by blast
  with member_link_opens [OF assms(1,2) m] show ?thesis
    by (simp add: site_view_def init_create_def start_raft_def)
qed

theorem member_link_joins_witness:
  "site_view (Some (url_hash (member_url ''wraft1'' ''org'' ''/benchmark'' 5))) BenchmarkRoute = BenchmarkPage (Some 5)"
proof -
  let ?m = "\<lparr>init_key = [], init_state = Waiting 5\<rparr> :: unit InitModel"
  have "init_state ?m = Waiting 5"
    "member_url ''wraft1'' ''org'' ''/benchmark'' 5 \<in> set (hrefs (init_view ''wraft0.org'' ''/benchmark'' 0 (\<lambda>_. Text []) ?m))"
    by (simp_all add: init_view_def hrefs_waiting other_cluster_members_def split_once_def all_targets_def)
  moreover have "CHR ''#'' \<notin> set ''wraft0.org''" "CHR ''#'' \<notin> set ''/benchmark''" by simp_all
  ultimately show ?thesis by (blast dest: member_link_joins)
qed

section \<open>Behaviour that departs from Raft\<close>

text \<open>
  C34: An acknowledged command can be lost, whatever the commands, the three nodes, the session
  and the codec are. A node of any role gives its vote to any candidate of a later term whose
  last index is not below its own commit index, whatever its log holds and whatever last term
  the candidate reports; and a follower learns of a commit later than the leader does. So a
  leader commits, applies and acknowledges a command that one other node holds; the third, whose
  log is empty, is elected by that node and commits, applies and acknowledges another command at
  the same index. That vote breaks Raft's rule for votes.
\<close>

theorem committed_entry_lost:
  assumes "codec_ok env" and "roomy env" and "distinct [a, b, c]"
  shows "(\<forall>st req tx st' out. node_ok (inner_of st) \<and> term_of (inner_of st) < rv_term req \<and>
      commit_index (inner_of st) \<le> rv_last_log_index req \<and>
      worker_step env st (RpcEvent (RequestVote req) tx) = Inr (st', out) \<longrightarrow>
      vote_of (inner_of st') = Some (rv_candidate req)) \<and>
    (let as = [Connect a b, Tick a, Deliver 0, Deliver 0, Request a (Apply x) k, Deliver 0, Deliver 0,
        Connect c b, Tick c, Tick c, Deliver 1, Deliver 1, Request c (Apply y) k', Deliver 1, Deliver 1];
       cl = run env (cluster_init env sk [a, b, c]) as
     in applied cl a = [x] \<and> applied cl c = [y] \<and> answers cl = [(a, k, Inr Ack), (c, k', Inr Ack)]
       \<and> \<not> raft_votes env [a, b, c] (cluster_init env sk [a, b, c]) as)"
proof (intro conjI allI impI)
  fix st :: RaftWorkerState and req tx st' out
  assume h: "node_ok (inner_of st) \<and> term_of (inner_of st) < rv_term req \<and>
      commit_index (inner_of st) \<le> rv_last_log_index req \<and>
      worker_step env st (RpcEvent (RequestVote req) tx) = Inr (st', out)"
  then have "node_ok (inner_of st)" "worker_step env st (RpcEvent (RequestVote req) tx) = Inr (st', out)" by simp_all
  from step_vote_request [OF this] obtain resp where "vote_answered (role_of st = LeaderRole) req (inner_of st) (inner_of st') resp" .
  with h show "vote_of (inner_of st') = Some (rv_candidate req)" by (simp add: vote_answered_def)
next
  have d: "a \<noteq> b" "b \<noteq> a" "a \<noteq> c" "c \<noteq> a" "b \<noteq> c" "c \<noteq> b" using assms(3) by auto
  have e: "\<And>e. decode env (encode env e) = Some e" "\<And>m k v. fits env m k v"
    using assms(1,2) by (simp_all add: codec_ok_def roomy_def)
  show "let as = [Connect a b, Tick a, Deliver 0, Deliver 0, Request a (Apply x) k, Deliver 0, Deliver 0,
        Connect c b, Tick c, Tick c, Deliver 1, Deliver 1, Request c (Apply y) k', Deliver 1, Deliver 1];
       cl = run env (cluster_init env sk [a, b, c]) as
     in applied cl a = [x] \<and> applied cl c = [y] \<and> answers cl = [(a, k, Inr Ack), (c, k', Inr Ack)]
       \<and> \<not> raft_votes env [a, b, c] (cluster_init env sk [a, b, c]) as"
    unfolding Let_def
    by (simp add: d e raft_vote_def up_to_date_def runs log_of_def entry_at_def is_candidate_in_def
      cong del: rbind_cong)
qed

theorem committed_entry_lost_witness:
  "\<exists>as. applied (run demo_env demo as) 1 = [7] \<and> applied (run demo_env demo as) 3 = [6]
     \<and> (1, 0, Inr Ack) \<in> set (answers (run demo_env demo as))"
proof -
  have "distinct [1 :: NodeId, 2, 3]" by simp
  note lost = conjunct2 [OF committed_entry_lost [OF demo_env_ok this, of 7 0 6 1 1], unfolded Let_def]
  have "(1, 0, Inr Ack) \<in> set [(1 :: NodeId, 0 :: nat, Inr Ack), (3, 1, Inr Ack)]" by simp
  with lost show ?thesis by metis
qed

text \<open>
  C35: A conflicting entry anywhere but at the end of the log makes the node panic: the
  assertion of overwrite_log compares the indices the wrong way round, so instead of cutting the
  log back to the leader's, as its comment says, an append-entries request, its entries numbered
  from its previous index, that passes the previous-entry check and conflicts before the last
  entry of the log never returns, however many entries before the conflict match.
\<close>

theorem conflict_panics:
  assumes "inner_ok env w" and "term_of w \<le> ae_term req"
    and "prev_matches (entries_of env w) (ae_prev_log_index req) (ae_prev_log_term req)"
    and "ae_entries req = es @ e # es'" and "indexed_from le_idx (unat (ae_prev_log_index req)) (es @ [e])"
    and "\<forall>i < length es. le_term (entries_of env w ! (unat (ae_prev_log_index req) + i)) = le_term (es ! i)"
    and "Suc (unat (ae_prev_log_index req) + length es) < length (entries_of env w)"
    and "le_term (entries_of env w ! (unat (ae_prev_log_index req) + length es)) \<noteq> le_term e"
  shows "handle_append_entries env w req = Inl AssertFailed"
proof -
  have ok: "storage_ok env (store w)" using assms(1) by (simp add: inner_ok_def)
  have c: "rfold (put_entry env) (store w) (es @ e # es') = Inl AssertFailed"
    unfolding put_entry_def [abs_def] by (rule stored.put_all_conflict_panics [OF ok assms(5,7,6,8)])
  show ?thesis using assms(2,3) get_log_spec [OF ok, of "ae_prev_log_index req"] c assms(4)
    by (auto simp: handle_append_entries_def prev_matches_def Let_def split: option.splits)
qed

theorem conflict_panics_witness:
  "\<exists>s. append_log demo_env demo_store1 (entry 5 1 2) = Inr s \<and>
     handle_append_entries demo_env (demo_inner s)
       \<lparr>ae_term = 2, ae_leader_id = 2, ae_prev_log_index = 0, ae_prev_log_term = 0,
        ae_entries = [entry 4 2 1], ae_leader_commit = 0\<rparr> = Inl AssertFailed"
proof -
  obtain s where s: "append_log demo_env demo_store1 (entry 5 1 2) = Inr s"
    using append_log_returns [OF demo_env_ok(2), of "entry 5 1 2" demo_store1] by (auto simp: demo_defs)
  note a = append_log_spec [OF demo_store1_ok s]
  have l: "unat (le_idx (entry 5 1 2)) = Suc (length (log_of demo_env demo_store1))"
    by (simp add: demo_logs entry_def)
  have t: "current_term s = 1" "log_of demo_env s = [entry 7 1 1, entry 5 1 2]" "session_key s = 1"
    using arg_cong [OF a(4) [OF l], of p_term] arg_cong [OF a(4) [OF l], of p_log] a(2) [OF l] demo_logs
    by (simp_all add: demo_store1_def demo_store_def)
  have "inner_ok demo_env (demo_inner s)" using a(1) [OF l] t(3) by (simp add: inner_ok_def demo_inner_def)
  from conflict_panics [OF this, of "\<lparr>ae_term = 2, ae_leader_id = 2, ae_prev_log_index = 0, ae_prev_log_term = 0,
        ae_entries = [entry 4 2 1], ae_leader_commit = 0\<rparr>" "[]" "entry 4 2 1" "[]"] s
  have "handle_append_entries demo_env (demo_inner s)
       \<lparr>ae_term = 2, ae_leader_id = 2, ae_prev_log_index = 0, ae_prev_log_term = 0,
        ae_entries = [entry 4 2 1], ae_leader_commit = 0\<rparr> = Inl AssertFailed"
    by (simp add: t demo_inner_def [of s] prev_matches_def entry_def word_le_nat_alt)
  with s show ?thesis by blast
qed

text \<open>
  C36: A leader panics while it brings up to date a follower whose log is empty, when its own
  log has one entry. Its first request (to a peer whose next index is the one after that entry,
  as at its election) carries no entry, which it records as starting at its last index; the
  follower rejects it. That rejection then makes the leader panic, whatever its log and its
  state have become meanwhile in the same term, as long as the peer is connected: it lowers the
  peer's next index to one less, to zero, and the index before that wraps around to one whose
  entry it unwraps.
\<close>

theorem leader_panics:
  assumes "inner_ok env w" and "entries_of env w = [e]" and "map_of (next_indices l) p = Some 2"
    and "map_of (peer_clients w) p = Some client" and "connected client" and "p \<notin> set (in_flight_peers l)"
    and "inner_ok env v" and "entries_of env v = []" and "term_of v \<le> term_of w"
  shows "\<exists>l' q. append_entries env w l p = Inr (l', [CallAppend p 1 1 q])
    \<and> (\<forall>tx st out. worker_step env (Follower v) (RpcEvent (AppendEntries q) tx) = Inr (st, out) \<longrightarrow>
        (\<exists>rest. out = RpcReply tx (AppendEntriesR \<lparr>aer_term = term_of w, aer_success = False\<rparr>) # rest))
    \<and> (\<forall>w2 l2 c2 i. inner_ok env w2 \<and> last_log_index (store w2) \<noteq> - 1 \<and> term_of w2 = term_of w \<and>
        map_of (peer_clients w2) p = Some c2 \<and> connected c2 \<and> map_of (next_indices l2) p = Some i \<longrightarrow>
        worker_step env (Leader w2 l2)
          (AppendResponse p 1 1 (Inr (AppendEntriesR \<lparr>aer_term = term_of w, aer_success = False\<rparr>))) = Inl UnwrapNone)"
proof -
  have "unat (last_log_index (store w)) = 1" using arg_cong [OF assms(2), of length] by simp
  then have n: "last_log_index (store w) = 1" by (simp add: word_unat_eq_iff)
  have "entries_of env w \<noteq> []" "last_log_index (store w) \<noteq> - 1"
    "map_of (next_indices l) p = Some (last_log_index (store w) + 1)" using assms(2,3) n by simp_all
  from append_entries_probes [OF assms(1) this(1,2) assms(4-6) this(3)] obtain l' q
    where q: "append_entries env w l p = Inr (l', [CallAppend p 1 1 q])" "ae_term q = term_of w" "ae_prev_log_index q = 1"
    unfolding n by blast
  from q(2,3) assms(9) have "term_of v \<le> ae_term q" "ae_prev_log_index q \<noteq> 0" by simp_all
  note empty_log_rejects [OF assms(7,8) this]
  with q first_rejection_panics show ?thesis by metis
qed

theorem leader_panics_witness:
  "let w = demo_inner demo_store1; l = snd (become_leader w)
   in (\<exists>l' q. append_entries demo_env w l 2 = Inr (l', [CallAppend 2 1 1 q]))
     \<and> worker_step demo_env (Leader w l) (AppendResponse 2 1 1 (Inr (AppendEntriesR \<lparr>aer_term = 1, aer_success = False\<rparr>)))
       = Inl UnwrapNone"
proof -
  let ?w = "demo_inner demo_store1" and ?l = "snd (become_leader (demo_inner demo_store1))"
  have f: "entries_of demo_env ?w = [entry 7 1 1]" "entries_of demo_env (demo_inner demo_store) = []"
    "map_of (next_indices ?l) 2 = Some 2" "map_of (peer_clients ?w) 2 = Some \<lparr>client_node_id = 2, connected = True\<rparr>"
    "connected \<lparr>client_node_id = 2, connected = True\<rparr>" "2 \<notin> set (in_flight_peers ?l)"
    "term_of (demo_inner demo_store) \<le> term_of ?w" "last_log_index (store ?w) \<noteq> - 1" "term_of ?w = 1"
    using demo_logs by (simp_all add: become_leader_def demo_defs)
  from leader_panics [OF demo_inner_ok(2) f(1,3,4,5,6) demo_inner_ok(1) f(2,7)] demo_inner_ok(2) f(3-5,8,9)
  show ?thesis unfolding Let_def by metis
qed

text \<open>
  C37: A leader commits nothing, its own new entries included, while the entry after its commit
  index is of an older term, whatever its followers hold: the walk stops at that entry instead
  of passing over it to an entry of the leader's own term, which would commit both.
\<close>

theorem old_entry_blocks_commit:
  assumes "storage_ok env (store w)" and "commit_index w \<noteq> - 1"
    and "commit_index w < last_log_index (store w)"
    and "le_term (entries_of env w ! unat (commit_index w)) \<noteq> term_of w"
  shows "\<exists>m. advance_commit_index env w l = Inr (w, l\<lparr>in_flight_client_requests := m\<rparr>, [])
    \<and> map_of m = map_of (in_flight_client_requests l)"
  by (rule commit_blocked [OF assms])

theorem old_entry_blocks_commit_witness:
  "\<exists>s m. rfold (exec_op demo_env) demo_store1 [UpdateTerm 2, AppendEntry (entry 5 2 2)] = Inr s
     \<and> (let l = \<lparr>next_indices = [(2, 3), (3, 3)], match_indices = [(2, 2), (3, 2)],
                 in_flight_client_requests = [], in_flight_peers = []\<rparr>
        in agree l 2 = 2 \<and> advance_commit_index demo_env (demo_inner s) l
             = Inr (demo_inner s, l\<lparr>in_flight_client_requests := m\<rparr>, []))"
proof -
  let ?ops = "[UpdateTerm 2, AppendEntry (entry 5 2 2)]"
  let ?l = "\<lparr>next_indices = [(2, 3), (3, 3)], match_indices = [(2, 2), (3, 2)],
                 in_flight_client_requests = [], in_flight_peers = []\<rparr>"
  have a: "abs_storage demo_env demo_store1 = \<lparr>p_term = 1, p_vote = None, p_log = [entry 7 1 1]\<rparr>"
    by (simp add: abs_storage_def demo_logs) (simp add: demo_store1_def demo_store_def)
  obtain s where s: "rfold (exec_op demo_env) demo_store1 ?ops = Inr s" by (simp add: runs demo_defs)
  have "ops_legal (abs_storage demo_env demo_store1) ?ops" by (simp add: a) (simp add: entry_def)
  from exec_ops_spec [OF demo_store1_ok this s] have ok: "storage_ok demo_env s"
    and abs: "abs_storage demo_env s = \<lparr>p_term = 2, p_vote = None, p_log = [entry 7 1 1, entry 5 2 2]\<rparr>"
    by (simp_all add: a)
  from arg_cong [OF abs, of p_term] arg_cong [OF abs, of p_log] have
    f: "current_term s = 2" "log_of demo_env s = [entry 7 1 1, entry 5 2 2]" by simp_all
  have last: "0 < last_log_index s" using arg_cong [OF f(2), of length] by (simp add: word_less_nat_alt)
  have "storage_ok demo_env (store (demo_inner s))" using ok by (simp add: demo_inner_def)
  from old_entry_blocks_commit [OF this, of ?l] last f obtain m where
    "advance_commit_index demo_env (demo_inner s) ?l = Inr (demo_inner s, ?l\<lparr>in_flight_client_requests := m\<rparr>, [])"
    by (auto simp: demo_inner_def [of s] entry_def)
  with s show ?thesis by (auto simp: agree_def)
qed

section \<open>Other faults\<close>

text \<open>
  C38: One browser can stop the introducer. A second join on the same socket, for a session that
  nobody has joined, replaces the node to be taken off at the end; the lookup of that session
  then panics with the lock on the sessions held, which poisons it, and whatever happens from
  then on, nobody is ever registered or taken off again.
\<close>

theorem introducer_poisoned:
  "let srv = intro_run introducer_init
       [Accept 0, Incoming 0 (join_msg 1 9), TakeJoin 0, Incoming 0 (join_msg 1 8), EndOfStream 0, TaskLeaves 0, Finish 0]
   in \<forall>as. poisoned (channels (intro_run srv as)) \<and> online (channels (intro_run srv as)) = [9 \<mapsto> {1}]"
proof -
  define srv where "srv = intro_run introducer_init
       [Accept 0, Incoming 0 (join_msg 1 9), TakeJoin 0, Incoming 0 (join_msg 1 8), EndOfStream 0, TaskLeaves 0, Finish 0]"
  have p: "poisoned (channels srv)" and o: "online (channels srv) = [9 \<mapsto> {1}]" by (simp_all add: srv_def intro_runs)
  from poisoned_run [OF p] o show ?thesis unfolding srv_def [symmetric] Let_def by simp
qed

text \<open>
  C39: The table of requests in flight wears out. Whatever values are put in and taken out, a
  table of capacity c accepts fewer than 2^32 + c values in its whole life; every later one is
  refused, even when the table is empty.
\<close>

theorem ring_wedges:
  fixes c :: usize and ops :: "'v ring_op list"
  assumes "c \<noteq> 0"
  shows "accepts (with_capacity c) ops < 2 ^ 32 + unat c"
  using worn_accepts [OF fresh_worn [OF assms], of ops] by simp

theorem ring_wedges_witness:
  "accepts (with_capacity 1) [Put ''x'', Put ''y'', Take_out 0, Put ''z''] = 2
    \<and> (\<forall>ops. accepts (with_capacity 1) ([Put ''x'', Put ''y'', Take_out 0, Put ''z''] @ ops) < 2 ^ 32 + 1)"
proof -
  have "accepts (with_capacity 1) [Put ''x'', Put ''y'', Take_out 0, Put ''z''] = 2"
    by (simp add: with_capacity_def add_def data_idx_def slot_at_def remove_def Let_def advance_min.simps)
  moreover have "accepts (with_capacity 1) ([Put ''x'', Put ''y'', Take_out 0, Put ''z''] @ ops) < 2 ^ 32 + 1" for ops
    using ring_wedges [of 1 "[Put ''x'', Put ''y'', Take_out 0, Put ''z''] @ ops"] by (simp only: unat_1) simp
  ultimately show ?thesis by blast
qed

text \<open>
  C40: Finishing an edit can delete the entry. The page sends a command again when its answer
  does not come in time, although the cluster may have applied it; and the list applies it a
  second time. The text of the edit is empty by then, and an edit that ends with an empty text
  takes its entry out.
\<close>

theorem retried_edit_removes:
  assumes "unat idx < length (shown_at s)" and "trim (edit_value s) \<noteq> []"
  shows "raft_callback (\<lambda>_. Edit idx) input [Inl Timeout, Inr ()] = [Edit idx, Edit idx]
    \<and> (\<exists>s' s''. todo_apply s (Edit idx) = Inr s' \<and> todo_apply s' (Edit idx) = Inr s''
        \<and> (let i = shown_at s ! unat idx in entries s'' = take i (entries s) @ drop (Suc i) (entries s)))"
  using edit_twice [OF assms] by (simp add: raft_callback_def)

theorem retried_edit_removes_witness:
  "let s = \<lparr>entries = [\<lparr>description = ''a'', completed = False, editing = True\<rparr>], filter_by = FilterAll,
            input_value = [], edit_value = ''b''\<rparr>
   in \<exists>s' s''. todo_apply s (Edit 0) = Inr s' \<and> todo_apply s' (Edit 0) = Inr s'' \<and> entries s'' = []"
proof -
  let ?s = "\<lparr>entries = [\<lparr>description = ''a'', completed = False, editing = True\<rparr>], filter_by = FilterAll,
      input_value = [], edit_value = ''b''\<rparr>"
  have "shown_at ?s = [0]" "trim (edit_value ?s) \<noteq> []" by (simp_all add: shown_at_def trim_def is_whitespace_def)
  with retried_edit_removes [of 0 ?s "()"] show ?thesis by (simp add: Let_def)
qed

end
